(* ===== verification/Prelude.thy ===== *)
theory Prelude
  imports Main "HOL-Library.Word"
begin

text \<open>
  Shared ground of the development: the machine types of the RV64 build of the
  monitor, the SBI error codes, the helper macros of \<^verbatim>\<open>util.h\<close>, and the
  generic lemmas on words, lists and options that the component theories use.

  The monitor is modelled for \<^verbatim>\<open>__RISCV_XLEN__ == 64\<close>: an \<^verbatim>\<open>unsigned long\<close>,
  a \<^verbatim>\<open>paddr_t\<close> and a CSR are 64-bit words whose arithmetic wraps around.
  Indices of harts, domains, PMP entries and array slots are natural numbers;
  every place where the C code compares such an index with a bound keeps the
  comparison.
\<close>

unbundle bit_operations_syntax

type_synonym ulong = "64 word"
type_synonym u32 = "32 word"
type_synonym u8 = "8 word"

named_theorems word_facts \<open>facts on masks, alignment and ranges of words\<close>
named_theorems frame \<open>what an operation leaves unchanged\<close>

section \<open>SBI error codes (include/sbi/sbi.h)\<close>

datatype sbi =
    SBI_SUCCESS
  | SBI_ERR_FAILED
  | SBI_ERR_NOT_SUPPORTED
  | SBI_ERR_INVALID_PARAM
  | SBI_ERR_DENIED
  | SBI_ERR_INVALID_ADDRESS
  | SBI_ERR_ALREADY_AVAILABLE
  | SBI_ERR_ALREADY_STARTED
  | SBI_ERR_ALREADY_STOPPED
  | SBI_ERR_NO_SHMEM
  | SBI_ERR_INVALID_STATE
  | SBI_ERR_BAD_RANGE
  | SBI_ERR_TIMEOUT
  | SBI_ERR_IO
  | SBI_ERR_DENIED_LOCKED

fun sbi_code :: "sbi \<Rightarrow> int" where
  "sbi_code SBI_SUCCESS = 0"
| "sbi_code SBI_ERR_FAILED = -1"
| "sbi_code SBI_ERR_NOT_SUPPORTED = -2"
| "sbi_code SBI_ERR_INVALID_PARAM = -3"
| "sbi_code SBI_ERR_DENIED = -4"
| "sbi_code SBI_ERR_INVALID_ADDRESS = -5"
| "sbi_code SBI_ERR_ALREADY_AVAILABLE = -6"
| "sbi_code SBI_ERR_ALREADY_STARTED = -7"
| "sbi_code SBI_ERR_ALREADY_STOPPED = -8"
| "sbi_code SBI_ERR_NO_SHMEM = -9"
| "sbi_code SBI_ERR_INVALID_STATE = -10"
| "sbi_code SBI_ERR_BAD_RANGE = -11"
| "sbi_code SBI_ERR_TIMEOUT = -12"
| "sbi_code SBI_ERR_IO = -13"
| "sbi_code SBI_ERR_DENIED_LOCKED = -14"

text \<open>
  What stops the monitor: \<^verbatim>\<open>panic()\<close> never returns, so an operation that may
  panic has a result of type \<open>panic + 'a\<close>.
\<close>

datatype panic =
    Region_Into_Monitor ulong ulong
  | Too_Many_Regions
  | No_Pmp
  | Out_Of_Pmp_Entries ulong ulong
  | Window_On_Monitor ulong ulong
  | Out_Of_Memory
  | No_Room_For_Stacks
  | Too_Many_Domain_Regions nat

section \<open>Build configuration and hart features\<close>

text \<open>
  The Kconfig symbols the modelled code is compiled with, and where the image
  was linked to: \<^verbatim>\<open>__image_start\<close> and \<^verbatim>\<open>__text_rodata_end\<close>.
\<close>

record config =
  PLATFORM_HART_COUNT :: nat
  RISCV_PMP_COUNT :: nat
  MONITOR_SIZE :: ulong
  INSECURE_NO_PMP :: bool
  SBI_DBTR_MAX_TRIGGERS :: nat
  MPXY_SSE_EVENTS :: nat
  image_start :: ulong
  text_rodata_end :: ulong

datatype hart_feature =
    HART_FEAT_PMP
  | HART_FEAT_SMEPMP
  | HART_FEAT_TIME_CSR
  | HART_FEAT_MENVCFG
  | HART_FEAT_SSTC
  | HART_FEAT_SSCOFPMF
  | HART_FEAT_SMSTATEEN
  | HART_FEAT_SDTRIG
  | HART_FEAT_SSDBLTRP
  | HART_FEAT_H
  | HART_FEAT_SMCNTRPMF
  | HART_FEAT_SMCDELEG
  | HART_FEAT_ZKR
  | HART_FEAT_AIA
  | HART_FEAT_RAS_IRQ

type_synonym features = "hart_feature \<Rightarrow> bool"

section \<open>Macros of lib/libutils/include/util.h\<close>

definition BIT :: "nat \<Rightarrow> ulong" where
  "BIT nr = push_bit nr 1"

definition GENMASK_UL :: "nat \<Rightarrow> nat \<Rightarrow> ulong" where
  "GENMASK_UL h l = push_bit l (- 1) AND drop_bit (64 - 1 - h) (- 1)"

definition IS_POWER_OF_TWO :: "ulong \<Rightarrow> bool" where
  "IS_POWER_OF_TWO x \<longleftrightarrow> x \<noteq> 0 \<and> x AND (NOT x + 1) = x"

definition IS_ALIGNED :: "ulong \<Rightarrow> ulong \<Rightarrow> bool" where
  "IS_ALIGNED x a \<longleftrightarrow> x AND (a - 1) = 0"

definition ROUNDUP2 :: "ulong \<Rightarrow> ulong \<Rightarrow> ulong" where
  "ROUNDUP2 x y = (x + y - 1) AND NOT (y - 1)"

definition get_field_ul :: "ulong \<Rightarrow> ulong \<Rightarrow> ulong" where
  "get_field_ul reg m = (reg AND m) div (m AND NOT (m - 1))"

definition set_field_ul :: "ulong \<Rightarrow> ulong \<Rightarrow> ulong \<Rightarrow> ulong" where
  "set_field_ul reg m val = (reg AND NOT m) OR ((val * (m AND NOT (m - 1))) AND m)"

definition reg_pair_to_64 :: "u32 \<Rightarrow> u32 \<Rightarrow> ulong" where
  "reg_pair_to_64 reg0 reg1 = push_bit 32 (ucast reg0) OR ucast reg1"

definition high32_from_64 :: "ulong \<Rightarrow> u32" where
  "high32_from_64 val = ucast (drop_bit 32 val)"

definition low32_from_64 :: "ulong \<Rightarrow> u32" where
  "low32_from_64 val = ucast val"

section \<open>Lemmas on words\<close>

text \<open>Powers of two, alignment and rounding, read as facts on natural numbers.\<close>

lemma and_minus_one_nat_zero: "0 < n \<Longrightarrow> n AND (n - 1) = 0 \<Longrightarrow> \<exists>k. (n::nat) = 2 ^ k"
proof (induction n rule: less_induct)
  case (less n)
  show ?case
  proof (cases "even n")
    case True
    then obtain m where n: "n = 2 * m" by blast
    with less.prems have m: "0 < m" by simp
    have "n - 1 = 1 + 2 * (m - 1)" using n m by simp
    then have "n AND (n - 1) = 2 * (m AND (m - 1))"
      using n by (simp add: and_nat_rec [of "2 * m"])
    with less.prems have "m AND (m - 1) = 0" by simp
    moreover have "m < n" using n m by simp
    ultimately obtain k where "m = 2 ^ k" using less.IH m by blast
    with n have "n = 2 ^ Suc k" by simp
    then show ?thesis by blast
  next
    case False
    then obtain m where n: "n = 1 + 2 * m" using oddE by (metis add.commute)
    then have "n AND (n - 1) = 2 * m"
      by (simp add: and_nat_rec [of "Suc (2 * m)"])
    with less.prems n have "n = 2 ^ 0" by simp
    then show ?thesis by blast
  qed
qed

lemma IS_POWER_OF_TWO_imp:
  assumes "IS_POWER_OF_TWO x"
  shows "\<exists>k<64. unat x = 2 ^ k"
proof -
  have x0: "x \<noteq> 0" and eq: "x AND (NOT x + 1) = x"
    using assms by (auto simp: IS_POWER_OF_TWO_def)
  have "NOT x + 1 = NOT (x - 1)" by (simp add: not_eq_complement)
  with eq have "x AND NOT (x - 1) = x" by simp
  then have "x AND (x - 1) = (x AND NOT (x - 1)) AND (x - 1)" by (simp only:)
  then have "x AND (x - 1) = 0" by (simp add: and.assoc)
  then have "unat x AND unat (x - 1) = 0"
    by (metis unsigned_0 unsigned_and_eq)
  moreover have "unat (x - 1) = unat x - 1"
    using x0 by (simp add: unat_minus_one)
  moreover have "0 < unat x" using x0 by (simp add: unat_gt_0)
  ultimately obtain k where k: "unat x = 2 ^ k"
    using and_minus_one_nat_zero by metis
  moreover have "(2::nat) ^ k < 2 ^ 64"
    using unsigned_less [of x, where ?'a = nat] k by simp
  then have "k < 64" by (rule power_less_imp_less_exp [rotated]) simp
  ultimately show ?thesis by blast
qed

lemma unat_two_power: "k < 64 \<Longrightarrow> unat ((2::ulong) ^ k) = 2 ^ k"
proof -
  assume k: "k < 64"
  have "(2::ulong) ^ k = of_nat (2 ^ k)" by simp
  then have "unat ((2::ulong) ^ k) = take_bit 64 (2 ^ k)"
    by (simp only: unsigned_of_nat) simp
  also have "\<dots> = 2 ^ k"
    using k by (intro take_bit_nat_eq_self power_strict_increasing) simp_all
  finally show ?thesis .
qed

lemma BIT_eq_power: "BIT k = 2 ^ k"
  by (simp add: BIT_def push_bit_eq_mult)

lemma unat_BIT: "k < 64 \<Longrightarrow> unat (BIT k) = 2 ^ k"
  by (simp add: BIT_eq_power unat_two_power)

lemma IS_ALIGNED_dvd:
  assumes "unat a = 2 ^ k" and "k < 64"
  shows "IS_ALIGNED x a \<longleftrightarrow> 2 ^ k dvd unat x"
proof -
  have "a = 2 ^ k" using assms by (metis unat_two_power word_unat_eq_iff)
  then have "a - 1 = mask k" by (simp add: mask_eq_exp_minus_1)
  then have "x AND (a - 1) = take_bit k x" by (simp add: take_bit_eq_mask)
  moreover have "take_bit k x = 0 \<longleftrightarrow> unat (take_bit k x) = 0"
    by (simp add: unat_eq_0)
  ultimately show ?thesis
    by (simp add: IS_ALIGNED_def unsigned_take_bit_eq take_bit_nat_def dvd_eq_mod_eq_0)
qed

lemma unat_drop: "unat (drop_bit n w) = unat w div 2 ^ n"
  by (simp only: unat_drop_bit_eq) (simp only: drop_bit_eq_div)

lemma mask_unat: "k < 64 \<Longrightarrow> unat (mask k :: ulong) = 2 ^ k - 1"
proof -
  assume "k < 64"
  then have "unat (of_nat (mask k) :: ulong) = mask k"
    by (simp add: unsigned_of_nat min_def)
  then show ?thesis by (simp add: of_nat_mask_eq) (simp add: mask_eq_exp_minus_1)
qed

lemma IS_POWER_OF_TWO_BIT: "k < 64 \<Longrightarrow> IS_POWER_OF_TWO (BIT k)"
proof -
  assume "k < 64"
  then have "BIT k \<noteq> 0" using unat_BIT [of k] by (metis power_not_zero unat_0 zero_neq_numeral)
  moreover have "NOT (BIT k) + 1 = NOT (mask k)"
    by (simp add: BIT_eq_power not_eq_complement minus_exp_eq_not_mask)
  moreover have "BIT k AND NOT (mask k) = BIT k"
    by (rule bit_eqI) (auto simp: BIT_eq_power bit_and_iff bit_not_iff bit_mask_iff bit_exp_iff)
  ultimately show ?thesis by (simp add: IS_POWER_OF_TWO_def)
qed

lemma interval_apart:
  fixes a b l s :: nat
  assumes "{a..b} \<inter> {l..<l + s} = {}" "a \<le> b" "0 < s"
  shows "b < l \<or> l + s - 1 < a"
proof (rule ccontr)
  assume "\<not> ?thesis"
  then have "max a l \<in> {a..b} \<inter> {l..<l + s}" using assms(2,3) by auto
  with assms(1) show False by simp
qed

lemma word_le_one: "(w :: ulong) \<le> 1 \<longleftrightarrow> w = 0 \<or> w = 1"
  by (auto simp: word_le_nat_alt word_unat_eq_iff)

lemma unat_of_nat_le: "unat (of_nat n :: ulong) \<le> n"
  by (simp add: unsigned_of_nat take_bit_nat_less_eq_self)

lemma below_of_nat: "x < of_nat n \<Longrightarrow> unat (x :: ulong) < n"
  using unat_of_nat_le [of n] by (simp add: word_less_nat_alt)

lemma case_option_SomeD: "(case x of None \<Rightarrow> None | Some y \<Rightarrow> Some (f y)) = Some z \<Longrightarrow> \<exists>y. x = Some y \<and> z = f y"
  by (cases x) auto

text \<open>Updating an element in a way a projection does not see.\<close>

lemma nth_update_keep: "f y = f (xs ! k) \<Longrightarrow> f (xs[k := y] ! i) = f (xs ! i)"
  by (cases "k < length xs"; cases "i = k") (auto simp: list_update_beyond)

text \<open>A loop that rewrites the first elements of an array, each from its own value.\<close>

lemma fold_update_prefix:
  "n \<le> length xs \<Longrightarrow>
   fold (\<lambda>i xs. xs[i := f i (xs ! i)]) [0..<n] xs = map (\<lambda>i. f i (xs ! i)) [0..<n] @ drop n xs"
proof (induction n)
  case (Suc n)
  then have "fold (\<lambda>i xs. xs[i := f i (xs ! i)]) [0..<n] xs = map (\<lambda>i. f i (xs ! i)) [0..<n] @ drop n xs" by simp
  moreover have "drop n xs = xs ! n # drop (Suc n) xs" using Suc.prems by (simp add: Cons_nth_drop_Suc)
  ultimately show ?case by (simp add: nth_append list_update_append)
qed simp

end
