(* ===== verification/Ring.thy ===== *)
theory Ring
  imports Prelude
begin

text \<open>
  The queue of remote fence requests of a hart (\<^verbatim>\<open>arch/riscv/runtime/rfence.c\<close>,
  \<^verbatim>\<open>struct rfence_queue\<close>): a ring of eight entries with a head and a count. The
  locale \<open>bounded_fifo\<close> is what its clients rely on, a first-in first-out list of
  bounded length; the ring is an instance of it, and every sequence of operations on
  the ring answers as the list does.
\<close>

section \<open>Requests and the ring\<close>

datatype rfence_type =
    RFENCE_FENCE_I
  | RFENCE_SFENCE_VMA
  | RFENCE_SFENCE_VMA_ASID
  | RFENCE_HFENCE_GVMA
  | RFENCE_HFENCE_GVMA_VMID
  | RFENCE_HFENCE_VVMA
  | RFENCE_HFENCE_VVMA_ASID

fun type_code :: "rfence_type \<Rightarrow> nat" where
  "type_code RFENCE_FENCE_I = 0"
| "type_code RFENCE_SFENCE_VMA = 1"
| "type_code RFENCE_SFENCE_VMA_ASID = 2"
| "type_code RFENCE_HFENCE_GVMA = 3"
| "type_code RFENCE_HFENCE_GVMA_VMID = 4"
| "type_code RFENCE_HFENCE_VVMA = 5"
| "type_code RFENCE_HFENCE_VVMA_ASID = 6"

record rfence_req =
  req_type :: rfence_type
  req_start :: ulong
  req_size :: ulong
  req_asid :: ulong

text \<open>
  An entry points at the requester's count of requests still out, a local variable of
  the requesting hart: here the index of that hart.
\<close>

record rfence_entry =
  e_req :: rfence_req
  e_out :: nat

abbreviation RFENCE_QUEUE_LEN :: nat where "RFENCE_QUEUE_LEN \<equiv> 8"

record rfence_queue =
  q_head :: nat
  q_count :: nat
  q_entries :: "rfence_entry list"

definition ring_put :: "rfence_entry \<Rightarrow> rfence_queue \<Rightarrow> rfence_queue option" where
  "ring_put e q =
     (if q_count q < RFENCE_QUEUE_LEN then
        let at = (q_head q + q_count q) mod RFENCE_QUEUE_LEN in
        Some (q\<lparr>q_count := q_count q + 1, q_entries := (q_entries q)[at := e]\<rparr>)
      else None)"

definition ring_take :: "rfence_queue \<Rightarrow> (rfence_entry \<times> rfence_queue) option" where
  "ring_take q =
     (if q_count q = 0 then None
      else Some (q_entries q ! q_head q,
                 q\<lparr>q_head := (q_head q + 1) mod RFENCE_QUEUE_LEN, q_count := q_count q - 1\<rparr>))"

text \<open>The ring and the entries it holds, oldest first.\<close>

definition ring_wf :: "rfence_queue \<Rightarrow> bool" where
  "ring_wf q \<longleftrightarrow> q_head q < RFENCE_QUEUE_LEN \<and> q_count q \<le> RFENCE_QUEUE_LEN \<and>
     length (q_entries q) = RFENCE_QUEUE_LEN"

definition ring_list :: "rfence_queue \<Rightarrow> rfence_entry list" where
  "ring_list q = map (\<lambda>i. q_entries q ! ((q_head q + i) mod RFENCE_QUEUE_LEN)) [0..<q_count q]"

section \<open>The contract\<close>

locale bounded_fifo =
  fixes put :: "'a \<Rightarrow> 'q \<Rightarrow> 'q option"
    and take_first :: "'q \<Rightarrow> ('a \<times> 'q) option"
    and contents :: "'q \<Rightarrow> 'a list"
    and wf :: "'q \<Rightarrow> bool"
    and capacity :: nat
  assumes put_room: "wf q \<Longrightarrow> length (contents q) < capacity \<Longrightarrow>
      \<exists>q'. put x q = Some q' \<and> wf q' \<and> contents q' = contents q @ [x]"
    and put_full: "wf q \<Longrightarrow> capacity \<le> length (contents q) \<Longrightarrow> put x q = None"
    and take_empty: "wf q \<Longrightarrow> contents q = [] \<Longrightarrow> take_first q = None"
    and take_some: "wf q \<Longrightarrow> contents q = y # ys \<Longrightarrow>
      \<exists>q'. take_first q = Some (y, q') \<and> wf q' \<and> contents q' = ys"
    and bounded: "wf q \<Longrightarrow> length (contents q) \<le> capacity"
begin

lemma put_None: "wf q \<Longrightarrow> put x q = None \<longleftrightarrow> length (contents q) = capacity"
  using put_room [of q x] put_full [of q x] bounded [of q] by fastforce

lemma put_Some:
  assumes "wf q" "put x q = Some q'"
  shows "wf q' \<and> contents q' = contents q @ [x]"
proof -
  have "length (contents q) < capacity"
    using put_None [OF assms(1), of x] bounded [OF assms(1)] assms(2) by auto
  then show ?thesis using put_room [OF assms(1), of x] assms(2) by auto
qed

lemma take_None: "wf q \<Longrightarrow> take_first q = None \<longleftrightarrow> contents q = []"
  using take_empty [of q] take_some [of q] by (cases "contents q") fastforce+

lemma take_Some:
  assumes "wf q" "take_first q = Some (x, q')"
  shows "wf q' \<and> contents q = x # contents q'"
  using take_some [OF assms(1)] take_empty [OF assms(1)] assms(2) by (cases "contents q") fastforce+

end

text \<open>
  A run of operations: what each answers, on any implementation. An operation that
  puts answers whether there was room, one that takes answers the entry if there was one.
\<close>

datatype 'a fifo_op = Put 'a | Take

fun fifo_run ::
  "('a \<Rightarrow> 'q \<Rightarrow> 'q option) \<Rightarrow> ('q \<Rightarrow> ('a \<times> 'q) option) \<Rightarrow> 'a fifo_op list \<Rightarrow> 'q \<Rightarrow>
   (bool + 'a option) list \<times> 'q" where
  "fifo_run put tk [] q = ([], q)"
| "fifo_run put tk (Put x # ops) q =
     (case put x q of
        None \<Rightarrow> let (as, q') = fifo_run put tk ops q in (Inl False # as, q')
      | Some q1 \<Rightarrow> let (as, q') = fifo_run put tk ops q1 in (Inl True # as, q'))"
| "fifo_run put tk (Take # ops) q =
     (case tk q of
        None \<Rightarrow> let (as, q') = fifo_run put tk ops q in (Inr None # as, q')
      | Some (x, q1) \<Rightarrow> let (as, q') = fifo_run put tk ops q1 in (Inr (Some x) # as, q'))"

text \<open>The specification: a list of bounded length.\<close>

definition list_put :: "nat \<Rightarrow> 'a \<Rightarrow> 'a list \<Rightarrow> 'a list option" where
  "list_put cap x xs = (if length xs < cap then Some (xs @ [x]) else None)"

definition list_take :: "'a list \<Rightarrow> ('a \<times> 'a list) option" where
  "list_take xs = (case xs of [] \<Rightarrow> None | x # ys \<Rightarrow> Some (x, ys))"

context bounded_fifo
begin

lemma put_refines: "wf q \<Longrightarrow> map_option contents (put x q) = list_put capacity x (contents q)"
  using put_room [of q x] put_full [of q x] by (fastforce simp: list_put_def)

lemma take_refines:
  "wf q \<Longrightarrow> map_option (map_prod id contents) (take_first q) = list_take (contents q)"
  using take_empty [of q] take_some [of q] by (cases "contents q") (fastforce simp: list_take_def)+

lemma run_refines:
  assumes "wf q"
  shows "map_prod id contents (fifo_run put take_first ops q) =
           fifo_run (list_put capacity) list_take ops (contents q) \<and>
         wf (snd (fifo_run put take_first ops q))"
  using assms
proof (induction ops arbitrary: q)
  case (Cons a ops)
  show ?case
  proof (cases a)
    case (Put x)
    then show ?thesis using Cons.IH [of q] Cons.IH [of "the (put x q)"] Cons.prems
        put_refines [OF Cons.prems, of x, symmetric] put_Some [OF Cons.prems, of x]
      by (cases "put x q") (auto simp: prod_eq_iff split: prod.splits option.splits)
  next
    case Take
    then show ?thesis using Cons.IH [of q] Cons.IH [of "snd (the (take_first q))"] Cons.prems
        take_refines [OF Cons.prems, symmetric] take_Some [OF Cons.prems]
      by (cases "take_first q") (auto simp: prod_eq_iff split: prod.splits option.splits)
  qed
qed simp

end

section \<open>The ring is one\<close>

lemma length_ring_list [simp]: "length (ring_list q) = q_count q"
  by (simp add: ring_list_def)

lemma ring_put_list:
  assumes "ring_wf q" "q_count q < RFENCE_QUEUE_LEN"
  shows "\<exists>q'. ring_put e q = Some q' \<and> ring_wf q' \<and> ring_list q' = ring_list q @ [e]"
proof -
  let ?at = "(q_head q + q_count q) mod 8"
  have l: "length (q_entries q) = 8" and h: "q_head q < 8" using assms(1) by (auto simp: ring_wf_def)
  have ne: "(q_head q + i) mod 8 \<noteq> ?at" if "i < q_count q" for i
  proof
    assume "(q_head q + i) mod 8 = ?at"
    then have "8 dvd q_count q - i" using that mod_eq_dvd_iff_nat [of "q_head q + i" "q_head q + q_count q" 8] by simp
    then show False using that assms(2) by (auto dest: dvd_imp_le)
  qed
  then have "map (\<lambda>i. (q_entries q)[?at := e] ! ((q_head q + i) mod 8)) [0..<q_count q] = ring_list q"
    by (auto simp: ring_list_def dest!: ne)
  moreover have "(q_entries q)[?at := e] ! ?at = e" using l by simp
  ultimately show ?thesis using assms by (simp add: ring_put_def ring_wf_def ring_list_def Let_def)
qed

lemma ring_take_list:
  assumes "ring_wf q" "ring_list q = e # es"
  shows "\<exists>q'. ring_take q = Some (e, q') \<and> ring_wf q' \<and> ring_list q' = es"
proof -
  define n where "n = length es"
  have n: "q_count q = Suc n" using assms(2) length_ring_list [of q] by (simp add: n_def)
  have h: "q_head q < 8" using assms(1) by (simp add: ring_wf_def)
  have u: "[0..<Suc n] = 0 # map Suc [0..<n]" by (simp add: map_Suc_upt upt_conv_Cons)
  have "ring_list q = q_entries q ! q_head q #
      map (\<lambda>i. q_entries q ! (((q_head q + 1) mod 8 + i) mod 8)) [0..<n]"
    unfolding ring_list_def n u using h by (simp add: mod_add_left_eq comp_def)
  with assms n show ?thesis by (auto simp: ring_take_def ring_wf_def ring_list_def)
qed

interpretation ring: bounded_fifo ring_put ring_take ring_list ring_wf RFENCE_QUEUE_LEN
proof unfold_locales
  show "ring_put x q = None" if "ring_wf q" "RFENCE_QUEUE_LEN \<le> length (ring_list q)" for q x
    using that by (simp add: ring_put_def)
  show "ring_take q = None" if "ring_wf q" "ring_list q = []" for q
    using that length_ring_list [of q] by (simp add: ring_take_def)
  show "length (ring_list q) \<le> RFENCE_QUEUE_LEN" if "ring_wf q" for q
    using that by (simp add: ring_wf_def)
qed (use ring_put_list ring_take_list in auto)

text \<open>A queue from the heap: zeroed.\<close>

definition ring_init :: "rfence_queue" where
  "ring_init = \<lparr>q_head = 0, q_count = 0,
     q_entries = replicate RFENCE_QUEUE_LEN
       \<lparr>e_req = \<lparr>req_type = RFENCE_FENCE_I, req_start = 0, req_size = 0, req_asid = 0\<rparr>, e_out = 0\<rparr>\<rparr>"

lemma ring_init_wf [simp]: "ring_wf ring_init" "ring_list ring_init = []" "q_count ring_init = 0"
  by (simp_all add: ring_init_def ring_wf_def ring_list_def)

text \<open>
  C25. Refinement of a first-in first-out list: whatever sequence of requests is put
  into a hart's ring and taken out of it, starting from the zeroed ring of
  \<^verbatim>\<open>rfence_init\<close>, each operation answers as it would on a list of at most eight
  entries (room or full, the oldest entry or none), and what is left in the ring is
  what is left in the list. The wrap-around of head and tail never shows.
\<close>

theorem ring_refines_fifo:
  "let (answers, q) = fifo_run ring_put ring_take ops ring_init in
   (answers, ring_list q) = fifo_run (list_put RFENCE_QUEUE_LEN) list_take ops [] \<and> ring_wf q"
  using ring.run_refines [of ring_init ops] by (auto simp: prod_eq_iff split: prod.splits)

end
