(* ===== verification/Hartmask.thy ===== *)
theory Hartmask
  imports Prelude
begin

text \<open>
  Bit strings (\<^verbatim>\<open>lib/libutils/include/bitstring.h\<close>) and the hart masks built
  on them (\<^verbatim>\<open>include/hartmask.h\<close>): an array of words, a bit per hart index.
  The abstraction is the set of indices whose bit is set; the locale
  \<open>index_set\<close> is the contract the components that keep hart masks rely on.
\<close>

type_synonym bitstr = "ulong list"
type_synonym hartmask = bitstr

definition bit_word :: "nat \<Rightarrow> nat" where
  "bit_word b = b div 64"

definition bit_mask :: "nat \<Rightarrow> ulong" where
  "bit_mask b = push_bit (b mod 64) 1"

definition bitstr_size :: "nat \<Rightarrow> nat" where
  "bitstr_size nbits = (nbits + 64 - 1) div 64"

definition bit_test :: "bitstr \<Rightarrow> nat \<Rightarrow> bool" where
  "bit_test name b \<longleftrightarrow> name ! bit_word b AND bit_mask b \<noteq> 0"

definition bit_set :: "bitstr \<Rightarrow> nat \<Rightarrow> bitstr" where
  "bit_set name b = name[bit_word b := name ! bit_word b OR bit_mask b]"

definition bit_clear :: "bitstr \<Rightarrow> nat \<Rightarrow> bitstr" where
  "bit_clear name b = name[bit_word b := name ! bit_word b AND NOT (bit_mask b)]"

text \<open>
  \<^verbatim>\<open>bit_ffs_from\<close>: the first bit set from \<^verbatim>\<open>startbit\<close> on; a word without a bit in it
  is skipped whole.
\<close>

function bit_ffs_from :: "bitstr \<Rightarrow> nat \<Rightarrow> nat \<Rightarrow> nat option" where
  "bit_ffs_from name nbits b =
     (if b < nbits then
        if b mod 64 = 0 \<and> name ! bit_word b = 0 then bit_ffs_from name nbits (b + 64)
        else if bit_test name b then Some b
        else bit_ffs_from name nbits (b + 1)
      else None)"
  by pat_completeness auto
termination
  by (relation "measure (\<lambda>(name, nbits, b). nbits - b)") auto

declare bit_ffs_from.simps [simp del]

definition bit_ffs :: "bitstr \<Rightarrow> nat \<Rightarrow> nat option" where
  "bit_ffs name nbits = bit_ffs_from name nbits 0"

text \<open>The bits \<^verbatim>\<open>bit_foreach\<close> visits, in its order.\<close>

definition bit_foreach :: "bitstr \<Rightarrow> nat \<Rightarrow> nat list" where
  "bit_foreach name nbits = filter (bit_test name) [0..<nbits]"

section \<open>Hart masks\<close>

definition hartmask_clear_all :: "nat \<Rightarrow> hartmask \<Rightarrow> hartmask" where
  "hartmask_clear_all count m = replicate (bitstr_size count) 0"

definition hartmask_set :: "hartmask \<Rightarrow> nat \<Rightarrow> hartmask" where
  "hartmask_set m index = bit_set m index"

definition hartmask_clear :: "hartmask \<Rightarrow> nat \<Rightarrow> hartmask" where
  "hartmask_clear m index = bit_clear m index"

definition hartmask_test :: "hartmask \<Rightarrow> nat \<Rightarrow> bool" where
  "hartmask_test m index = bit_test m index"

definition hartmask_empty :: "nat \<Rightarrow> hartmask \<Rightarrow> bool" where
  "hartmask_empty count m \<longleftrightarrow> list_all (\<lambda>i. m ! i = 0) [0..<bitstr_size count]"

definition hartmask_wf :: "nat \<Rightarrow> hartmask \<Rightarrow> bool" where
  "hartmask_wf count m \<longleftrightarrow> length m = bitstr_size count"

definition hartmask_members :: "nat \<Rightarrow> hartmask \<Rightarrow> nat set" where
  "hartmask_members count m = {i. i < count \<and> hartmask_test m i}"

section \<open>Bits of a word in an array\<close>

lemma bit_word_less: "b < nbits \<Longrightarrow> bit_word b < bitstr_size nbits"
  by (simp add: bit_word_def bitstr_size_def)

lemma and_bit_mask: "(w :: ulong) AND bit_mask b \<noteq> 0 \<longleftrightarrow> bit w (b mod 64)"
  by (simp add: bit_mask_def and_exp_eq_0_iff_not_bit push_bit_eq_mult)

lemma bit_bit_mask: "bit (bit_mask b) n \<longleftrightarrow> n = b mod 64"
  by (auto simp: bit_mask_def bit_push_bit_iff bit_exp_iff)

lemma same_bit_iff: "(a::nat) = b \<longleftrightarrow> bit_word a = bit_word b \<and> a mod 64 = b mod 64"
  unfolding bit_word_def by (metis div_mult_mod_eq)

lemma bit_test_iff: "bit_test m b \<longleftrightarrow> bit (m ! bit_word b) (b mod 64)"
  by (simp add: bit_test_def and_bit_mask)

lemma other_bit: "a \<noteq> b \<Longrightarrow> bit_word a = bit_word b \<Longrightarrow> a mod 64 \<noteq> b mod 64"
  using same_bit_iff [of a b] by blast

lemma bit_test_set:
  assumes "bit_word a < length m"
  shows "bit_test (bit_set m a) b \<longleftrightarrow> b = a \<or> bit_test m b"
proof (cases "b = a")
  case False
  with assms other_bit [of b a] show ?thesis
    by (cases "bit_word b = bit_word a") (simp_all add: bit_test_iff bit_set_def bit_or_iff bit_bit_mask)
qed (simp add: assms bit_test_iff bit_set_def bit_or_iff bit_bit_mask)

lemma bit_test_clear:
  assumes "bit_word a < length m"
  shows "bit_test (bit_clear m a) b \<longleftrightarrow> b \<noteq> a \<and> bit_test m b"
proof (cases "b = a")
  case False
  with assms other_bit [of b a] show ?thesis
    by (cases "bit_word b = bit_word a")
      (simp_all add: bit_test_iff bit_clear_def bit_and_iff bit_not_iff bit_bit_mask)
qed (simp add: assms bit_test_iff bit_clear_def bit_and_iff bit_not_iff bit_bit_mask)

lemma bit_test_none: "b < n \<Longrightarrow> \<not> bit_test (replicate (bitstr_size n) 0) b"
  by (simp add: bit_test_iff bit_word_less)

lemma length_bit_set [simp]: "length (bit_set m b) = length m"
  by (simp add: bit_set_def)

lemma length_bit_clear [simp]: "length (bit_clear m b) = length m"
  by (simp add: bit_clear_def)

lemma bit_test_zero_word: "m ! (b div 64) = 0 \<Longrightarrow> \<not> bit_test m b"
  by (simp add: bit_test_iff bit_word_def)

section \<open>The contract of a set of indices\<close>

locale index_set =
  fixes wf :: "'m \<Rightarrow> bool"
    and member :: "'m \<Rightarrow> nat \<Rightarrow> bool"
    and add :: "'m \<Rightarrow> nat \<Rightarrow> 'm"
    and del :: "'m \<Rightarrow> nat \<Rightarrow> 'm"
    and none :: "'m"
    and bound :: nat
  assumes wf_none: "wf none"
    and wf_add: "wf m \<Longrightarrow> i < bound \<Longrightarrow> wf (add m i)"
    and wf_del: "wf m \<Longrightarrow> i < bound \<Longrightarrow> wf (del m i)"
    and member_none: "j < bound \<Longrightarrow> \<not> member none j"
    and member_add: "wf m \<Longrightarrow> i < bound \<Longrightarrow> member (add m i) j \<longleftrightarrow> j = i \<or> member m j"
    and member_del: "wf m \<Longrightarrow> i < bound \<Longrightarrow> member (del m i) j \<longleftrightarrow> j \<noteq> i \<and> member m j"
begin

lemma wf_foldl_add: "wf m \<Longrightarrow> \<forall>i\<in>set is. i < bound \<Longrightarrow> wf (foldl add m is)"
  by (induction "is" arbitrary: m) (auto simp: wf_add)

lemma member_foldl_add:
  "wf m \<Longrightarrow> \<forall>i\<in>set is. i < bound \<Longrightarrow>
   member (foldl add m is) j \<longleftrightarrow> j \<in> set is \<or> member m j"
  by (induction "is" arbitrary: m) (auto simp: wf_add member_add)

text \<open>Moving an index from one set to another keeps the two apart.\<close>

lemma move_disjoint:
  assumes "wf m" "wf m'" "i < bound" "\<And>j. \<not> (member m j \<and> member m' j)"
  shows "\<not> (member (del m i) j \<and> member (add m' i) j)"
  using assms by (auto simp: member_add member_del)

end

interpretation hm: index_set "hartmask_wf count" hartmask_test hartmask_set hartmask_clear
  "hartmask_clear_all count m0" count
  by unfold_locales
    (auto simp: hartmask_wf_def hartmask_test_def hartmask_set_def hartmask_clear_def
      hartmask_clear_all_def bit_test_set bit_test_clear bit_word_less bit_test_none)

section \<open>Reading a mask\<close>

lemma hartmask_empty_iff:
  assumes "hartmask_wf count m" and "\<And>i. hartmask_test m i \<Longrightarrow> i < count"
  shows "hartmask_empty count m \<longleftrightarrow> hartmask_members count m = {}"
proof
  assume e: "hartmask_empty count m"
  have "\<not> hartmask_test m i" if "i < count" for i
    using e that bit_word_less [OF that]
    by (auto simp: hartmask_empty_def hartmask_test_def bit_test_iff list_all_iff)
  then show "hartmask_members count m = {}" by (auto simp: hartmask_members_def)
next
  assume none: "hartmask_members count m = {}"
  have "m ! w = 0" if w: "w < bitstr_size count" for w
  proof (rule bit_eqI)
    fix n assume "possible_bit TYPE(64 word) n"
    then have n: "n < 64" by simp
    have "\<not> hartmask_test m (64 * w + n)"
      using none assms(2) by (auto simp: hartmask_members_def)
    then show "bit (m ! w) n = bit 0 n"
      using n by (simp add: hartmask_test_def bit_test_iff bit_word_def)
  qed
  then show "hartmask_empty count m" by (simp add: hartmask_empty_def list_all_iff)
qed

lemma set_bit_foreach: "set (bit_foreach m count) = hartmask_members count m"
  by (auto simp: bit_foreach_def hartmask_members_def hartmask_test_def)

text \<open>
  \<^verbatim>\<open>bit_ffs_from\<close> with its skipping of empty words finds what a plain search finds.
\<close>

lemma find_upt_Suc:
  "b < n \<Longrightarrow> find P [b..<n] = (if P b then Some b else find P [Suc b..<n])"
  by (simp add: upt_conv_Cons)

lemma find_upt_skip:
  "(\<And>i. b \<le> i \<Longrightarrow> i < b + k \<Longrightarrow> \<not> P i) \<Longrightarrow> find P [b..<n] = find P [b + k..<n]"
proof (induction k arbitrary: b)
  case (Suc k)
  have "find P [b..<n] = find P [Suc b..<n]"
    using Suc.prems [of b] by (cases "b < n") (auto simp: find_upt_Suc)
  also have "\<dots> = find P [Suc b + k..<n]"
    using Suc.prems by (intro Suc.IH) auto
  finally show ?case by simp
qed simp

lemma word_skip:
  assumes "b mod 64 = 0" and "m ! bit_word b = 0"
  shows "find (bit_test m) [b..<n] = find (bit_test m) [b + 64..<n]"
proof (rule find_upt_skip)
  fix i assume i: "b \<le> i" "i < b + 64"
  obtain q where q: "b = 64 * q" using assms(1) by (auto simp: dvd_def simp flip: dvd_eq_mod_eq_0)
  then have "i div 64 = q" using i by (intro div_nat_eqI) simp_all
  then have "i div 64 = b div 64" using q by simp
  then show "\<not> bit_test m i" using assms(2) by (simp add: bit_test_zero_word bit_word_def)
qed

lemma bit_ffs_from_find: "bit_ffs_from m n b = find (bit_test m) [b..<n]"
proof (induction m n b rule: bit_ffs_from.induct)
  case (1 m n b)
  show ?case
  proof (cases "b < n")
    case True
    show ?thesis
    proof (cases "b mod 64 = 0 \<and> m ! bit_word b = 0")
      case skip: True
      have "bit_ffs_from m n b = bit_ffs_from m n (b + 64)"
        using True skip by (subst bit_ffs_from.simps) (simp only: if_True simp_thms)
      also have "\<dots> = find (bit_test m) [b + 64..<n]" using "1.IH"(1) True skip by blast
      also have "\<dots> = find (bit_test m) [b..<n]" using skip word_skip by metis
      finally show ?thesis .
    next
      case look: False
      show ?thesis
      proof (cases "bit_test m b")
        case hit: True
        have "bit_ffs_from m n b = Some b"
          using True look hit by (subst bit_ffs_from.simps) (simp only: if_True if_False simp_thms)
        with True hit show ?thesis by (simp only: find_upt_Suc if_True)
      next
        case miss: False
        have "bit_ffs_from m n b = bit_ffs_from m n (b + 1)"
          using True look miss by (subst bit_ffs_from.simps) (simp only: if_True if_False simp_thms)
        also have "\<dots> = find (bit_test m) [b + 1..<n]" using "1.IH"(2) True look miss by blast
        also have "\<dots> = find (bit_test m) [b..<n]"
          using True miss by (simp only: find_upt_Suc if_False Suc_eq_plus1)
        finally show ?thesis .
      qed
    qed
  qed (simp add: bit_ffs_from.simps [of m n b])
qed

text \<open>C9. The search for the first set bit, which skips a word without a bit in it whole,
  finds what a look at one bit after the other finds: the least set bit below the bound, and
  none just where there is none. It ends for every string and bound.\<close>

theorem ffs_finds: "bit_ffs m n = find (bit_test m) [0..<n]"
  by (simp add: bit_ffs_def bit_ffs_from_find)

end
