(* ===== verification/Memregion.thy ===== *)
theory Memregion
  imports Prelude
begin

text \<open>
  What the monitor knows of the address map (\<^verbatim>\<open>include/memregion.h\<close> and the first
  part of \<^verbatim>\<open>arch/riscv/runtime/hart.c\<close>): the list of memory regions the drivers
  and the monitor itself register, and the check that a range keeps clear of
  what is the monitor's alone.
\<close>

datatype memregion_kind = MEMREGION_MMODE_RX | MEMREGION_MMODE_RW | MEMREGION_SHARED_RW

record memregion =
  mr_base :: ulong
  mr_size :: ulong
  mr_kind :: memregion_kind

abbreviation MAX_MEMREGIONS :: nat where "MAX_MEMREGIONS \<equiv> 12"

section \<open>Operations\<close>

definition monitor_base :: "config \<Rightarrow> ulong" where
  "monitor_base cfg = image_start cfg"

text \<open>One turn of the loop: a neighbour of the same kind takes the new range in.\<close>

definition memregion_grow :: "ulong \<Rightarrow> ulong \<Rightarrow> memregion \<Rightarrow> memregion" where
  "memregion_grow base sz r =
     (let r1 = (if base + sz > mr_base r + mr_size r
                then r\<lparr>mr_size := base + sz - mr_base r\<rparr> else r)
      in if base < mr_base r1
         then r1\<lparr>mr_size := mr_size r1 + (mr_base r1 - base), mr_base := base\<rparr> else r1)"

fun memregion_merge ::
  "ulong \<Rightarrow> ulong \<Rightarrow> memregion_kind \<Rightarrow> memregion list \<Rightarrow> memregion list option" where
  "memregion_merge base sz kind [] = None"
| "memregion_merge base sz kind (r # rs) =
     (if mr_kind r \<noteq> kind \<or> base > mr_base r + mr_size r \<or> mr_base r > base + sz
      then map_option ((#) r) (memregion_merge base sz kind rs)
      else Some (memregion_grow base sz r # rs))"

definition memregion_add ::
  "config \<Rightarrow> ulong \<Rightarrow> ulong \<Rightarrow> memregion_kind \<Rightarrow> memregion list \<Rightarrow> panic + memregion list" where
  "memregion_add cfg base sz kind rs =
     (let image = monitor_base cfg in
      if kind = MEMREGION_SHARED_RW \<and>
         (base + sz < base \<or> (base < image + MONITOR_SIZE cfg \<and> base + sz > image))
      then Inl (Region_Into_Monitor base sz)
      else case memregion_merge base sz kind rs of
             Some rs' \<Rightarrow> Inr rs'
           | None \<Rightarrow>
               if length rs = MAX_MEMREGIONS then Inl Too_Many_Regions
               else Inr (rs @ [\<lparr>mr_base = base, mr_size = sz, mr_kind = kind\<rparr>]))"

definition memregion_get :: "nat \<Rightarrow> memregion list \<Rightarrow> memregion option" where
  "memregion_get i rs = (if i \<ge> length rs then None else Some (rs ! i))"

definition monitor_regions_init ::
  "config \<Rightarrow> features \<Rightarrow> memregion list \<Rightarrow> panic + memregion list" where
  "monitor_regions_init cfg feat rs =
     (let start = monitor_base cfg; split = text_rodata_end cfg in
      if \<not> feat HART_FEAT_SMEPMP then
        memregion_add cfg start (MONITOR_SIZE cfg) MEMREGION_MMODE_RW rs
      else
        case memregion_add cfg start (split - start) MEMREGION_MMODE_RX rs of
          Inl p \<Rightarrow> Inl p
        | Inr rs' \<Rightarrow>
            memregion_add cfg split (start + MONITOR_SIZE cfg - split) MEMREGION_MMODE_RW rs')"

definition monitor_range_clear :: "memregion list \<Rightarrow> ulong \<Rightarrow> ulong \<Rightarrow> bool" where
  "monitor_range_clear rs addr sz =
     (let stop = addr + sz in
      if stop < addr then False
      else \<not> list_ex (\<lambda>r. mr_kind r \<noteq> MEMREGION_SHARED_RW \<and>
                          stop > mr_base r \<and> addr < mr_base r + mr_size r) rs)"

section \<open>What a region covers\<close>

definition range_bytes :: "ulong \<Rightarrow> ulong \<Rightarrow> nat set" where
  "range_bytes base sz = {unat base ..< unat base + unat sz}"

definition mr_bytes :: "memregion \<Rightarrow> nat set" where
  "mr_bytes r = range_bytes (mr_base r) (mr_size r)"

text \<open>A range that ends below the top of the address space.\<close>

definition range_fits :: "ulong \<Rightarrow> ulong \<Rightarrow> bool" where
  "range_fits base sz \<longleftrightarrow> unat base + unat sz < 2 ^ 64"

definition mr_wf :: "memregion \<Rightarrow> bool" where
  "mr_wf r \<longleftrightarrow> range_fits (mr_base r) (mr_size r)"

definition kind_bytes :: "memregion_kind \<Rightarrow> memregion list \<Rightarrow> nat set" where
  "kind_bytes k rs = (\<Union>r \<in> {r \<in> set rs. mr_kind r = k}. mr_bytes r)"

text \<open>The bytes that are the monitor's alone.\<close>

definition monitor_bytes :: "memregion list \<Rightarrow> nat set" where
  "monitor_bytes rs = (\<Union>r \<in> {r \<in> set rs. mr_kind r \<noteq> MEMREGION_SHARED_RW}. mr_bytes r)"

section \<open>Lemmas\<close>

lemma range_end: "range_fits base sz \<Longrightarrow> unat (base + sz) = unat base + unat sz"
  by (simp add: range_fits_def unat_plus_if')

lemma range_wraps: "base + sz < base \<longleftrightarrow> 2 ^ 64 \<le> unat base + unat (sz :: ulong)"
  using unsigned_less [of base, where ?'a = nat] unsigned_less [of sz, where ?'a = nat]
  by (auto simp: word_less_nat_alt unat_plus_if')

lemma memregion_grow_kind [simp]: "mr_kind (memregion_grow base sz r) = mr_kind r"
  by (simp add: memregion_grow_def Let_def)

lemma memregion_grow_bytes:
  assumes "mr_wf r" and "range_fits base sz"
    and "\<not> base > mr_base r + mr_size r" and "\<not> mr_base r > base + sz"
  shows "mr_wf (memregion_grow base sz r) \<and>
         mr_bytes (memregion_grow base sz r) = mr_bytes r \<union> range_bytes base sz"
proof -
  note e = range_end [OF assms(2)] range_end [OF assms(1) [unfolded mr_wf_def]]
  have o: "unat base \<le> unat (mr_base r) + unat (mr_size r)"
    "unat (mr_base r) \<le> unat base + unat sz"
    using assms(3,4) by (auto simp: word_less_nat_alt e)
  have s: "unat (base + sz - mr_base r) = unat base + unat sz - unat (mr_base r)"
    using o(2) e(1) by (simp add: unat_sub word_le_nat_alt)
  have b: "base < mr_base r \<Longrightarrow> unat (mr_base r - base) = unat (mr_base r) - unat base"
    by (simp add: unat_sub word_less_nat_alt word_le_nat_alt)
  have lt: "unat (mr_base r) + unat (mr_size r) < 2 ^ 64" "unat base + unat sz < 2 ^ 64"
    using assms(1,2) by (auto simp: mr_wf_def range_fits_def)
  show ?thesis
  proof (cases "base + sz > mr_base r + mr_size r")
    case grows: True
    then have g: "unat (mr_base r) + unat (mr_size r) < unat base + unat sz"
      by (simp add: word_less_nat_alt e)
    show ?thesis
    proof (cases "base < mr_base r")
      case low: True
      then have l: "unat base < unat (mr_base r)" by (simp add: word_less_nat_alt)
      have "unat (base + sz - mr_base r + (mr_base r - base)) = unat sz"
        by (simp add: algebra_simps)
      with grows low show ?thesis
        using g l o lt
        by (auto simp: memregion_grow_def mr_wf_def mr_bytes_def range_fits_def range_bytes_def)
    next
      case False
      then have l: "unat (mr_base r) \<le> unat base" by (simp add: word_less_nat_alt)
      with grows False show ?thesis
        using g o lt s
        by (auto simp: memregion_grow_def mr_wf_def mr_bytes_def range_fits_def range_bytes_def)
    qed
  next
    case keeps: False
    then have g: "unat base + unat sz \<le> unat (mr_base r) + unat (mr_size r)"
      by (simp add: word_less_nat_alt e)
    show ?thesis
    proof (cases "base < mr_base r")
      case low: True
      then have l: "unat base < unat (mr_base r)" by (simp add: word_less_nat_alt)
      have "unat (mr_size r + (mr_base r - base)) = unat (mr_size r) + (unat (mr_base r) - unat base)"
        using b [OF low] lt l by (simp add: unat_plus_if')
      with keeps low show ?thesis
        using g l o lt
        by (auto simp: memregion_grow_def mr_wf_def mr_bytes_def range_fits_def range_bytes_def)
    next
      case False
      then have l: "unat (mr_base r) \<le> unat base" by (simp add: word_less_nat_alt)
      with keeps False show ?thesis
        using g o lt
        by (auto simp: memregion_grow_def mr_wf_def mr_bytes_def range_fits_def range_bytes_def)
    qed
  qed
qed

lemma kind_bytes_Cons:
  "kind_bytes k (r # rs) = (if mr_kind r = k then mr_bytes r else {}) \<union> kind_bytes k rs"
  by (auto simp: kind_bytes_def)

lemma kind_bytes_append: "kind_bytes k (rs @ rs') = kind_bytes k rs \<union> kind_bytes k rs'"
  by (auto simp: kind_bytes_def)

lemma memregion_merge_Some:
  assumes "memregion_merge base sz kind rs = Some rs'"
    and "\<forall>r\<in>set rs. mr_wf r" and "range_fits base sz"
  shows "(\<forall>r\<in>set rs'. mr_wf r) \<and> length rs' = length rs \<and>
         (\<forall>k. kind_bytes k rs' =
               kind_bytes k rs \<union> (if k = kind then range_bytes base sz else {}))"
  using assms(1,2)
proof (induction rs arbitrary: rs')
  case (Cons r rs)
  show ?case
  proof (cases "mr_kind r \<noteq> kind \<or> base > mr_base r + mr_size r \<or> mr_base r > base + sz")
    case True
    then obtain t where t: "memregion_merge base sz kind rs = Some t" and rs': "rs' = r # t"
      using Cons.prems(1) by (auto split: if_splits)
    with Cons.IH [OF t] Cons.prems(2) show ?thesis
      by (simp add: kind_bytes_Cons Un_assoc)
  next
    case False
    then have rs': "rs' = memregion_grow base sz r # rs" using Cons.prems(1) by simp
    with False memregion_grow_bytes [of r base sz] Cons.prems(2) assms(3) show ?thesis
      by (auto simp: kind_bytes_Cons)
  qed
qed simp

lemma memregion_add_Inr:
  assumes "memregion_add cfg base sz kind rs = Inr rs'"
    and "\<forall>r\<in>set rs. mr_wf r" and "range_fits base sz" and "length rs \<le> MAX_MEMREGIONS"
  shows "(\<forall>r\<in>set rs'. mr_wf r) \<and> length rs' \<le> MAX_MEMREGIONS \<and>
         (\<forall>k. kind_bytes k rs' =
               kind_bytes k rs \<union> (if k = kind then range_bytes base sz else {}))"
proof (cases "memregion_merge base sz kind rs")
  case None
  with assms(1) have "rs' = rs @ [\<lparr>mr_base = base, mr_size = sz, mr_kind = kind\<rparr>]"
    and "length rs \<noteq> MAX_MEMREGIONS"
    by (auto simp: memregion_add_def Let_def split: if_splits)
  with assms(2-4) show ?thesis
    by (auto simp: kind_bytes_append kind_bytes_Cons mr_wf_def mr_bytes_def) (auto simp: kind_bytes_def)
next
  case (Some t)
  with assms(1) have "rs' = t" by (auto simp: memregion_add_def Let_def split: if_splits)
  with memregion_merge_Some [OF Some assms(2,3)] assms(4) show ?thesis by simp
qed

lemma monitor_range_clear_iff:
  assumes "\<forall>r\<in>set rs. mr_wf r" and "sz \<noteq> 0" and "\<And>r. r \<in> set rs \<Longrightarrow> mr_size r \<noteq> 0"
  shows "monitor_range_clear rs addr sz \<longleftrightarrow>
         range_fits addr sz \<and> range_bytes addr sz \<inter> monitor_bytes rs = {}"
proof (cases "range_fits addr sz")
  case True
  have nw: "\<not> addr + sz < addr" using True by (simp add: range_wraps range_fits_def)
  have meet: "(addr + sz > mr_base r \<and> addr < mr_base r + mr_size r) \<longleftrightarrow>
              range_bytes addr sz \<inter> mr_bytes r \<noteq> {}" if "r \<in> set rs" for r
  proof -
    have "range_fits (mr_base r) (mr_size r)" using assms(1) that by (simp add: mr_wf_def)
    then have "(addr + sz > mr_base r \<and> addr < mr_base r + mr_size r) \<longleftrightarrow>
      unat (mr_base r) < unat addr + unat sz \<and> unat addr < unat (mr_base r) + unat (mr_size r)"
      using True by (simp add: word_less_nat_alt range_end)
    moreover have "0 < unat sz" "0 < unat (mr_size r)"
      using assms(2) assms(3) [OF that] by (simp_all add: unat_gt_0)
    ultimately show ?thesis
      by (auto simp: mr_bytes_def range_bytes_def)
  qed
  show ?thesis using True nw meet
    by (auto simp: monitor_range_clear_def Let_def list_ex_iff monitor_bytes_def)
next
  case False
  then show ?thesis by (simp add: monitor_range_clear_def range_wraps range_fits_def)
qed

lemma monitor_range_clear_sound:
  assumes "\<forall>r\<in>set rs. mr_wf r" and "monitor_range_clear rs addr sz"
  shows "range_fits addr sz \<and> range_bytes addr sz \<inter> monitor_bytes rs = {}"
proof -
  have fits: "range_fits addr sz"
    using assms(2) by (auto simp: monitor_range_clear_def Let_def range_wraps range_fits_def split: if_splits)
  have "range_bytes addr sz \<inter> mr_bytes r = {}"
    if "r \<in> set rs" "mr_kind r \<noteq> MEMREGION_SHARED_RW" for r
  proof -
    have "range_fits (mr_base r) (mr_size r)" using assms(1) that by (simp add: mr_wf_def)
    moreover have "\<not> (addr + sz > mr_base r \<and> addr < mr_base r + mr_size r)"
      using assms(2) that by (auto simp: monitor_range_clear_def Let_def list_ex_iff split: if_splits)
    ultimately show ?thesis
      using fits by (auto simp: word_less_nat_alt range_end mr_bytes_def range_bytes_def)
  qed
  with fits show ?thesis by (auto simp: monitor_bytes_def)
qed

section \<open>Properties\<close>



text \<open>C8. The check that a range keeps clear of the monitor, word arithmetic with its
  wrap-around, is exact for the regions of the table: it says yes for the ranges that end below
  the top of the address space and share no byte with a region that is not shared, and for no
  other range.\<close>

theorem monitor_range_clear_exact:
  assumes "\<forall>r\<in>set rs. mr_wf r \<and> mr_size r \<noteq> 0" and "sz \<noteq> 0"
  shows "monitor_range_clear rs addr sz \<longleftrightarrow>
         range_fits addr sz \<and> range_bytes addr sz \<inter> monitor_bytes rs = {}"
  using assms by (intro monitor_range_clear_iff) auto

theorem monitor_range_clear_exact_witness:
  "\<not> monitor_range_clear [\<lparr>mr_base = 0x80000000, mr_size = 0x40000, mr_kind = MEMREGION_MMODE_RW\<rparr>]
       0x8003ffff 2 \<and>
   monitor_range_clear [\<lparr>mr_base = 0x80000000, mr_size = 0x40000, mr_kind = MEMREGION_MMODE_RW\<rparr>]
       0x80040000 2"
  using monitor_range_clear_exact
      [of "[\<lparr>mr_base = 0x80000000, mr_size = 0x40000, mr_kind = MEMREGION_MMODE_RW\<rparr>]" 2 "0x8003ffff"]
    monitor_range_clear_exact
      [of "[\<lparr>mr_base = 0x80000000, mr_size = 0x40000, mr_kind = MEMREGION_MMODE_RW\<rparr>]" 2 "0x80040000"]
  by (auto simp: mr_wf_def range_fits_def range_bytes_def monitor_bytes_def mr_bytes_def)

end
