(* ===== verification/Csr.thy ===== *)
theory Csr
  imports Prelude
begin

text \<open>
  The control and status registers of a hart (\<^verbatim>\<open>arch/riscv/include/arch/csr.h\<close>).
  A CSR file maps register numbers to their contents. What a write leaves behind
  is the hardware's to say (registers are WARL): the parameter \<open>legal c n v\<close> is
  the value register \<open>n\<close> holds after \<open>v\<close> was written to it in state \<open>c\<close>.
  The properties state as hypotheses what they need of it.

  \<^verbatim>\<open>sie\<close> and \<^verbatim>\<open>sip\<close> are views of \<^verbatim>\<open>mie\<close> and \<^verbatim>\<open>mip\<close> through \<^verbatim>\<open>mideleg\<close>, as
  the privileged architecture has them; of \<^verbatim>\<open>sip\<close> only SSIP can be written.
\<close>

type_synonym csrs = "nat \<Rightarrow> ulong"
type_synonym warl = "csrs \<Rightarrow> nat \<Rightarrow> ulong \<Rightarrow> ulong"

section \<open>Register numbers and fields\<close>

abbreviation CSR_SIE :: nat where "CSR_SIE \<equiv> 0x104"
abbreviation CSR_STVEC :: nat where "CSR_STVEC \<equiv> 0x105"
abbreviation CSR_SCOUNTEREN :: nat where "CSR_SCOUNTEREN \<equiv> 0x106"
abbreviation CSR_SENVCFG :: nat where "CSR_SENVCFG \<equiv> 0x10a"
abbreviation CSR_SSTATEEN0 :: nat where "CSR_SSTATEEN0 \<equiv> 0x10c"
abbreviation CSR_SSCRATCH :: nat where "CSR_SSCRATCH \<equiv> 0x140"
abbreviation CSR_SEPC :: nat where "CSR_SEPC \<equiv> 0x141"
abbreviation CSR_SCAUSE :: nat where "CSR_SCAUSE \<equiv> 0x142"
abbreviation CSR_STVAL :: nat where "CSR_STVAL \<equiv> 0x143"
abbreviation CSR_SIP :: nat where "CSR_SIP \<equiv> 0x144"
abbreviation CSR_STIMECMP :: nat where "CSR_STIMECMP \<equiv> 0x14d"
abbreviation CSR_SATP :: nat where "CSR_SATP \<equiv> 0x180"
abbreviation CSR_MSTATUS :: nat where "CSR_MSTATUS \<equiv> 0x300"
abbreviation CSR_MISA :: nat where "CSR_MISA \<equiv> 0x301"
abbreviation CSR_MEDELEG :: nat where "CSR_MEDELEG \<equiv> 0x302"
abbreviation CSR_MIDELEG :: nat where "CSR_MIDELEG \<equiv> 0x303"
abbreviation CSR_MIE :: nat where "CSR_MIE \<equiv> 0x304"
abbreviation CSR_MCOUNTEREN :: nat where "CSR_MCOUNTEREN \<equiv> 0x306"
abbreviation CSR_MENVCFG :: nat where "CSR_MENVCFG \<equiv> 0x30a"
abbreviation CSR_MSTATEEN0 :: nat where "CSR_MSTATEEN0 \<equiv> 0x30c"
abbreviation CSR_MCAUSE :: nat where "CSR_MCAUSE \<equiv> 0x342"
abbreviation CSR_MTVAL :: nat where "CSR_MTVAL \<equiv> 0x343"
abbreviation CSR_MIP :: nat where "CSR_MIP \<equiv> 0x344"
abbreviation CSR_MTINST :: nat where "CSR_MTINST \<equiv> 0x34a"
abbreviation CSR_MTVAL2 :: nat where "CSR_MTVAL2 \<equiv> 0x34b"
abbreviation CSR_PMPCFG0 :: nat where "CSR_PMPCFG0 \<equiv> 0x3a0"
abbreviation CSR_PMPADDR0 :: nat where "CSR_PMPADDR0 \<equiv> 0x3b0"
abbreviation CSR_HSTATUS :: nat where "CSR_HSTATUS \<equiv> 0x600"
abbreviation CSR_HTVAL :: nat where "CSR_HTVAL \<equiv> 0x643"
abbreviation CSR_HTINST :: nat where "CSR_HTINST \<equiv> 0x64a"
abbreviation CSR_MSECCFG :: nat where "CSR_MSECCFG \<equiv> 0x747"
abbreviation CSR_TSELECT :: nat where "CSR_TSELECT \<equiv> 0x7a0"
abbreviation CSR_TDATA1 :: nat where "CSR_TDATA1 \<equiv> 0x7a1"
abbreviation CSR_TDATA2 :: nat where "CSR_TDATA2 \<equiv> 0x7a2"
abbreviation CSR_TDATA3 :: nat where "CSR_TDATA3 \<equiv> 0x7a3"
abbreviation CSR_TINFO :: nat where "CSR_TINFO \<equiv> 0x7a4"

section \<open>Access\<close>

definition csr_read :: "nat \<Rightarrow> csrs \<Rightarrow> ulong" where
  "csr_read n c =
     (if n = CSR_SIE then c CSR_MIE AND c CSR_MIDELEG
      else if n = CSR_SIP then c CSR_MIP AND c CSR_MIDELEG
      else c n)"

definition csr_write :: "warl \<Rightarrow> nat \<Rightarrow> ulong \<Rightarrow> csrs \<Rightarrow> csrs" where
  "csr_write legal n v c =
     (if n = CSR_SIE then
        c(CSR_MIE := legal c CSR_MIE
            ((c CSR_MIE AND NOT (c CSR_MIDELEG)) OR (v AND c CSR_MIDELEG)))
      else if n = CSR_SIP then
        c(CSR_MIP := legal c CSR_MIP
            ((c CSR_MIP AND NOT (c CSR_MIDELEG AND BIT 1)) OR (v AND c CSR_MIDELEG AND BIT 1)))
      else c(n := legal c n v))"

definition csr_set :: "warl \<Rightarrow> nat \<Rightarrow> ulong \<Rightarrow> csrs \<Rightarrow> csrs" where
  "csr_set legal n v c = csr_write legal n (csr_read n c OR v) c"

definition csr_clear :: "warl \<Rightarrow> nat \<Rightarrow> ulong \<Rightarrow> csrs \<Rightarrow> csrs" where
  "csr_clear legal n v c = csr_write legal n (csr_read n c AND NOT v) c"

lemmas csr_defs = csr_read_def csr_write_def csr_set_def csr_clear_def

section \<open>Frame\<close>

text \<open>A write changes the register it names and, through the views, mie or mip.\<close>

lemma csr_write_other [frame]:
  "m \<noteq> n \<Longrightarrow> \<not> (n = CSR_SIE \<and> m = CSR_MIE) \<Longrightarrow> \<not> (n = CSR_SIP \<and> m = CSR_MIP) \<Longrightarrow>
   csr_write legal n v c m = c m"
  by (auto simp: csr_write_def)

lemma csr_write_same:
  "n \<noteq> CSR_SIE \<Longrightarrow> n \<noteq> CSR_SIP \<Longrightarrow> csr_write legal n v c n = legal c n v"
  by (auto simp: csr_write_def)

lemma csr_read_plain:
  "n \<noteq> CSR_SIE \<Longrightarrow> n \<noteq> CSR_SIP \<Longrightarrow> csr_read n c = c n"
  by (auto simp: csr_read_def)

end
