(* ===== verification/Pmp.thy ===== *)
theory Pmp
  imports Csr
begin

text \<open>
  Physical memory protection: the PMP registers as \<^verbatim>\<open>arch/riscv/runtime/pmp.c\<close>
  programs them, and what the hardware makes of them. The first part is the
  code. The second part states the matching rule of the privileged architecture
  and of Smepmp as a specification: the entries in force, as ranges with a
  configuration, and the first one that has a byte of an access decides.
\<close>

abbreviation PMP_R :: ulong where "PMP_R \<equiv> 0x01"
abbreviation PMP_W :: ulong where "PMP_W \<equiv> 0x02"
abbreviation PMP_X :: ulong where "PMP_X \<equiv> 0x04"
abbreviation PMP_A_TOR :: ulong where "PMP_A_TOR \<equiv> 0x08"
abbreviation PMP_A_NA4 :: ulong where "PMP_A_NA4 \<equiv> 0x10"
abbreviation PMP_A_NAPOT :: ulong where "PMP_A_NAPOT \<equiv> 0x18"
abbreviation PMP_L :: ulong where "PMP_L \<equiv> 0x80"
abbreviation MSECCFG_MML :: ulong where "MSECCFG_MML \<equiv> 0x1"
abbreviation MSECCFG_MMWP :: ulong where "MSECCFG_MMWP \<equiv> 0x2"
abbreviation MSECCFG_RLB :: ulong where "MSECCFG_RLB \<equiv> 0x4"
abbreviation PMP_CFG_PER_REG :: nat where "PMP_CFG_PER_REG \<equiv> 8"

section \<open>The code\<close>

definition pmpaddr_write :: "warl \<Rightarrow> nat \<Rightarrow> ulong \<Rightarrow> csrs \<Rightarrow> csrs" where
  "pmpaddr_write legal idx val c =
     (if idx \<le> 15 then csr_write legal (CSR_PMPADDR0 + idx) val c else c)"

definition pmpcfg_update :: "warl \<Rightarrow> nat \<Rightarrow> ulong \<Rightarrow> csrs \<Rightarrow> csrs" where
  "pmpcfg_update legal idx cfg c =
     (let shift = 8 * (idx mod PMP_CFG_PER_REG);
          m = push_bit shift 0xff;
          val = push_bit shift cfg;
          n = idx div PMP_CFG_PER_REG * (PMP_CFG_PER_REG div 4)
      in if n \<le> 3
         then csr_set legal (CSR_PMPCFG0 + n) val (csr_clear legal (CSR_PMPCFG0 + n) m c)
         else c)"

definition pmp_entry_cfg :: "warl \<Rightarrow> nat \<Rightarrow> ulong \<Rightarrow> csrs \<Rightarrow> csrs" where
  "pmp_entry_cfg legal idx cfg c = (if idx < 16 then pmpcfg_update legal idx cfg c else c)"

definition pmp_entry_set :: "warl \<Rightarrow> nat \<Rightarrow> ulong \<Rightarrow> ulong \<Rightarrow> csrs \<Rightarrow> csrs" where
  "pmp_entry_set legal idx pmpaddr cfg c =
     (if idx \<ge> 16 then c
      else pmpcfg_update legal idx cfg
             (pmpaddr_write legal idx pmpaddr (pmpcfg_update legal idx 0 c)))"

function pmp_grain_loop :: "ulong \<Rightarrow> ulong \<Rightarrow> ulong" where
  "pmp_grain_loop ones grain =
     (if ones \<noteq> 0 \<and> ones AND 1 = 0 then pmp_grain_loop (drop_bit 1 ones) (push_bit 1 grain)
      else grain)"
  by pat_completeness auto
termination
proof (relation "measure (\<lambda>(ones, grain). unat ones)")
  fix ones grain :: ulong
  assume "ones \<noteq> 0 \<and> ones AND 1 = 0"
  then have "0 < unat ones" by (simp add: unat_gt_0)
  then show "((drop_bit 1 ones, push_bit 1 grain), ones, grain) \<in> measure (\<lambda>(ones, grain). unat ones)"
    by (simp add: unat_drop_bit_eq drop_bit_eq_div unat_div)
qed simp

declare pmp_grain_loop.simps [simp del]

definition pmp_grain_set :: "ulong \<Rightarrow> ulong" where
  "pmp_grain_set pmpaddr_ones = pmp_grain_loop pmpaddr_ones 4"

text \<open>The result and the number of entries used.\<close>

definition pmp_range_set ::
  "warl \<Rightarrow> ulong \<Rightarrow> nat \<Rightarrow> ulong \<Rightarrow> ulong \<Rightarrow> ulong \<Rightarrow> csrs \<Rightarrow> csrs \<times> nat" where
  "pmp_range_set legal grain idx base sz perm c =
     (if sz \<ge> 8 \<and> IS_POWER_OF_TWO sz \<and> IS_ALIGNED base sz then
        (pmp_entry_set legal idx (drop_bit 2 base OR (drop_bit 3 sz - 1)) (PMP_A_NAPOT OR perm) c, 1)
      else
        (pmp_entry_set legal (idx + 1) (drop_bit 2 (ROUNDUP2 (base + sz) grain)) (PMP_A_TOR OR perm)
           (pmp_entry_set legal idx (drop_bit 2 base) 0 c), 2))"

definition pmp_all_set :: "warl \<Rightarrow> nat \<Rightarrow> ulong \<Rightarrow> csrs \<Rightarrow> csrs" where
  "pmp_all_set legal idx perm c = pmp_entry_set legal idx (- 1) (PMP_A_NAPOT OR perm) c"

section \<open>The hardware's reading of the registers\<close>

definition cfg_lane :: "ulong \<Rightarrow> nat \<Rightarrow> ulong" where
  "cfg_lane v k = take_bit 8 (drop_bit (8 * k) v)"

definition pmp_cfg :: "csrs \<Rightarrow> nat \<Rightarrow> ulong" where
  "pmp_cfg c i = cfg_lane (c (CSR_PMPCFG0 + i div 8 * 2)) (i mod 8)"

definition pmp_addr :: "csrs \<Rightarrow> nat \<Rightarrow> ulong" where
  "pmp_addr c i = c (CSR_PMPADDR0 + i)"

definition mml :: "csrs \<Rightarrow> bool" where
  "mml c = bit (c CSR_MSECCFG) 0"

definition rlb :: "csrs \<Rightarrow> bool" where
  "rlb c = bit (c CSR_MSECCFG) 2"

function trailing_ones :: "nat \<Rightarrow> nat" where
  "trailing_ones a = (if odd a then Suc (trailing_ones (a div 2)) else 0)"
  by pat_completeness auto
termination
  by (relation "measure id") (auto elim: oddE)

declare trailing_ones.simps [simp del]

definition napot_range :: "nat \<Rightarrow> nat \<times> nat" where
  "napot_range a =
     (let t = trailing_ones a; lo = a div 2 ^ (t + 1) * 2 ^ (t + 3) in (lo, lo + 2 ^ (t + 3) - 1))"

definition entry_range :: "csrs \<Rightarrow> nat \<Rightarrow> (nat \<times> nat) option" where
  "entry_range c i =
     (let a = pmp_cfg c i AND 0x18 in
      if a = PMP_A_TOR then
        let lo = (if i = 0 then 0 else 4 * unat (pmp_addr c (i - 1))); hi = 4 * unat (pmp_addr c i)
        in if lo < hi then Some (lo, hi - 1) else None
      else if a = PMP_A_NA4 then Some (4 * unat (pmp_addr c i), 4 * unat (pmp_addr c i) + 3)
      else if a = PMP_A_NAPOT then Some (napot_range (unat (pmp_addr c i)))
      else None)"

text \<open>A rule in force: first byte, last byte, configuration.\<close>

type_synonym rule = "nat \<times> nat \<times> ulong"

definition entry_rule :: "csrs \<Rightarrow> nat \<Rightarrow> rule option" where
  "entry_rule c i = map_option (\<lambda>(lo, hi). (lo, hi, pmp_cfg c i)) (entry_range c i)"

primrec rules :: "csrs \<Rightarrow> nat list \<Rightarrow> rule list" where
  "rules c [] = []"
| "rules c (i # is) = (case entry_rule c i of None \<Rightarrow> rules c is | Some r \<Rightarrow> r # rules c is)"

text \<open>
  The first rule that has any byte of the access decides, and it has to have
  all of it; an S/U-mode access no rule matches fails.
\<close>

fun rules_decide :: "rule list \<Rightarrow> nat \<Rightarrow> nat \<Rightarrow> (ulong \<Rightarrow> bool) \<Rightarrow> bool" where
  "rules_decide [] a b p = False"
| "rules_decide ((lo, hi, cfg) # rs) a b p =
     (if b < lo \<or> hi < a then rules_decide rs a b p else lo \<le> a \<and> b \<le> hi \<and> p cfg)"

datatype access = Acc_Read | Acc_Write | Acc_Exec

text \<open>
  S/U-mode permissions of a configuration. Without MML they are the R, W and X
  bits. With MML, W without R makes a shared region: data that is readable, and
  writable when X is set, or code when it is locked. Other locked rules are
  M-mode's alone, except the one with R, W and X, which is read-only for everyone.
\<close>

definition su_allows :: "bool \<Rightarrow> access \<Rightarrow> ulong \<Rightarrow> bool" where
  "su_allows mml_on acc cfg =
     (let r = bit cfg 0; w = bit cfg 1; x = bit cfg 2; l = bit cfg 7 in
      if mml_on \<and> w \<and> \<not> r then
        (if l then acc = Acc_Exec
         else (case acc of Acc_Read \<Rightarrow> True | Acc_Write \<Rightarrow> x | Acc_Exec \<Rightarrow> False))
      else if mml_on \<and> l then r \<and> w \<and> x \<and> acc = Acc_Read
      else (case acc of Acc_Read \<Rightarrow> r | Acc_Write \<Rightarrow> w | Acc_Exec \<Rightarrow> x))"

definition pmp_su_ok :: "csrs \<Rightarrow> access \<Rightarrow> nat \<Rightarrow> nat \<Rightarrow> bool" where
  "pmp_su_ok c acc a b = rules_decide (rules c [0..<16]) a b (su_allows (mml c) acc)"

text \<open>
  What a write to a PMP register does, in a state where every entry can be
  written: no rule is locked, or the rule locking bypass is on. An address keeps
  54 bits (physical address bits 55 to 2), a configuration is taken as it is
  unless it is a reserved one (W without R, which has a meaning with MML only).
\<close>

definition cfg_fits :: "csrs \<Rightarrow> ulong \<Rightarrow> bool" where
  "cfg_fits c cfg \<longleftrightarrow> take_bit 8 cfg = cfg \<and> (bit cfg 7 \<longrightarrow> rlb c) \<and> (bit cfg 1 \<longrightarrow> bit cfg 0 \<or> mml c)"

definition pmp_writable :: "csrs \<Rightarrow> bool" where
  "pmp_writable c \<longleftrightarrow> (\<forall>i<16. cfg_fits c (pmp_cfg c i))"

definition pmp_hw :: "warl \<Rightarrow> bool" where
  "pmp_hw legal \<longleftrightarrow>
     (\<forall>c. pmp_writable c \<longrightarrow>
        (\<forall>i<16. \<forall>v. legal c (CSR_PMPADDR0 + i) v = take_bit 54 v) \<and>
        (\<forall>n\<in>{0, 2}. \<forall>v. (\<forall>k<8. cfg_fits c (cfg_lane v k)) \<longrightarrow> legal c (CSR_PMPCFG0 + n) v = v))"

section \<open>Lanes of a pmpcfg register\<close>

lemma bit_cfg_lane: "bit (cfg_lane v k) n \<longleftrightarrow> n < 8 \<and> bit v (8 * k + n)"
  by (simp add: cfg_lane_def bit_take_bit_iff bit_drop_bit_eq)

lemma take_bit_cfg_lane [simp]: "take_bit 8 (cfg_lane v k) = cfg_lane v k"
  by (simp add: cfg_lane_def)

lemma bit_byte: "take_bit 8 cfg = (cfg :: ulong) \<Longrightarrow> bit cfg n \<Longrightarrow> n < 8"
  by (metis bit_take_bit_iff)

lemma same_lane: "n < 8 \<Longrightarrow> 8 * k \<le> 8 * j + n \<Longrightarrow> 8 * j + n < 8 * k + 8 \<Longrightarrow> j = (k::nat)"
  by linarith

lemma cfg_lane_clear:
  assumes "k < 8" "j < 8"
  shows "cfg_lane (v AND NOT (push_bit (8 * k) 0xff)) j = (if j = k then 0 else cfg_lane v j)"
proof (rule bit_eqI)
  fix n assume "possible_bit TYPE(64 word) n"
  have ff: "0xff = (mask 8 :: ulong)" by (simp add: mask_eq_exp_minus_1)
  show "bit (cfg_lane (v AND NOT (push_bit (8 * k) 0xff)) j) n =
        bit (if j = k then 0 else cfg_lane v j) n"
  proof (cases "n < 8")
    case True
    then have "8 * j + n < 64" using assms(2) by linarith
    moreover have "8 * k \<le> 8 * j + n \<and> 8 * j + n - 8 * k < 8 \<longleftrightarrow> j = k"
      using same_lane [OF True, of k j] True by auto
    ultimately show ?thesis
      unfolding ff by (auto simp: bit_cfg_lane bit_and_iff bit_not_iff bit_push_bit_iff bit_mask_iff)
  qed (simp add: bit_cfg_lane)
qed

lemma cfg_lane_put:
  assumes "k < 8" "j < 8" "take_bit 8 cfg = cfg" "cfg_lane v k = 0"
  shows "cfg_lane (v OR push_bit (8 * k) cfg) j = (if j = k then cfg else cfg_lane v j)"
proof (rule bit_eqI)
  fix n assume "possible_bit TYPE(64 word) n"
  show "bit (cfg_lane (v OR push_bit (8 * k) cfg) j) n = bit (if j = k then cfg else cfg_lane v j) n"
  proof (cases "n < 8")
    case True
    then have "8 * j + n < 64" using assms(2) by linarith
    moreover have "8 * k \<le> 8 * j + n \<and> 8 * j + n - 8 * k < 8 \<longleftrightarrow> j = k"
      using same_lane [OF True, of k j] True by auto
    moreover have "bit cfg m \<Longrightarrow> m < 8" for m using assms(3) by (rule bit_byte)
    moreover have "\<not> bit v (8 * k + n)" using assms(4) True bit_cfg_lane [of v k n] by simp
    ultimately show ?thesis
      by (auto simp: bit_cfg_lane bit_or_iff bit_push_bit_iff)
  qed (use bit_byte [OF assms(3), of n] in \<open>auto simp: bit_cfg_lane\<close>)
qed

lemma pmp_index:
  fixes i j :: nat
  shows "i \<noteq> j \<Longrightarrow> i div 8 = j div 8 \<Longrightarrow> i mod 8 \<noteq> j mod 8"
  by (metis div_mult_mod_eq)

lemma pmp_cfg_upd:
  assumes "j < 16" "i < 16"
  shows "pmp_cfg (c(CSR_PMPCFG0 + i div 8 * 2 := v)) j =
           (if j div 8 = i div 8 then cfg_lane v (j mod 8) else pmp_cfg c j)"
  using assms by (auto simp: pmp_cfg_def)

lemma pmp_read_upd [simp]:
  "j < 16 \<Longrightarrow> i < 16 \<Longrightarrow> pmp_addr (c(CSR_PMPCFG0 + i div 8 * 2 := v)) j = pmp_addr c j"
  "i < 16 \<Longrightarrow> mml (c(CSR_PMPCFG0 + i div 8 * 2 := v)) = mml c"
  "i < 16 \<Longrightarrow> rlb (c(CSR_PMPCFG0 + i div 8 * 2 := v)) = rlb c"
  by (auto simp: pmp_addr_def mml_def rlb_def)

lemma cfg_fits_cong: "mml c = mml d \<Longrightarrow> rlb c = rlb d \<Longrightarrow> cfg_fits c = cfg_fits d"
  by (auto simp: cfg_fits_def fun_eq_iff)

lemma cfg_fits_0 [simp]: "cfg_fits c 0"
  by (simp add: cfg_fits_def)

lemma cfg_lane_reg: "k < 8 \<Longrightarrow> i < 16 \<Longrightarrow> cfg_lane (c (CSR_PMPCFG0 + i div 8 * 2)) k = pmp_cfg c (8 * (i div 8) + k)"
  by (simp add: pmp_cfg_def)

lemma csr_plain_pmp: "i < 16 \<Longrightarrow> csr_write legal (CSR_PMPCFG0 + i div 8 * 2) v c = 
    c(CSR_PMPCFG0 + i div 8 * 2 := legal c (CSR_PMPCFG0 + i div 8 * 2) v)"
  "i < 16 \<Longrightarrow> csr_read (CSR_PMPCFG0 + i div 8 * 2) c = c (CSR_PMPCFG0 + i div 8 * 2)"
  "i < 16 \<Longrightarrow> csr_write legal (CSR_PMPADDR0 + i) v c = c(CSR_PMPADDR0 + i := legal c (CSR_PMPADDR0 + i) v)"
  by (auto simp: csr_defs)

section \<open>What setting an entry does\<close>

text \<open>
  The register file \<open>d\<close> differs from \<open>c\<close> in the PMP entry \<open>i\<close> alone, which is now
  the given address and configuration.
\<close>

definition entry_put :: "nat \<Rightarrow> ulong \<Rightarrow> ulong \<Rightarrow> csrs \<Rightarrow> csrs \<Rightarrow> bool" where
  "entry_put i a cfg c d \<longleftrightarrow>
     (\<forall>j<16. pmp_cfg d j = (if j = i then cfg else pmp_cfg c j)) \<and>
     (\<forall>j<16. pmp_addr d j = (if j = i then a else pmp_addr c j)) \<and>
     (\<forall>n. n \<notin> {CSR_PMPCFG0..<CSR_PMPADDR0 + 16} \<longrightarrow> d n = c n)"

lemma entry_put_msec:
  assumes "entry_put i a cfg c d"
  shows "mml d = mml c" "rlb d = rlb c"
proof -
  have "CSR_MSECCFG \<notin> {CSR_PMPCFG0..<CSR_PMPADDR0 + 16}" by simp
  then have "d CSR_MSECCFG = c CSR_MSECCFG" using assms unfolding entry_put_def by blast
  then show "mml d = mml c" "rlb d = rlb c" by (simp_all add: mml_def rlb_def)
qed

lemma entry_put_writable:
  assumes "entry_put i a cfg c d" "pmp_writable c" "cfg_fits c cfg"
  shows "pmp_writable d"
  using assms cfg_fits_cong [OF entry_put_msec [OF assms(1)]]
  by (auto simp: pmp_writable_def entry_put_def)

lemma pmp_reg_write:
  assumes "pmp_hw legal" "pmp_writable c" "i < 16" "\<And>k. k < 8 \<Longrightarrow> cfg_fits c (cfg_lane v k)"
  shows "legal c (CSR_PMPCFG0 + i div 8 * 2) v = v"
proof -
  have "i div 8 * 2 \<in> {0, 2}" using assms(3) by auto
  then show ?thesis using assms unfolding pmp_hw_def by blast
qed

lemma writable_lane:
  "pmp_writable c \<Longrightarrow> i < 16 \<Longrightarrow> k < 8 \<Longrightarrow> cfg_fits c (cfg_lane (c (CSR_PMPCFG0 + i div 8 * 2)) k)"
proof -
  assume "pmp_writable c" "i < 16" "k < 8"
  moreover from this have "i div 8 \<le> 1" by auto
  moreover from this \<open>k < 8\<close> have "8 * (i div 8) + k < 16" by linarith
  ultimately show ?thesis by (simp add: cfg_lane_reg pmp_writable_def)
qed

lemma pmpcfg_update_put:
  assumes hw: "pmp_hw legal" and wr: "pmp_writable c" and i: "i < 16" and fit: "cfg_fits c cfg"
  shows "entry_put i (pmp_addr c i) cfg c (pmpcfg_update legal i cfg c)"
proof -
  define n where "n = CSR_PMPCFG0 + i div 8 * 2"
  define v1 where "v1 = c n AND NOT (push_bit (8 * (i mod 8)) 0xff)"
  define v2 where "v2 = v1 OR push_bit (8 * (i mod 8)) cfg"
  have l1: "cfg_lane v1 k = (if k = i mod 8 then 0 else cfg_lane (c n) k)" if "k < 8" for k
    unfolding v1_def by (rule cfg_lane_clear) (simp_all add: that)
  have l2: "cfg_lane v2 k = (if k = i mod 8 then cfg else cfg_lane (c n) k)" if "k < 8" for k
    unfolding v2_def using cfg_lane_put [of "i mod 8" k cfg v1] that fit l1 by (simp add: cfg_fits_def)
  have lane: "cfg_fits c (cfg_lane (c n) k)" if "k < 8" for k
    unfolding n_def using wr i that by (rule writable_lane)
  have s1: "legal c n v1 = v1"
    unfolding n_def using hw wr i by (rule pmp_reg_write) (simp add: l1 lane)
  have put1: "entry_put i (pmp_addr c i) 0 c (c(n := v1))"
    using i l1 pmp_index [of _ i] unfolding n_def
    by (auto simp: entry_put_def pmp_cfg_upd) (auto simp: pmp_cfg_def)
  have wr1: "pmp_writable (c(n := v1))"
    using entry_put_writable [OF put1 wr] by simp
  have fits: "cfg_fits (c(n := v1)) = cfg_fits c"
    by (rule cfg_fits_cong) (use entry_put_msec [OF put1] in simp_all)
  have s2: "legal (c(n := v1)) n v2 = v2"
    unfolding n_def by (rule pmp_reg_write [OF hw]) (use wr1 i lane fit in \<open>simp_all add: n_def [symmetric] fits l2\<close>)
  have "i div 8 * 2 \<le> 3" using i by linarith
  then have "pmpcfg_update legal i cfg c = c(n := v2)"
    using i s1 s2 by (simp add: pmpcfg_update_def csr_set_def csr_clear_def csr_plain_pmp Let_def
        n_def v1_def v2_def)
  then show ?thesis
    using i l2 pmp_index [of _ i] unfolding n_def
    by (auto simp: entry_put_def pmp_cfg_upd) (auto simp: pmp_cfg_def)
qed

lemma pmpaddr_write_put:
  assumes "pmp_hw legal" "pmp_writable c" "i < 16"
  shows "entry_put i (take_bit 54 a) (pmp_cfg c i) c (pmpaddr_write legal i a c)"
proof -
  have "legal c (CSR_PMPADDR0 + i) a = take_bit 54 a"
    using assms unfolding pmp_hw_def by blast
  then have "pmpaddr_write legal i a c = c(CSR_PMPADDR0 + i := take_bit 54 a)"
    using assms(3) by (simp add: pmpaddr_write_def csr_plain_pmp)
  then show ?thesis
    using assms(3) by (auto simp: entry_put_def pmp_cfg_def pmp_addr_def)
qed

lemma entry_put_trans:
  "entry_put i a cfg c d \<Longrightarrow> entry_put i a' cfg' d e \<Longrightarrow> entry_put i a' cfg' c e"
  by (simp add: entry_put_def)

lemma pmp_entry_set_put:
  assumes hw: "pmp_hw legal" and wr: "pmp_writable c" and i: "i < 16" and fit: "cfg_fits c cfg"
  shows "entry_put i (take_bit 54 a) cfg c (pmp_entry_set legal i a cfg c)"
proof -
  let ?c1 = "pmpcfg_update legal i 0 c" and ?c2 = "pmpaddr_write legal i a (pmpcfg_update legal i 0 c)"
  have p1: "entry_put i (pmp_addr c i) 0 c ?c1"
    using hw wr i cfg_fits_0 by (rule pmpcfg_update_put)
  have w1: "pmp_writable ?c1" using p1 wr cfg_fits_0 by (rule entry_put_writable)
  have p2: "entry_put i (take_bit 54 a) (pmp_cfg ?c1 i) ?c1 ?c2"
    using hw w1 i by (rule pmpaddr_write_put)
  have p02: "entry_put i (take_bit 54 a) 0 c ?c2"
    using entry_put_trans [OF p1 p2] p1 i by (simp add: entry_put_def)
  have w2: "pmp_writable ?c2" using p02 wr cfg_fits_0 by (rule entry_put_writable)
  have f2: "cfg_fits ?c2 cfg"
    using fit cfg_fits_cong [OF entry_put_msec [OF p02]] by simp
  have "pmp_addr ?c2 i = take_bit 54 a" using p02 i by (simp add: entry_put_def)
  then have "entry_put i (take_bit 54 a) cfg ?c2 (pmpcfg_update legal i cfg ?c2)"
    using pmpcfg_update_put [OF hw w2 i f2] by simp
  from entry_put_trans [OF p02 this] show ?thesis
    using i by (simp add: pmp_entry_set_def)
qed

section \<open>The rules in force\<close>

lemma rules_append: "rules c (is @ js) = rules c is @ rules c js"
  by (induction "is") (auto split: option.splits)

lemma rules_cong:
  "(\<And>i. i \<in> set is \<Longrightarrow> entry_rule c i = entry_rule d i) \<Longrightarrow> rules c is = rules d is"
  by (induction "is") (auto split: option.splits)

lemma rules_off:
  "(\<And>i. i \<in> set is \<Longrightarrow> entry_rule c i = None) \<Longrightarrow> rules c is = []"
  by (induction "is") auto

text \<open>A rule looks at its own entry and at the address below it, so setting an entry keeps the lower ones.\<close>

lemma entry_put_rule:
  assumes "entry_put i a cfg c d" "j < i" "i < 16"
  shows "entry_rule d j = entry_rule c j"
proof -
  have "pmp_cfg d j = pmp_cfg c j" "pmp_addr d j = pmp_addr c j" "pmp_addr d (j - 1) = pmp_addr c (j - 1)"
    using assms by (auto simp: entry_put_def)
  then show ?thesis unfolding entry_rule_def entry_range_def by (simp only: Let_def)
qed

lemma entry_put_rules: "entry_put i a cfg c d \<Longrightarrow> i < 16 \<Longrightarrow> n \<le> i \<Longrightarrow> rules d [0..<n] = rules c [0..<n]"
  by (rule rules_cong) (auto intro: entry_put_rule)

lemma rules_decide_append_hit:
  "(lo, hi, cfg) \<in> set rs \<Longrightarrow> lo \<le> b \<Longrightarrow> a \<le> hi \<Longrightarrow>
   rules_decide (rs @ rs') a b p = rules_decide rs a b p"
  by (induction rs a b p rule: rules_decide.induct) auto

lemma rules_decide_append_miss:
  "(\<And>lo hi cfg. (lo, hi, cfg) \<in> set rs \<Longrightarrow> b < lo \<or> hi < a) \<Longrightarrow>
   rules_decide (rs @ rs') a b p = rules_decide rs' a b p"
proof (induction rs)
  case (Cons r rs)
  obtain lo hi cfg where "r = (lo, hi, cfg)" by (cases r)
  then show ?case using Cons.prems [of lo hi cfg] Cons.IH Cons.prems by fastforce
qed simp

section \<open>Ranges\<close>

lemma trailing_ones_form: "trailing_ones (m * 2 ^ Suc t + (2 ^ t - 1)) = t"
proof (induction t arbitrary: m)
  case 0
  then show ?case by (subst trailing_ones.simps) simp
next
  case (Suc t)
  have e: "m * 2 ^ Suc (Suc t) + (2 ^ Suc t - 1) = Suc (2 * (m * 2 ^ Suc t + (2 ^ t - 1)))"
  proof -
    obtain u where "(2::nat) ^ t = Suc u" by (metis not0_implies_Suc power_not_zero zero_neq_numeral)
    then show ?thesis by (simp add: algebra_simps)
  qed
  have "trailing_ones (Suc (2 * x)) = Suc (trailing_ones x)" for x
    by (subst trailing_ones.simps) simp
  then show ?case unfolding e by (simp only: Suc)
qed

lemma napot_range_form:
  assumes "3 \<le> k" "2 ^ k dvd b"
  shows "napot_range (b div 4 + (2 ^ (k - 3) - 1)) = (b, b + 2 ^ k - 1)"
proof -
  obtain q t where q: "b = q * 2 ^ k" and k: "k = t + 3"
    using assms by (metis dvd_def le_add_diff_inverse2 mult.commute)
  have b4: "b div 4 = q * 2 ^ Suc t" by (simp add: q k power_add)
  have ones: "trailing_ones (b div 4 + (2 ^ (k - 3) - 1)) = t"
    unfolding b4 k using trailing_ones_form [of q t] by simp
  have "2 ^ t - 1 < (2::nat) ^ Suc t" 
    by (simp add: less_imp_diff_less)
  moreover have "r < d \<Longrightarrow> (q * d + r) div d = q" for d r :: nat by simp
  ultimately have "(b div 4 + (2 ^ (k - 3) - 1)) div 2 ^ Suc t = q"
    unfolding b4 k by (metis add_diff_cancel_right')
  then show ?thesis
    unfolding napot_range_def ones Let_def by (simp only: Suc_eq_plus1 [symmetric]) (simp add: q k)
qed

lemma napot_addr:
  assumes k: "3 \<le> k" "k < 64" and al: "take_bit k base = (0::ulong)" and sz: "sz = (2::ulong) ^ k"
  shows "unat (drop_bit 2 base OR (drop_bit 3 sz - 1)) = unat base div 4 + (2 ^ (k - 3) - 1)"
proof -
  have "drop_bit 3 sz = (2::ulong) ^ (k - 3)"
    using k by (intro bit_eqI) (auto simp: sz bit_drop_bit_eq bit_exp_iff)
  then have m: "drop_bit 3 sz - 1 = (mask (k - 3) :: ulong)"
    by (simp add: mask_eq_exp_minus_1)
  have dis: "\<not> bit (drop_bit 2 base) n \<or> \<not> bit (mask (k - 3) :: ulong) n" for n
    using arg_cong [OF al, of "\<lambda>w. bit w (n + 2)"] k
    by (auto simp: bit_drop_bit_eq bit_mask_iff bit_take_bit_iff add.commute)
  have "unat (drop_bit 2 base) + unat (mask (k - 3) :: ulong) < 2 ^ 64"
  proof -
    have "unat (mask (k - 3) :: ulong) < 2 ^ (k - 3)" using mask_unat [of "k - 3"] k by simp
    moreover have "(2::nat) ^ (k - 3) \<le> 2 ^ 61" using k by (intro power_increasing) auto
    moreover have "unat (drop_bit 2 base) < 2 ^ 62"
      using unsigned_less [of base, where ?'a = nat] by (simp add: unat_drop)
    ultimately show ?thesis by simp
  qed
  then have "unat (drop_bit 2 base + mask (k - 3)) = unat (drop_bit 2 base) + unat (mask (k - 3) :: ulong)"
    by (subst unat_add_lem [symmetric]) simp
  then show ?thesis
    using k unfolding m disjunctive_add [OF dis, symmetric] 
    by (simp add: mask_unat unat_drop)
qed

lemma low_bits_dvd: "2 ^ k dvd unat (w :: ulong) \<Longrightarrow> take_bit k w = 0"
proof -
  assume "2 ^ k dvd unat w"
  then have "unat (take_bit k w) = 0" by (simp only: unsigned_take_bit_eq) (simp add: take_bit_eq_mod)
  then show ?thesis by (simp only: unat_eq_0)
qed

lemma napot_cond:
  assumes "8 \<le> sz" "IS_POWER_OF_TWO sz" "IS_ALIGNED base (sz :: ulong)"
  obtains k where "3 \<le> k" "k < 64" "sz = 2 ^ k" "unat sz = 2 ^ k" "2 ^ k dvd unat base" "take_bit k base = 0"
proof -
  obtain k where k: "k < 64" "unat sz = 2 ^ k" using IS_POWER_OF_TWO_imp [OF assms(2)] by auto
  have d: "2 ^ k dvd unat base" using IS_ALIGNED_dvd [OF k(2,1)] assms(3) by simp
  have "(2::nat) ^ 3 \<le> 2 ^ k" using assms(1) k(2) by (simp add: word_le_nat_alt)
  then have "3 \<le> k" by (rule power_le_imp_le_exp [rotated]) simp
  moreover have "sz = 2 ^ k" using k unat_two_power [of k] by (metis word_unat_eq_iff)
  ultimately show ?thesis using that k d low_bits_dvd [OF d] by blast
qed

definition napot_ok :: "ulong \<Rightarrow> ulong \<Rightarrow> bool" where
  "napot_ok base sz \<longleftrightarrow> sz \<ge> 8 \<and> IS_POWER_OF_TWO sz \<and> IS_ALIGNED base sz"

definition range_entries :: "ulong \<Rightarrow> ulong \<Rightarrow> nat" where
  "range_entries base sz = (if napot_ok base sz then 1 else 2)"

text \<open>The entries from \<open>at\<close> on hold the range the way \<^const>\<open>pmp_range_set\<close> writes it.\<close>

definition programmed :: "csrs \<Rightarrow> nat \<Rightarrow> ulong \<Rightarrow> ulong \<Rightarrow> ulong \<Rightarrow> bool" where
  "programmed c at base sz perm \<longleftrightarrow>
     (if napot_ok base sz then
        pmp_cfg c at = PMP_A_NAPOT OR perm \<and>
        pmp_addr c at = take_bit 54 (drop_bit 2 base OR (drop_bit 3 sz - 1))
      else
        pmp_cfg c at = 0 \<and> pmp_addr c at = take_bit 54 (drop_bit 2 base) \<and>
        pmp_cfg c (at + 1) = PMP_A_TOR OR perm \<and>
        pmp_addr c (at + 1) = take_bit 54 (drop_bit 2 (ROUNDUP2 (base + sz) 4)))"

definition same_entry :: "csrs \<Rightarrow> csrs \<Rightarrow> nat \<Rightarrow> bool" where
  "same_entry c d j \<longleftrightarrow> pmp_cfg d j = pmp_cfg c j \<and> pmp_addr d j = pmp_addr c j"

text \<open>\<open>d\<close> is \<open>c\<close> with the PMP entries of \<open>I\<close> rewritten.\<close>

definition pmp_touch :: "nat set \<Rightarrow> csrs \<Rightarrow> csrs \<Rightarrow> bool" where
  "pmp_touch I c d \<longleftrightarrow>
     (\<forall>j<16. j \<notin> I \<longrightarrow> same_entry c d j) \<and> mml d = mml c \<and> rlb d = rlb c \<and>
     (\<forall>n. n \<notin> {CSR_PMPCFG0..<CSR_PMPADDR0 + 16} \<longrightarrow> d n = c n) \<and>
     (pmp_writable c \<longrightarrow> pmp_writable d)"

lemma pmp_touch_refl: "pmp_touch {} c c"
  by (simp add: pmp_touch_def same_entry_def)

lemma pmp_touch_trans: "pmp_touch I c d \<Longrightarrow> pmp_touch J d e \<Longrightarrow> pmp_touch (I \<union> J) c e"
  by (simp add: pmp_touch_def same_entry_def)

lemma pmp_touch_mono: "pmp_touch I c d \<Longrightarrow> I \<subseteq> J \<Longrightarrow> pmp_touch J c d"
  by (auto simp: pmp_touch_def)

lemma pmp_touch_writable: "pmp_touch I c d \<Longrightarrow> pmp_writable c \<Longrightarrow> pmp_writable d"
  by (simp add: pmp_touch_def)

lemma pmp_touch_same: "pmp_touch I c d \<Longrightarrow> j < 16 \<Longrightarrow> j \<notin> I \<Longrightarrow> same_entry c d j"
  by (simp add: pmp_touch_def)

lemma pmp_touch_fits: "pmp_touch I c d \<Longrightarrow> cfg_fits d = cfg_fits c"
  by (rule cfg_fits_cong) (simp_all add: pmp_touch_def)

lemma entry_put_touch: "entry_put i a cfg c d \<Longrightarrow> cfg_fits c cfg \<Longrightarrow> pmp_touch {i} c d"
  using entry_put_msec [of i a cfg c d] entry_put_writable [of i a cfg c d]
  by (auto simp: pmp_touch_def entry_put_def same_entry_def)

lemma programmed_cong:
  assumes "programmed c at base sz perm"
    and "\<And>j. at \<le> j \<Longrightarrow> j < at + range_entries base sz \<Longrightarrow> same_entry c d j"
  shows "programmed d at base sz perm"
  using assms(1) assms(2) [of at] assms(2) [of "at + 1"]
  by (auto simp: programmed_def same_entry_def range_entries_def split: if_splits)

lemma bit_A [simp]:
  "n \<in> {0, 1, 2, 7} \<Longrightarrow> bit (PMP_A_NAPOT OR perm :: ulong) n = bit perm n"
  "n \<in> {0, 1, 2, 7} \<Longrightarrow> bit (PMP_A_TOR OR perm :: ulong) n = bit perm n"
  by (auto simp: bit_or_iff)

lemma cfg_fits_A [simp]:
  "cfg_fits c perm \<Longrightarrow> cfg_fits c (PMP_A_NAPOT OR perm)"
  "cfg_fits c perm \<Longrightarrow> cfg_fits c (PMP_A_TOR OR perm)"
  using bit_A [of 1 perm] bit_A [of 7 perm] bit_A [of 0 perm]
  by (auto simp: cfg_fits_def take_bit_or)

lemma pmp_range_set_programmed:
  assumes hw: "pmp_hw legal" and wr: "pmp_writable c" and fit: "cfg_fits c perm"
    and at: "at + range_entries base sz \<le> 16"
  shows "programmed (fst (pmp_range_set legal 4 at base sz perm c)) at base sz perm"
    and "pmp_touch {at..<at + range_entries base sz} c (fst (pmp_range_set legal 4 at base sz perm c))"
    and "snd (pmp_range_set legal 4 at base sz perm c) = range_entries base sz"
proof -
  let ?d = "fst (pmp_range_set legal 4 at base sz perm c)"
  have "programmed ?d at base sz perm \<and> pmp_touch {at..<at + range_entries base sz} c ?d"
  proof (cases "napot_ok base sz")
    case True
    with at have "at < 16" by (simp add: range_entries_def)
    from pmp_entry_set_put [OF hw wr this cfg_fits_A(1) [OF fit],
        of "drop_bit 2 base OR (drop_bit 3 sz - 1)"] True
    have "entry_put at (take_bit 54 (drop_bit 2 base OR (drop_bit 3 sz - 1))) (PMP_A_NAPOT OR perm) c ?d"
      by (simp add: pmp_range_set_def napot_ok_def)
    from this entry_put_touch [OF this] \<open>at < 16\<close> fit True show ?thesis
      by (simp add: programmed_def range_entries_def entry_put_def)
  next
    case False
    let ?c1 = "pmp_entry_set legal at (drop_bit 2 base) 0 c"
    from False at have a: "at < 16" "at + 1 < 16" by (auto simp: range_entries_def)
    have p1: "entry_put at (take_bit 54 (drop_bit 2 base)) 0 c ?c1"
      using pmp_entry_set_put [OF hw wr a(1) cfg_fits_0] .
    have t1: "pmp_touch {at} c ?c1" using p1 by (rule entry_put_touch) simp
    have f1: "cfg_fits ?c1 (PMP_A_TOR OR perm)"
      using fit pmp_touch_fits [OF t1] by simp
    have d: "?d = pmp_entry_set legal (at + 1) (drop_bit 2 (ROUNDUP2 (base + sz) 4)) (PMP_A_TOR OR perm) ?c1"
      using False by (auto simp: pmp_range_set_def napot_ok_def)
    have p2: "entry_put (at + 1) (take_bit 54 (drop_bit 2 (ROUNDUP2 (base + sz) 4))) (PMP_A_TOR OR perm) ?c1 ?d"
      unfolding d using pmp_entry_set_put [OF hw pmp_touch_writable [OF t1 wr] a(2) f1] .
    have "{at} \<union> {at + 1} = {at..<at + 2}" by auto
    with pmp_touch_trans [OF t1 entry_put_touch [OF p2 f1]] p1 p2 a False show ?thesis
      by (simp add: programmed_def range_entries_def entry_put_def)
  qed
  then show "programmed ?d at base sz perm" "pmp_touch {at..<at + range_entries base sz} c ?d" by auto
  show "snd (pmp_range_set legal 4 at base sz perm c) = range_entries base sz"
    by (simp add: pmp_range_set_def range_entries_def napot_ok_def)
qed

text \<open>The rule a programmed range amounts to, in whole words of four bytes.\<close>

definition range_rule :: "ulong \<Rightarrow> ulong \<Rightarrow> ulong \<Rightarrow> rule" where
  "range_rule base sz perm =
     (unat base div 4 * 4, (unat base + unat sz + 3) div 4 * 4 - 1,
      (if napot_ok base sz then PMP_A_NAPOT else PMP_A_TOR) OR perm)"

lemma cfg_A_field:
  "perm AND 0x18 = (0::ulong) \<Longrightarrow> (PMP_A_NAPOT OR perm) AND 0x18 = PMP_A_NAPOT"
  "perm AND 0x18 = (0::ulong) \<Longrightarrow> (PMP_A_TOR OR perm) AND 0x18 = PMP_A_TOR"
  by (simp_all add: bit.conj_disj_distrib2)

lemma drop_ROUNDUP2: "drop_bit 2 (ROUNDUP2 x 4) = drop_bit 2 (x + 3 :: ulong)"
proof -
  have "ROUNDUP2 x 4 = (x + 3) AND NOT (mask 2)"
    by (simp add: ROUNDUP2_def mask_eq_exp_minus_1 add.commute)
  then show ?thesis
    by (intro bit_eqI) (auto simp: bit_drop_bit_eq bit_and_iff bit_not_iff bit_mask_iff dest: bit_imp_le_length)
qed

lemma take_bit_54: "unat w < 2 ^ 54 \<Longrightarrow> take_bit 54 (w :: ulong) = w"
  by (metis take_bit_nat_eq_self unsigned_take_bit_eq word_unat_eq_iff)

text \<open>The range ends where a PMP entry can say so: physical addresses have 56 bits.\<close>

definition pa_ok :: "ulong \<Rightarrow> ulong \<Rightarrow> bool" where
  "pa_ok base sz \<longleftrightarrow> sz \<noteq> 0 \<and> unat base + unat sz + (if napot_ok base sz then 0 else 4) \<le> 2 ^ 56"

lemma programmed_rules:
  assumes pr: "programmed c at base sz perm" and perm: "perm AND 0x18 = 0" and pa: "pa_ok base sz"
  shows "rules c [at..<at + range_entries base sz] = [range_rule base sz perm]"
proof (cases "napot_ok base sz")
  case True
  then obtain k where k: "3 \<le> k" "k < 64" "sz = 2 ^ k" "unat sz = 2 ^ k" "2 ^ k dvd unat base"
    "take_bit k base = 0" unfolding napot_ok_def by (blast elim: napot_cond)
  have u: "unat (drop_bit 2 base OR (drop_bit 3 sz - 1)) = unat base div 4 + (2 ^ (k - 3) - 1)"
    using k by (intro napot_addr)
  have p: "(2::nat) ^ k = 2 ^ (k - 3) * 8" using k(1) power_add [of "2::nat" "k - 3" 3] by simp
  have "unat base + unat sz \<le> 2 ^ 56" using pa True by (simp add: pa_ok_def)
  then have "unat base div 4 + (2 ^ (k - 3) - 1) < 2 ^ 54"
    unfolding k(4) p by simp
  then have "take_bit 54 (drop_bit 2 base OR (drop_bit 3 sz - 1)) = drop_bit 2 base OR (drop_bit 3 sz - 1)"
    using u by (intro take_bit_54) (simp only:)
  then have a: "unat (pmp_addr c at) = unat base div 4 + (2 ^ (k - 3) - 1)"
    using pr True u by (simp only: programmed_def if_True)
  have d: "4 dvd unat base" using k(5) p dvd_trans [of 4 "2 ^ k" "unat base"] by simp
  then obtain q where q: "unat base = 4 * q" by (auto elim: dvdE)
  have e: "(unat base + 2 ^ k + 3) div 4 * 4 = unat base + 2 ^ k"
    unfolding q p by arith
  have "entry_range c at = Some (unat base, unat base + 2 ^ k - 1)"
    using pr True a perm napot_range_form [OF k(1,5)] cfg_A_field
    by (simp add: entry_range_def programmed_def)
  then show ?thesis
    using True pr d e k(4) by (simp add: range_entries_def entry_rule_def range_rule_def programmed_def)
next
  case False
  then have sz: "sz \<noteq> 0" and fits: "unat base + unat sz + 3 < 2 ^ 56"
    using pa by (auto simp: pa_ok_def)
  have b: "unat (drop_bit 2 base) = unat base div 4" by (simp add: unat_drop)
  have s: "unat (base + sz + 3) = unat base + unat sz + 3"
    using fits by (simp add: unat_plus_if')
  then have e: "unat (drop_bit 2 (ROUNDUP2 (base + sz) 4)) = (unat base + unat sz + 3) div 4"
    by (simp add: drop_ROUNDUP2 unat_drop)
  have "unat (pmp_addr c at) = unat base div 4"
    "unat (pmp_addr c (at + 1)) = (unat base + unat sz + 3) div 4"
    using pr False fits b e by (auto simp: programmed_def take_bit_54)
  moreover have "unat base div 4 < (unat base + unat sz + 3) div 4"
    using sz by (simp add: unat_gt_0 [symmetric])
  moreover have "pmp_cfg c at = 0" "pmp_cfg c (at + 1) = PMP_A_TOR OR perm"
    using pr False by (auto simp: programmed_def)
  ultimately have "entry_rule c at = None" "entry_rule c (at + 1) = Some (range_rule base sz perm)"
    using cfg_A_field(2) [OF perm] False
    by (simp_all add: entry_rule_def entry_range_def range_rule_def mult.commute)
  moreover have "[at..<at + 2] = [at, at + 1]" by (simp add: upt_rec)
  ultimately show ?thesis using False by (simp add: range_entries_def)
qed

lemma entry_rule_cong:
  assumes "same_entry c d j" "j > 0 \<Longrightarrow> same_entry c d (j - 1)"
  shows "entry_rule d j = entry_rule c j"
proof -
  have "pmp_cfg d j = pmp_cfg c j" "pmp_addr d j = pmp_addr c j" "j > 0 \<Longrightarrow> pmp_addr d (j - 1) = pmp_addr c (j - 1)"
    using assms by (auto simp: same_entry_def)
  then show ?thesis
    by (cases "j = 0") (simp_all only: entry_rule_def entry_range_def Let_def if_True if_False simp_thms)
qed

lemma entry_rule_off: "pmp_cfg c j = 0 \<Longrightarrow> entry_rule c j = None"
  by (simp add: entry_rule_def entry_range_def)

lemma pmp_touch_rules:
  assumes "pmp_touch I c d" "j \<le> 16" "\<And>k. k \<in> I \<Longrightarrow> k < 16 \<Longrightarrow> k + 1 < i \<or> j \<le> k"
  shows "rules d [i..<j] = rules c [i..<j]"
proof (rule rules_cong)
  fix k assume "k \<in> set [i..<j]"
  then have k: "i \<le> k" "k < j" by auto
  have "k \<notin> I" "k > 0 \<Longrightarrow> k - 1 \<notin> I"
    using assms(3) [of k] assms(3) [of "k - 1"] k assms(2) by force+
  then show "entry_rule d k = entry_rule c k"
    using assms(1,2) k by (intro entry_rule_cong) (auto simp: pmp_touch_def)
qed

lemma rules_upt_split: "i \<le> j \<Longrightarrow> j \<le> k \<Longrightarrow> rules c [i..<k] = rules c [i..<j] @ rules c [j..<k]"
  by (metis rules_append upt_add_eq_append le_add_diff_inverse)

text \<open>The rule of an entry that matches everything, and of one that is off.\<close>

lemma pmp_all_set_rule:
  assumes "pmp_hw legal" "pmp_writable c" "at < 16" "cfg_fits c perm" "perm AND 0x18 = 0"
  shows "entry_rule (pmp_all_set legal at perm c) at = Some (0, 2 ^ 57 - 1, PMP_A_NAPOT OR perm)"
    and "pmp_touch {at} c (pmp_all_set legal at perm c)"
proof -
  let ?d = "pmp_all_set legal at perm c"
  have put: "entry_put at (take_bit 54 (- 1)) (PMP_A_NAPOT OR perm) c ?d"
    unfolding pmp_all_set_def using assms by (intro pmp_entry_set_put) auto
  then show "pmp_touch {at} c ?d" using assms(4) entry_put_touch cfg_fits_A(1) by blast
  have "unat (take_bit 54 (- 1 :: ulong)) = 2 ^ 54 - 1"
    by (simp add: take_bit_minus_one_eq_mask mask_unat)
  then have a: "unat (pmp_addr ?d at) = 0 * 2 ^ Suc 54 + (2 ^ 54 - 1)"
    using put assms(3) by (simp add: entry_put_def)
  have t: "trailing_ones (0 * 2 ^ Suc 54 + (2 ^ 54 - 1)) = 54" by (rule trailing_ones_form)
  have "napot_range (unat (pmp_addr ?d at)) = (0, 2 ^ 57 - 1)"
    unfolding a napot_range_def t Let_def by simp
  then show "entry_rule ?d at = Some (0, 2 ^ 57 - 1, PMP_A_NAPOT OR perm)"
    using put assms(3) cfg_A_field(1) [OF assms(5)]
    by (simp add: entry_rule_def entry_range_def entry_put_def)
qed

lemma pmp_entry_off:
  assumes "pmp_hw legal" "pmp_writable c" "at < 16"
  shows "pmp_cfg (pmp_entry_set legal at a 0 c) at = 0"
    and "pmp_touch {at} c (pmp_entry_set legal at a 0 c)"
  using pmp_entry_set_put [OF assms cfg_fits_0, of a] entry_put_touch [of at "take_bit 54 a" 0 c] assms(3)
  by (auto simp: entry_put_def)

end
