(* ===== verification/Domain.thy ===== *)
theory Domain
  imports Hartmask Memregion Pmp
begin

text \<open>
  Domains (\<^verbatim>\<open>include/domain.h\<close>, \<^verbatim>\<open>arch/riscv/runtime/domain.c\<close>): what a domain is,
  its list of memory regions, the check of a range S-mode names, who may enter
  whom, and how the domains come out of the device tree.

  The device tree is reached through the accessors of libfdt and \<^verbatim>\<open>fdt_util.h\<close>,
  which are an argument here: \<open>fdt\<close> gives, for a node, its phandle, its name, its
  properties as lists of 32-bit cells, and so on.
\<close>

abbreviation DOMAIN_PERM_SU_R :: ulong where "DOMAIN_PERM_SU_R \<equiv> 0x08"
abbreviation DOMAIN_PERM_SU_W :: ulong where "DOMAIN_PERM_SU_W \<equiv> 0x10"
abbreviation DOMAIN_PERM_SU_X :: ulong where "DOMAIN_PERM_SU_X \<equiv> 0x20"
abbreviation DOMAIN_PERM_SU_RWX :: ulong where "DOMAIN_PERM_SU_RWX \<equiv> 0x38"
abbreviation DOMAIN_PERM_SU_SHIFT :: nat where "DOMAIN_PERM_SU_SHIFT \<equiv> 3"
abbreviation RISCV_XLEN :: nat where "RISCV_XLEN \<equiv> 64"
abbreviation PRV_U :: ulong where "PRV_U \<equiv> 0"
abbreviation PRV_S :: ulong where "PRV_S \<equiv> 1"

record domain_region =
  dr_base :: ulong
  dr_order :: nat
  dr_perm :: ulong
  dr_mmio :: bool

record domain =
  dom_name :: string
  dom_index :: nat
  phandle :: u32
  possible :: hartmask
  assigned :: hartmask
  parked :: hartmask
  stopping :: bool
  regions :: "domain_region list"
  max_regions :: nat
  boot_hart :: int
  next_addr :: ulong
  next_arg1 :: ulong
  next_mode :: ulong
  next_arg1_given :: bool
  reset_allowed :: bool
  suspend_allowed :: bool
  entry_from :: "bitstr option"

section \<open>Look-up and policy\<close>

definition domain_by_index :: "domain list \<Rightarrow> nat \<Rightarrow> domain option" where
  "domain_by_index doms index = (if index < length doms then Some (doms ! index) else None)"

definition domain_may_enter :: "domain \<Rightarrow> domain \<Rightarrow> bool" where
  "domain_may_enter from target =
     (dom_index target \<noteq> 0 \<and>
      (case entry_from target of None \<Rightarrow> False | Some b \<Rightarrow> bit_test b (dom_index from)))"

definition domain_by_phandle :: "domain list \<Rightarrow> u32 \<Rightarrow> nat option" where
  "domain_by_phandle doms ph =
     (if ph = 0 then None else find (\<lambda>d. phandle (doms ! d) = ph) [1..<length doms])"

definition domain_hart_assigned :: "domain \<Rightarrow> nat \<Rightarrow> bool" where
  "domain_hart_assigned dm index = hartmask_test (assigned dm) index"

definition domain_hart_member :: "domain \<Rightarrow> nat \<Rightarrow> bool" where
  "domain_hart_member dm index =
     (hartmask_test (assigned dm) index \<or> hartmask_test (parked dm) index)"

definition domain_has_parked :: "nat \<Rightarrow> domain \<Rightarrow> bool" where
  "domain_has_parked count dm = (\<not> hartmask_empty count (parked dm))"

section \<open>Regions\<close>

definition region_last :: "domain_region \<Rightarrow> ulong" where
  "region_last r = (if dr_order r \<ge> RISCV_XLEN then - 1 else dr_base r + BIT (dr_order r) - 1)"

fun regions_check :: "domain_region list \<Rightarrow> ulong \<Rightarrow> ulong \<Rightarrow> ulong \<Rightarrow> bool" where
  "regions_check [] addr lst perm = False"
| "regions_check (r # rs) addr lst perm =
     (if addr > region_last r \<or> lst < dr_base r then regions_check rs addr lst perm
      else addr \<ge> dr_base r \<and> lst \<le> region_last r \<and> dr_perm r AND perm = perm)"

definition domain_range_ok :: "memregion list \<Rightarrow> domain option \<Rightarrow> ulong \<Rightarrow> ulong \<Rightarrow> ulong \<Rightarrow> bool" where
  "domain_range_ok mrs dm addr sz perm =
     (let lst = addr + sz - 1 in
      if sz = 0 then True
      else if lst < addr \<or> \<not> monitor_range_clear mrs addr sz then False
      else case dm of None \<Rightarrow> True | Some d \<Rightarrow> regions_check (regions d) addr lst perm)"

text \<open>The insertion loop of \<^verbatim>\<open>add_region()\<close>, from the free slot at \<open>i\<close> down.\<close>

primrec add_region_at :: "domain_region \<Rightarrow> nat \<Rightarrow> domain_region list \<Rightarrow> domain_region list" where
  "add_region_at r 0 rs = rs[0 := r]"
| "add_region_at r (Suc i) rs =
     (if dr_order (rs ! i) > dr_order r then add_region_at r i (rs[Suc i := rs ! i])
      else rs[Suc i := r])"

definition add_region :: "domain \<Rightarrow> ulong \<Rightarrow> nat \<Rightarrow> ulong \<Rightarrow> bool \<Rightarrow> domain option" where
  "add_region dm base order perm mmio =
     (let n = length (regions dm);
          r = \<lparr>dr_base = base, dr_order = order, dr_perm = perm, dr_mmio = mmio\<rparr>
      in if n = max_regions dm then None
         else Some (dm\<lparr>regions := add_region_at r n (regions dm @ [r])\<rparr>))"

definition regions_alloc :: "domain \<Rightarrow> nat \<Rightarrow> domain" where
  "regions_alloc dm mx = dm\<lparr>regions := [], max_regions := mx\<rparr>"

definition smode_range_ok :: "memregion list \<Rightarrow> domain option \<Rightarrow> ulong \<Rightarrow> ulong \<Rightarrow> bool" where
  "smode_range_ok mrs dm addr sz =
     domain_range_ok mrs dm addr sz (DOMAIN_PERM_SU_R OR DOMAIN_PERM_SU_W)"

definition smode_range_readable :: "memregion list \<Rightarrow> domain option \<Rightarrow> ulong \<Rightarrow> ulong \<Rightarrow> bool" where
  "smode_range_readable mrs dm addr sz = domain_range_ok mrs dm addr sz DOMAIN_PERM_SU_R"

definition smode_entry_ok :: "memregion list \<Rightarrow> domain option \<Rightarrow> ulong \<Rightarrow> bool" where
  "smode_entry_ok mrs dm addr = domain_range_ok mrs dm addr 4 DOMAIN_PERM_SU_X"

section \<open>The device tree binding\<close>

text \<open>
  The accessors the parser uses. A node is named by an integer offset, a
  property is the list of its 32-bit cells.
\<close>

record fdt =
  fdt_node_offset_by_phandle :: "u32 \<Rightarrow> int option"
  fdt_get_phandle :: "int \<Rightarrow> u32"
  fdt_get_name :: "int \<Rightarrow> string"
  fdt_getprop :: "int \<Rightarrow> string \<Rightarrow> u32 list option"
  fdt_getprop_str :: "int \<Rightarrow> string \<Rightarrow> string option"
  fdt_compatible :: "int \<Rightarrow> string \<Rightarrow> bool"
  fdt_parent_offset :: "int \<Rightarrow> int option"
  fdt_address_cells :: "int \<Rightarrow> int"
  fdt_size_cells :: "int \<Rightarrow> int"
  fdt_cpus :: "int list"
  fdt_config :: "int list option"

definition read_cells :: "u32 list \<Rightarrow> ulong" where
  "read_cells cells = foldl (\<lambda>val cell. push_bit 32 val OR ucast cell) 0 cells"

definition fdt_reg :: "fdt \<Rightarrow> int \<Rightarrow> nat \<Rightarrow> (ulong \<times> ulong) option" where
  "fdt_reg t node index =
     (case fdt_parent_offset t node of
        None \<Rightarrow> None
      | Some parent \<Rightarrow>
          let ac = fdt_address_cells t parent; sc = fdt_size_cells t parent in
          if ac < 1 \<or> ac > 2 \<or> sc < 0 \<or> sc > 2 then None
          else case fdt_getprop t node ''reg'' of
                 None \<Rightarrow> None
               | Some reg \<Rightarrow>
                   if (index + 1) * (nat ac + nat sc) > length reg then None
                   else let cells = drop (index * (nat ac + nat sc)) reg
                        in Some (read_cells (take (nat ac) cells),
                                 read_cells (take (nat sc) (drop (nat ac) cells))))"

definition boot_hart_index :: "ulong list \<Rightarrow> ulong \<Rightarrow> int" where
  "boot_hart_index ids hartid =
     (case find (\<lambda>i. ids ! i = hartid) [0..<length ids] of None \<Rightarrow> -1 | Some i \<Rightarrow> int i)"

definition add_hart :: "config \<Rightarrow> ulong \<Rightarrow> ulong list \<Rightarrow> ulong list" where
  "add_hart cfg hartid ids =
     (if length ids < PLATFORM_HART_COUNT cfg \<and> boot_hart_index ids hartid < 0
      then ids @ [hartid] else ids)"

definition cpu_hart_index :: "fdt \<Rightarrow> ulong list \<Rightarrow> u32 \<Rightarrow> int" where
  "cpu_hart_index t ids ph =
     (case fdt_node_offset_by_phandle t ph of
        None \<Rightarrow> -1
      | Some cpu \<Rightarrow> (case fdt_reg t cpu 0 of None \<Rightarrow> -1 | Some (hartid, _) \<Rightarrow> boot_hart_index ids hartid))"

definition prop_u64 :: "fdt \<Rightarrow> int \<Rightarrow> string \<Rightarrow> ulong \<times> bool" where
  "prop_u64 t node nm =
     (case fdt_getprop t node nm of
        Some (hi # lo # _) \<Rightarrow> (reg_pair_to_64 hi lo, True)
      | _ \<Rightarrow> (0, False))"

definition fdt_prop_u32 :: "fdt \<Rightarrow> int \<Rightarrow> string \<Rightarrow> u32 \<Rightarrow> u32" where
  "fdt_prop_u32 t node nm dflt =
     (case fdt_getprop t node nm of Some (v # _) \<Rightarrow> v | _ \<Rightarrow> dflt)"

definition has_prop :: "fdt \<Rightarrow> int \<Rightarrow> string \<Rightarrow> bool" where
  "has_prop t node nm = (fdt_getprop t node nm \<noteq> None)"

definition instance_node :: "fdt \<Rightarrow> int \<Rightarrow> bool" where
  "instance_node t node = fdt_compatible t node ''riscv,domain,instance''"

definition no_harts :: "config \<Rightarrow> hartmask" where
  "no_harts cfg = replicate (bitstr_size (PLATFORM_HART_COUNT cfg)) 0"

text \<open>A structure with every field zero, the value of one not named in an initialiser.\<close>

definition zero_domain :: "config \<Rightarrow> domain" where
  "zero_domain cfg = \<lparr>dom_name = [], dom_index = 0, phandle = 0, possible = no_harts cfg,
     assigned = no_harts cfg, parked = no_harts cfg, stopping = False, regions = [],
     max_regions = 0, boot_hart = 0, next_addr = 0, next_arg1 = 0, next_mode = 0,
     next_arg1_given = False, reset_allowed = False, suspend_allowed = False, entry_from = None\<rparr>"

text \<open>\<open>nr\<close> harts in the table, all of which start out in the root domain.\<close>

definition root_domain_init :: "config \<Rightarrow> nat \<Rightarrow> nat \<Rightarrow> ulong \<Rightarrow> ulong \<Rightarrow> domain" where
  "root_domain_init cfg nr this_hart addr mode =
     (let root = regions_alloc ((zero_domain cfg)\<lparr>dom_name := ''root'', boot_hart := int this_hart,
                    next_addr := addr, next_mode := mode,
                    reset_allowed := True, suspend_allowed := True\<rparr>) 1;
          root = (case add_region root 0 RISCV_XLEN DOMAIN_PERM_SU_RWX False of
                    None \<Rightarrow> root | Some d \<Rightarrow> d)
      in root\<lparr>possible := foldl hartmask_set (possible root) [0..<nr],
              assigned := foldl hartmask_set (assigned root) [0..<nr]\<rparr>)"

definition region_node_ok :: "ulong \<Rightarrow> bool \<Rightarrow> nat \<Rightarrow> bool" where
  "region_node_ok base given order \<longleftrightarrow>
     \<not> (\<not> given \<or> order < 3 \<or> order > RISCV_XLEN \<or>
        (order < RISCV_XLEN \<and>
          (drop_bit (RISCV_XLEN - 1) (drop_bit 1 base) \<noteq> 0 \<or> \<not> IS_ALIGNED base (BIT order))))"

fun parse_regions :: "fdt \<Rightarrow> domain \<Rightarrow> u32 list \<Rightarrow> domain option" where
  "parse_regions t dm (ph # perm # rest) =
     (case fdt_node_offset_by_phandle t ph of
        None \<Rightarrow> None
      | Some r \<Rightarrow>
          if \<not> fdt_compatible t r ''riscv,domain,memregion'' then None
          else let (base, given) = prop_u64 t r ''base'';
                   order = unat (fdt_prop_u32 t r ''order'' 0)
               in if \<not> region_node_ok base given order then None
                  else case add_region dm base order (ucast perm) (has_prop t r ''mmio'') of
                         None \<Rightarrow> None
                       | Some dm' \<Rightarrow> parse_regions t dm' rest)"
| "parse_regions t dm _ = Some dm"

definition instance_parse :: "config \<Rightarrow> fdt \<Rightarrow> ulong list \<Rightarrow> domain \<Rightarrow> int \<Rightarrow> domain option" where
  "instance_parse cfg t ids root node =
     (let dm = (zero_domain cfg)\<lparr>boot_hart := boot_hart root, phandle := fdt_get_phandle t node,
                 dom_name := take 31 (fdt_get_name t node)\<rparr>;
          list = fdt_getprop t node ''regions'';
          dm = regions_alloc dm (1 + (case list of None \<Rightarrow> 0 | Some l \<Rightarrow> length l div 2));
          harts = (case fdt_getprop t node ''possible-harts'' of None \<Rightarrow> [] | Some l \<Rightarrow> l);
          dm = dm\<lparr>possible := foldl (\<lambda>m ph. let idx = cpu_hart_index t ids ph in
                                 if idx \<ge> 0 then hartmask_set m (nat idx) else m) (possible dm) harts\<rparr>;
          dm = (if fdt_getprop_str t node ''root-regions-inheritance'' = Some ''all''
                then case add_region dm 0 RISCV_XLEN DOMAIN_PERM_SU_RWX False of
                       None \<Rightarrow> dm | Some d \<Rightarrow> d
                else dm)
      in case parse_regions t dm (case list of None \<Rightarrow> [] | Some l \<Rightarrow> l) of
           None \<Rightarrow> None
         | Some dm \<Rightarrow>
             let bh = (case fdt_getprop t node ''boot-hart'' of
                         Some (ph # _) \<Rightarrow> cpu_hart_index t ids ph | _ \<Rightarrow> boot_hart dm);
                 arg1 = prop_u64 t node ''next-arg1''
             in Some (dm\<lparr>boot_hart := bh,
                  next_addr := fst (prop_u64 t node ''next-addr''),
                  next_arg1 := fst arg1, next_arg1_given := snd arg1,
                  next_mode := (if fdt_prop_u32 t node ''next-mode'' 1 \<noteq> 0 then PRV_S else PRV_U),
                  reset_allowed := has_prop t node ''system-reset-allowed'',
                  suspend_allowed := has_prop t node ''system-suspend-allowed''\<rparr>))"

text \<open>The first pass over the config node: the instances, numbered as they parse.\<close>

fun parse_instances :: "config \<Rightarrow> fdt \<Rightarrow> ulong list \<Rightarrow> domain list \<Rightarrow> int list \<Rightarrow> domain list" where
  "parse_instances cfg t ids doms [] = doms"
| "parse_instances cfg t ids doms (node # nodes) =
     (if \<not> instance_node t node then parse_instances cfg t ids doms nodes
      else case instance_parse cfg t ids (doms ! 0) node of
             None \<Rightarrow> parse_instances cfg t ids doms nodes
           | Some dm \<Rightarrow> parse_instances cfg t ids (doms @ [dm\<lparr>dom_index := length doms\<rparr>]) nodes)"

text \<open>The second pass: who may enter whom, once every domain has its index.\<close>

definition entry_list :: "domain list \<Rightarrow> u32 list \<Rightarrow> bitstr" where
  "entry_list doms phs =
     foldl (\<lambda>b ph. case domain_by_phandle doms ph of
                       None \<Rightarrow> b | Some from \<Rightarrow> bit_set b (dom_index (doms ! from)))
       (replicate (bitstr_size (length doms)) 0) phs"

fun parse_entry_from :: "fdt \<Rightarrow> domain list \<Rightarrow> int list \<Rightarrow> domain list" where
  "parse_entry_from t doms [] = doms"
| "parse_entry_from t doms (node # nodes) =
     (case domain_by_phandle doms (fdt_get_phandle t node) of
        None \<Rightarrow> parse_entry_from t doms nodes
      | Some d \<Rightarrow>
          if dom_index (doms ! d) = 0 then parse_entry_from t doms nodes
          else parse_entry_from t
                 (doms[d := (doms ! d)\<lparr>entry_from := Some (entry_list doms
                     (case fdt_getprop t node ''riscv,entry-allowed-from'' of
                        None \<Rightarrow> [] | Some l \<Rightarrow> l))\<rparr>]) nodes)"

text \<open>
  "riscv,domain" of the cpu nodes. The state is the domains and, per hart, the
  index of the domain it runs.
\<close>

definition assign_hart :: "fdt \<Rightarrow> ulong list \<Rightarrow> domain list \<times> nat list \<Rightarrow> int \<Rightarrow> domain list \<times> nat list" where
  "assign_hart t ids st cpu =
     (let doms = fst st; hd = snd st; ph = fdt_prop_u32 t cpu ''riscv,domain'' 0 in
      if ph = 0 then st
      else case fdt_reg t cpu 0 of
             None \<Rightarrow> st
           | Some (hartid, _) \<Rightarrow>
               let idx = boot_hart_index ids hartid in
               if idx < 0 then st
               else case find (\<lambda>d. phandle (doms ! d) = ph) (rev [1..<length doms]) of
                      None \<Rightarrow> st
                    | Some d \<Rightarrow>
                        if \<not> hartmask_test (possible (doms ! d)) (nat idx) then st
                        else let doms = doms[0 := (doms ! 0)\<lparr>assigned :=
                                          hartmask_clear (assigned (doms ! 0)) (nat idx)\<rparr>];
                                 doms = doms[d := (doms ! d)\<lparr>assigned :=
                                          hartmask_set (assigned (doms ! d)) (nat idx)\<rparr>]
                             in (doms, hd[nat idx := d]))"

definition assign_harts :: "fdt \<Rightarrow> ulong list \<Rightarrow> domain list \<times> nat list \<Rightarrow> domain list \<times> nat list" where
  "assign_harts t ids st = foldl (assign_hart t ids) st (fdt_cpus t)"

definition domains_init ::
  "config \<Rightarrow> fdt option \<Rightarrow> ulong list \<Rightarrow> nat \<Rightarrow> ulong \<Rightarrow> ulong \<Rightarrow> domain list \<times> nat list" where
  "domains_init cfg fd ids this_hart addr mode =
     (let root = root_domain_init cfg (length ids) this_hart addr mode;
          hd = replicate (length ids) 0
      in case fd of
           None \<Rightarrow> ([root], hd)
         | Some t \<Rightarrow>
             (case fdt_config t of
                None \<Rightarrow> ([root], hd)
              | Some nodes \<Rightarrow>
                  let doms = parse_instances cfg t ids [root] nodes;
                      doms = parse_entry_from t doms nodes;
                      (doms, hd) = assign_harts t ids (doms, hd);
                      mine = hd ! this_hart
                  in if next_addr (doms ! mine) = 0
                     then (doms[mine := (doms ! mine)\<lparr>next_addr := addr, next_mode := mode\<rparr>], hd)
                     else (doms, hd)))"

section \<open>Sortedness of the regions\<close>

definition regions_sorted :: "domain \<Rightarrow> bool" where
  "regions_sorted dm \<longleftrightarrow> sorted (map dr_order (regions dm))"

lemma add_region_at_split:
  assumes "length xs = i"
  shows "\<exists>pre post. xs = pre @ post \<and> add_region_at r i (xs @ z # ys) = pre @ r # post @ ys \<and>
           (\<forall>x\<in>set post. dr_order x > dr_order r) \<and>
           (pre \<noteq> [] \<longrightarrow> dr_order (last pre) \<le> dr_order r)"
  using assms
proof (induction i arbitrary: xs z ys)
  case (Suc i)
  then obtain us x where xs: "xs = us @ [x]" and i: "length us = i"
    by (cases xs rule: rev_cases) auto
  show ?case
  proof (cases "dr_order x > dr_order r")
    case True
    from Suc.IH [OF i, of x "x # ys"] obtain pre post where
      "us = pre @ post" "add_region_at r i (us @ x # x # ys) = pre @ r # post @ x # ys"
      "\<forall>x\<in>set post. dr_order r < dr_order x" "pre \<noteq> [] \<longrightarrow> dr_order (last pre) \<le> dr_order r"
      by blast
    with True i xs show ?thesis
      by (intro exI [of _ pre] exI [of _ "post @ [x]"]) (auto simp: nth_append list_update_append)
  next
    case False
    with i xs show ?thesis
      by (intro exI [of _ "us @ [x]"] exI [of _ "[]"]) (auto simp: nth_append list_update_append)
  qed
qed simp

lemma add_region_Some:
  assumes "add_region dm base order perm mmio = Some dm'"
  obtains pre post where "regions dm = pre @ post"
    "regions dm' = pre @ \<lparr>dr_base = base, dr_order = order, dr_perm = perm, dr_mmio = mmio\<rparr> # post"
    "\<forall>x\<in>set post. dr_order x > order" "pre \<noteq> [] \<longrightarrow> dr_order (last pre) \<le> order"
    "length (regions dm) \<noteq> max_regions dm" "max_regions dm' = max_regions dm"
proof -
  define r where "r = \<lparr>dr_base = base, dr_order = order, dr_perm = perm, dr_mmio = mmio\<rparr>"
  have dm': "dm' = dm\<lparr>regions := add_region_at r (length (regions dm)) (regions dm @ [r])\<rparr>"
    and mx: "length (regions dm) \<noteq> max_regions dm"
    using assms by (auto simp: add_region_def Let_def r_def split: if_splits)
  from add_region_at_split [OF refl, of "regions dm" r r "[]"] obtain pre post where
    "regions dm = pre @ post" "add_region_at r (length (regions dm)) (regions dm @ [r]) = pre @ r # post"
    "\<forall>x\<in>set post. dr_order r < dr_order x" "pre \<noteq> [] \<longrightarrow> dr_order (last pre) \<le> dr_order r"
    unfolding append_Nil2 by blast
  then show ?thesis using that [of pre post] dm' mx by (simp add: r_def)
qed

lemma add_region_sorted:
  assumes "add_region dm base order perm mmio = Some dm'" "regions_sorted dm"
  shows "regions_sorted dm'"
proof -
  from assms(1) obtain pre post where s: "regions dm = pre @ post"
    "regions dm' = pre @ \<lparr>dr_base = base, dr_order = order, dr_perm = perm, dr_mmio = mmio\<rparr> # post"
    "\<forall>x\<in>set post. dr_order x > order" "pre \<noteq> [] \<longrightarrow> dr_order (last pre) \<le> order"
    by (rule add_region_Some)
  have "dr_order x \<le> order" if "x \<in> set pre" for x
  proof -
    from that have "pre \<noteq> []" by auto
    then obtain us y where p: "pre = us @ [y]" by (cases pre rule: rev_cases) auto
    then show ?thesis using s(1,4) that assms(2) by (auto simp: regions_sorted_def sorted_append)
  qed
  then show ?thesis
    using s assms(2) by (fastforce simp: regions_sorted_def sorted_append)
qed

section \<open>Who runs what after the boot\<close>

text \<open>
  The harts of the table and the domain each one runs: every hart is in the assigned
  mask of the domain its \<^verbatim>\<open>domain\<close> pointer names, and of no other.
\<close>

definition partition :: "config \<Rightarrow> nat \<Rightarrow> domain list \<times> nat list \<Rightarrow> bool" where
  "partition cfg n st \<longleftrightarrow>
     length (snd st) = n \<and>
     (\<forall>d<length (fst st). hartmask_wf (PLATFORM_HART_COUNT cfg) (assigned (fst st ! d))) \<and>
     (\<forall>i<n. snd st ! i < length (fst st)) \<and>
     (\<forall>i<n. \<forall>d<length (fst st). hartmask_test (assigned (fst st ! d)) i \<longleftrightarrow> snd st ! i = d)"

text \<open>The hart a cpu node is about.\<close>

definition cpu_id :: "fdt \<Rightarrow> int \<Rightarrow> ulong option" where
  "cpu_id t cpu = map_option fst (fdt_reg t cpu 0)"

lemma no_harts_test: "i < PLATFORM_HART_COUNT cfg \<Longrightarrow> \<not> hartmask_test (no_harts cfg) i"
  by (simp add: no_harts_def hartmask_test_def bit_test_none)

lemma no_harts_wf: "hartmask_wf (PLATFORM_HART_COUNT cfg) (no_harts cfg)"
  by (simp add: no_harts_def hartmask_wf_def)

lemma add_region_assigned: "add_region dm b o' p m = Some dm' \<Longrightarrow> assigned dm' = assigned dm"
  by (auto simp: add_region_def Let_def split: if_splits)

lemma parse_regions_assigned: "parse_regions t dm l = Some dm' \<Longrightarrow> assigned dm' = assigned dm"
  by (induction t dm l rule: parse_regions.induct)
    (auto simp: Let_def add_region_assigned split: option.splits if_splits prod.splits)

lemma instance_parse_assigned:
  assumes "instance_parse cfg t ids root node = Some dm"
  shows "assigned dm = no_harts cfg"
proof -
  from case_option_SomeD [OF assms [unfolded instance_parse_def Let_def]] obtain dm1 dm0 l where
    "parse_regions t dm0 l = Some dm1" "assigned dm = assigned dm1" "assigned dm0 = no_harts cfg"
    by (rule exE) (erule conjE, rule that, assumption,
        simp_all add: zero_domain_def regions_alloc_def add_region_def Let_def)
  then show ?thesis using parse_regions_assigned by metis
qed

lemma parse_instances_assigned:
  "d < length (parse_instances cfg t ids doms nodes) \<Longrightarrow>
   (if d < length doms then parse_instances cfg t ids doms nodes ! d = doms ! d
    else assigned (parse_instances cfg t ids doms nodes ! d) = no_harts cfg)"
proof (induction cfg t ids doms nodes rule: parse_instances.induct)
  case (2 cfg t ids doms node nodes)
  show ?case
  proof (cases "instance_node t node \<and> instance_parse cfg t ids (doms ! 0) node \<noteq> None")
    case True
    then obtain dm where dm: "instance_parse cfg t ids (doms ! 0) node = Some dm" by blast
    with True have step: "parse_instances cfg t ids doms (node # nodes) =
        parse_instances cfg t ids (doms @ [dm\<lparr>dom_index := length doms\<rparr>]) nodes" by simp
    have "assigned dm = no_harts cfg" using dm by (rule instance_parse_assigned)
    then show ?thesis
      using "2.IH"(3) [OF _ dm] "2.prems" True unfolding step
      by (auto simp: nth_append split: if_splits)
  next
    case False
    then show ?thesis using "2.IH"(1,2) "2.prems" by (auto split: option.splits if_splits)
  qed
qed simp

lemma parse_instances_grow: "length doms \<le> length (parse_instances cfg t ids doms nodes)"
proof (induction cfg t ids doms nodes rule: parse_instances.induct)
  case (2 cfg t ids doms node nodes)
  show ?case
  proof (cases "\<not> instance_node t node")
    case False
    then show ?thesis using "2.IH"(2,3) by (auto split: option.splits)
  qed (use "2.IH"(1) in simp)
qed simp

lemma parse_entry_from_assigned:
  "length (parse_entry_from t doms nodes) = length doms \<and>
   map assigned (parse_entry_from t doms nodes) = map assigned doms"
proof (induction t doms nodes rule: parse_entry_from.induct)
  case (2 t doms node nodes)
  have keep: "map assigned (doms[d := (doms ! d)\<lparr>entry_from := e\<rparr>]) = map assigned doms" for d e
    by (rule nth_equalityI) (simp_all add: nth_update_keep)
  show ?case using 2 keep by (auto split: option.splits)
qed simp

text \<open>One cpu node: a hart that still runs the root domain is moved, or stays.\<close>

lemma assign_hart_partition:
  assumes part: "partition cfg n st" and n: "n \<le> PLATFORM_HART_COUNT cfg" "length ids = n"
    and fresh: "\<And>i h s. fdt_reg t cpu 0 = Some (h, s) \<Longrightarrow> boot_hart_index ids h = int i \<Longrightarrow> snd st ! i = 0"
  shows "partition cfg n (assign_hart t ids st cpu) \<and>
         length (fst (assign_hart t ids st cpu)) = length (fst st) \<and>
         (\<forall>i<n. snd (assign_hart t ids st cpu) ! i \<noteq> snd st ! i \<longrightarrow>
            (\<exists>h. cpu_id t cpu = Some h \<and> boot_hart_index ids h = int i))"
proof (cases "assign_hart t ids st cpu = st")
  case True
  then show ?thesis using part by simp
next
  case False
  define ph where "ph = fdt_prop_u32 t cpu ''riscv,domain'' 0"
  from False obtain h s where reg: "fdt_reg t cpu 0 = Some (h, s)"
    by (auto simp: assign_hart_def Let_def split: if_splits option.splits)
  from False reg have idx: "0 \<le> boot_hart_index ids h" and ph: "ph \<noteq> 0"
    by (auto simp: assign_hart_def Let_def ph_def split: if_splits)
  from False reg idx ph obtain d where
    d: "find (\<lambda>d. phandle (fst st ! d) = ph) (rev [1..<length (fst st)]) = Some d"
    by (auto simp: assign_hart_def Let_def ph_def split: if_splits option.splits)
  define i where "i = nat (boot_hart_index ids h)"
  have bi: "boot_hart_index ids h = int i" using idx by (simp add: i_def)
  have i: "i < n"
    using bi n(2) by (auto simp: boot_hart_index_def find_Some_iff split: option.splits)
  have dl: "0 < d" "d < length (fst st)" using d by (auto simp: find_Some_iff rev_nth)
  have l0: "0 < length (fst st)" using dl by linarith
  let ?dm0 = "(fst st ! 0)\<lparr>assigned := hartmask_clear (assigned (fst st ! 0)) i\<rparr>"
  let ?dmd = "(fst st ! d)\<lparr>assigned := hartmask_set (assigned (fst st ! d)) i\<rparr>"
  have r: "assign_hart t ids st cpu = ((fst st)[0 := ?dm0, d := ?dmd], (snd st)[i := d])"
    using False reg idx ph d dl bi
    by (auto simp: assign_hart_def Let_def ph_def split: if_splits)
  have zero: "snd st ! i = 0" using fresh [OF reg bi] .
  have bound: "i < PLATFORM_HART_COUNT cfg" using i n by simp
  have wf: "hartmask_wf (PLATFORM_HART_COUNT cfg) (assigned (fst st ! e))" if "e < length (fst st)" for e
    using part that by (simp add: partition_def)
  have wf': "hartmask_wf (PLATFORM_HART_COUNT cfg) (hartmask_clear (assigned (fst st ! 0)) i)"
    "hartmask_wf (PLATFORM_HART_COUNT cfg) (hartmask_set (assigned (fst st ! d)) i)"
    using hm.wf_del [OF wf bound] hm.wf_add [OF wf bound] dl l0 by simp_all
  have mem: "hartmask_test (hartmask_clear (assigned (fst st ! 0)) i) j \<longleftrightarrow> j \<noteq> i \<and> hartmask_test (assigned (fst st ! 0)) j"
    "hartmask_test (hartmask_set (assigned (fst st ! d)) i) j \<longleftrightarrow> j = i \<or> hartmask_test (assigned (fst st ! d)) j" for j
    using hm.member_del [OF wf bound] hm.member_add [OF wf bound] dl l0 by simp_all
  have asg: "assigned ((fst st)[0 := ?dm0, d := ?dmd] ! e) =
      (if e = d then assigned ?dmd else if e = 0 then assigned ?dm0 else assigned (fst st ! e))"
    if "e < length (fst st)" for e
    using that dl l0 by (simp add: nth_list_update)
  have hdi: "(snd st)[i := d] ! j = (if j = i then d else snd st ! j)" for j
    using part i by (cases "j = i") (auto simp: partition_def)
  have "partition cfg n (assign_hart t ids st cpu)"
    using part dl i zero wf' mem unfolding r partition_def
    by (simp add: asg hdi)
  moreover have "\<exists>h. cpu_id t cpu = Some h \<and> boot_hart_index ids h = int j"
    if "snd (assign_hart t ids st cpu) ! j \<noteq> snd st ! j" for j
    using that reg bi by (cases "j = i") (auto simp: r cpu_id_def)
  ultimately show ?thesis by (simp add: r)
qed

lemma assign_harts_partition:
  assumes "partition cfg n st" "n \<le> PLATFORM_HART_COUNT cfg" "length ids = n"
    and "distinct (List.map_filter (cpu_id t) cpus)"
    and "\<And>i h. i < n \<Longrightarrow> h \<in> set (List.map_filter (cpu_id t) cpus) \<Longrightarrow> boot_hart_index ids h = int i \<Longrightarrow> snd st ! i = 0"
  shows "partition cfg n (foldl (assign_hart t ids) st cpus)"
  using assms
proof (induction cpus arbitrary: st)
  case (Cons cpu cpus)
  let ?st = "assign_hart t ids st cpu"
  have lt: "i < n" if "boot_hart_index ids h = int i" for i h
    using that Cons.prems(3) by (auto simp: boot_hart_index_def find_Some_iff split: option.splits)
  have fresh: "snd st ! i = 0" if "fdt_reg t cpu 0 = Some (h, s)" "boot_hart_index ids h = int i" for i h s
    using Cons.prems(5) [OF lt [OF that(2)] _ that(2)] that(1) by (simp add: List.map_filter_simps cpu_id_def)
  have step: "partition cfg n ?st \<and> (\<forall>i<n. snd ?st ! i \<noteq> snd st ! i \<longrightarrow>
      (\<exists>h. cpu_id t cpu = Some h \<and> boot_hart_index ids h = int i))"
    using assign_hart_partition [OF Cons.prems(1-3), of t cpu] fresh by blast
  have kept: "snd ?st ! i = 0"
    if "i < n" "h \<in> set (List.map_filter (cpu_id t) cpus)" "boot_hart_index ids h = int i" for i h
  proof (rule ccontr)
    assume "snd ?st ! i \<noteq> 0"
    moreover have "snd st ! i = 0"
      using Cons.prems(5) [OF that(1) _ that(3)] that(2) by (auto simp: List.map_filter_simps split: option.splits)
    ultimately have "\<exists>h. cpu_id t cpu = Some h \<and> boot_hart_index ids h = int i" using step that(1) by simp
    then obtain h' where h': "cpu_id t cpu = Some h'" "boot_hart_index ids h' = int i" by blast
    have "h' = h" using h'(2) that(3)
      by (auto simp: boot_hart_index_def find_Some_iff split: option.splits)
    with h'(1) that(2) Cons.prems(4) show False by (simp add: List.map_filter_simps)
  qed
  have "distinct (List.map_filter (cpu_id t) cpus)"
    using Cons.prems(4) by (auto simp: List.map_filter_simps split: option.splits)
  with Cons.IH [OF _ Cons.prems(2,3) _ kept] step show ?case by simp
qed simp

lemma root_partition:
  assumes "length ids \<le> PLATFORM_HART_COUNT cfg"
  shows "hartmask_wf (PLATFORM_HART_COUNT cfg) (assigned (root_domain_init cfg (length ids) h a m)) \<and>
         (\<forall>i<length ids. hartmask_test (assigned (root_domain_init cfg (length ids) h a m)) i)"
  using assms no_harts_wf [of cfg]
  by (auto simp: root_domain_init_def Let_def add_region_def regions_alloc_def zero_domain_def
      intro!: hm.wf_foldl_add)
    (subst hm.member_foldl_add [where count = "PLATFORM_HART_COUNT cfg"]; auto)

text \<open>C5. Once the device tree has been read, the domains partition the harts: a hart of the
  table is in the assigned mask of exactly one domain, the one its own domain pointer names.
  It is what keeps two domains from sharing a hart. The tree has to list a hart id once.\<close>

theorem domains_init_partitions_harts:
  assumes "length ids \<le> PLATFORM_HART_COUNT cfg"
    and "distinct (List.map_filter (cpu_id t) (fdt_cpus t))"
    and "domains_init cfg (Some t) ids h a m = (doms, hds)"
    and "i < length ids"
  shows "hds ! i < length doms \<and>
         (\<forall>d<length doms. domain_hart_assigned (doms ! d) i \<longleftrightarrow> d = hds ! i)"
proof -
  let ?n = "length ids" and ?root = "root_domain_init cfg (length ids) h a m"
  let ?P = "partition cfg ?n"
  have r0: "hartmask_wf (PLATFORM_HART_COUNT cfg) (assigned ?root)"
    "\<forall>i<?n. hartmask_test (assigned ?root) i" using root_partition [OF assms(1)] by blast+
  have p0: "?P (ds, replicate ?n 0)"
    if "ds = parse_entry_from t (parse_instances cfg t ids [?root] nodes) nodes" for ds nodes
  proof -
    let ?ps = "parse_instances cfg t ids [?root] nodes"
    have ln: "length ds = length ?ps" "map assigned ds = map assigned ?ps"
      using that parse_entry_from_assigned by auto
    have pos: "0 < length ?ps"
      by (rule less_le_trans [OF _ parse_instances_grow [of "[?root]" cfg t ids nodes]]) simp
    have as: "assigned (ds ! d) = (if d = 0 then assigned ?root else no_harts cfg)" if "d < length ds" for d
      using parse_instances_assigned [of d cfg t ids "[?root]" nodes] that ln nth_map [of d ds assigned]
        nth_map [of d ?ps assigned] by (auto split: if_splits)
    show ?thesis using as pos ln r0 no_harts_wf no_harts_test assms(1) by (auto simp: partition_def)
  qed
  have root: "?P ([?root], replicate ?n 0)" using r0 by (simp add: partition_def)
  have upd: "?P (ds[k := (ds ! k)\<lparr>next_addr := x, next_mode := y\<rparr>], hds)" if "?P (ds, hds)" for ds hds k x y
    using that by (simp add: partition_def nth_update_keep)
  have "?P (assign_harts t ids (ds, replicate ?n 0))" if "?P (ds, replicate ?n 0)" for ds
    using assign_harts_partition [OF that assms(1) refl assms(2)] by (simp add: assign_harts_def)
  note asg = this
  have "?P (doms, hds)"
  proof (cases "fdt_config t")
    case None
    then show ?thesis using assms(3) root by (simp add: domains_init_def Let_def)
  next
    case (Some nodes)
    define ds where "ds = parse_entry_from t (parse_instances cfg t ids [?root] nodes) nodes"
    obtain ds' hd' where e: "assign_harts t ids (ds, replicate ?n 0) = (ds', hd')" by force
    have p: "?P (ds', hd')" using asg [OF p0 [OF ds_def]] e by simp
    have "(doms, hds) = (ds', hd') \<or> (\<exists>k x y. (doms, hds) = (ds'[k := (ds' ! k)\<lparr>next_addr := x, next_mode := y\<rparr>], hd'))"
      using assms(3) Some e unfolding ds_def by (auto simp: domains_init_def Let_def split: if_splits)
    then show ?thesis using p upd [OF p] by auto
  qed
  with assms(4) show ?thesis by (auto simp: partition_def domain_hart_assigned_def)
qed

text \<open>Two harts and one domain instance, which the second hart is given to.\<close>

definition demo_tree :: fdt where
  "demo_tree = \<lparr>
     fdt_node_offset_by_phandle = (\<lambda>ph. if ph = 7 then Some 3 else if ph = 5 then Some 11 else None),
     fdt_get_phandle = (\<lambda>n. if n = 3 then 7 else if n = 11 then 5 else 0),
     fdt_get_name = (\<lambda>n. ''tee''),
     fdt_getprop = (\<lambda>n p. if n = 2 \<and> p = ''reg'' then Some [0]
                        else if n = 3 \<and> p = ''reg'' then Some [1]
                        else if n = 3 \<and> p = ''riscv,domain'' then Some [5]
                        else if n = 11 \<and> p = ''possible-harts'' then Some [7]
                        else None),
     fdt_getprop_str = (\<lambda>n p. None),
     fdt_compatible = (\<lambda>n p. n = 11 \<and> p = ''riscv,domain,instance''),
     fdt_parent_offset = (\<lambda>n. Some 1), fdt_address_cells = (\<lambda>n. 1), fdt_size_cells = (\<lambda>n. 0),
     fdt_cpus = [2, 3], fdt_config = Some [11]\<rparr>"

definition two_harts :: config where
  "two_harts = \<lparr>PLATFORM_HART_COUNT = 2, RISCV_PMP_COUNT = 16, MONITOR_SIZE = 0x40000,
     INSECURE_NO_PMP = False, SBI_DBTR_MAX_TRIGGERS = 8, MPXY_SSE_EVENTS = 4,
     image_start = 0x80000000, text_rodata_end = 0x80020000\<rparr>"

theorem domains_init_partitions_harts_witness:
  "\<exists>doms hds. domains_init two_harts (Some demo_tree) [0, 1] 0 0x80200000 PRV_S = (doms, hds) \<and>
     hds = [0, 1] \<and> domain_hart_assigned (doms ! 1) 1 \<and> \<not> domain_hart_assigned (doms ! 0) 1"
proof -
  obtain doms hds where d: "domains_init two_harts (Some demo_tree) [0, 1] 0 0x80200000 PRV_S = (doms, hds)"
    by force
  have e: "snd (domains_init two_harts (Some demo_tree) [0, 1] 0 0x80200000 PRV_S) = [0, 1] \<and>
       length (fst (domains_init two_harts (Some demo_tree) [0, 1] 0 0x80200000 PRV_S)) = 2"
    by code_simp
  have "length [0, 1 :: ulong] \<le> PLATFORM_HART_COUNT two_harts"
    "distinct (List.map_filter (cpu_id demo_tree) (fdt_cpus demo_tree))"
    by code_simp+
  from domains_init_partitions_harts [OF this d, of 1] d e show ?thesis by auto
qed

section \<open>Properties of the region list\<close>

text \<open>C6. Adding a region to a domain keeps its list sorted, smallest region first, which is the
  order the first matching rule of the protection unit needs; it adds that one region and
  drops none; and it fails, changing nothing, just when the list has as many regions as were
  allocated for it.\<close>

theorem add_region_inserts:
  assumes "regions_sorted dm" "length (regions dm) \<le> max_regions dm"
  shows "case add_region dm base order perm mmio of
      None \<Rightarrow> length (regions dm) = max_regions dm
    | Some dm' \<Rightarrow>
        regions_sorted dm' \<and> length (regions dm') \<le> max_regions dm' \<and>
        (\<exists>pre post. regions dm = pre @ post \<and> regions dm' =
           pre @ \<lparr>dr_base = base, dr_order = order, dr_perm = perm, dr_mmio = mmio\<rparr> # post) \<and>
        dm'\<lparr>regions := regions dm\<rparr> = dm"
proof (cases "add_region dm base order perm mmio")
  case None
  then show ?thesis by (auto simp: add_region_def Let_def split: if_splits)
next
  case (Some dm')
  from Some obtain pre post where s: "regions dm = pre @ post"
    "regions dm' = pre @ \<lparr>dr_base = base, dr_order = order, dr_perm = perm, dr_mmio = mmio\<rparr> # post"
    "length (regions dm) \<noteq> max_regions dm" "max_regions dm' = max_regions dm"
    by (rule add_region_Some)
  have "dm'\<lparr>regions := regions dm\<rparr> = dm"
    using Some by (auto simp: add_region_def Let_def split: if_splits)
  then show ?thesis using Some s assms add_region_sorted [OF Some assms(1)] by auto
qed

theorem add_region_inserts_witness:
  "\<exists>dm'. add_region ((zero_domain two_harts)\<lparr>max_regions := 2, regions :=
       [\<lparr>dr_base = 0, dr_order = 64, dr_perm = DOMAIN_PERM_SU_RWX, dr_mmio = False\<rparr>]\<rparr>)
       0x80000000 21 DOMAIN_PERM_SU_R False = Some dm' \<and> regions_sorted dm' \<and>
     map dr_order (regions dm') = [21, 64]"
  using add_region_inserts [where dm = "(zero_domain two_harts)\<lparr>max_regions := 2, regions :=
       [\<lparr>dr_base = 0, dr_order = 64, dr_perm = DOMAIN_PERM_SU_RWX, dr_mmio = False\<rparr>]\<rparr>"
      and base = "0x80000000" and order = 21 and perm = DOMAIN_PERM_SU_R and mmio = False]
  by (auto simp: regions_sorted_def add_region_def)

end
