(* ===== verification/Protection.thy ===== *)
theory Protection
  imports Domain
begin

text \<open>
  The PMP of a hart as \<^verbatim>\<open>arch/riscv/runtime/hart.c\<close> lays it out: the window on
  S-mode memory (Smepmp), the memory regions, the regions of the domain the hart
  runs. The theorems relate three views of the same thing: the registers the
  code writes, the rules the hardware reads from them, and the check
  \<^const>\<open>domain_range_ok\<close> that the monitor makes before it uses an address for
  S-mode.
\<close>

abbreviation SMEPMP_WINDOW_ENTRIES :: nat where "SMEPMP_WINDOW_ENTRIES \<equiv> 2"

section \<open>The code\<close>

definition region_is_napot :: "memregion \<Rightarrow> bool" where
  "region_is_napot r \<longleftrightarrow>
     mr_size r \<ge> 8 \<and> IS_POWER_OF_TWO (mr_size r) \<and> IS_ALIGNED (mr_base r) (mr_size r)"

definition pmp_monitor_entries :: "features \<Rightarrow> memregion list \<Rightarrow> nat" where
  "pmp_monitor_entries feat mrs =
     foldl (\<lambda>n r. if mr_kind r \<noteq> MEMREGION_SHARED_RW \<or> feat HART_FEAT_SMEPMP
                  then n + (if region_is_napot r then 1 else 2) else n)
       (if feat HART_FEAT_SMEPMP then SMEPMP_WINDOW_ENTRIES else 0) mrs"

definition region_cfg :: "features \<Rightarrow> memregion_kind \<Rightarrow> ulong" where
  "region_cfg feat kind =
     (if \<not> feat HART_FEAT_SMEPMP then 0
      else case kind of
             MEMREGION_MMODE_RX \<Rightarrow> PMP_L OR PMP_R OR PMP_X
           | MEMREGION_MMODE_RW \<Rightarrow> PMP_L OR PMP_R OR PMP_W
           | MEMREGION_SHARED_RW \<Rightarrow> PMP_W OR PMP_X)"

fun shared_regions_loop ::
  "warl \<Rightarrow> features \<Rightarrow> ulong \<Rightarrow> memregion list \<Rightarrow> domain option \<Rightarrow> nat \<Rightarrow> memregion list \<Rightarrow> csrs \<Rightarrow> csrs" where
  "shared_regions_loop legal feat grain mrs dm at [] c = c"
| "shared_regions_loop legal feat grain mrs dm at (r # rs) c =
     (let c' = (if mr_kind r = MEMREGION_SHARED_RW
                then fst (pmp_range_set legal grain at (mr_base r) (mr_size r)
                       (if smode_range_ok mrs dm (mr_base r) (mr_size r)
                        then region_cfg feat MEMREGION_SHARED_RW
                        else region_cfg feat MEMREGION_MMODE_RW) c)
                else c)
      in shared_regions_loop legal feat grain mrs dm
           (at + (if region_is_napot r then 1 else 2)) rs c')"

definition shared_regions_set ::
  "warl \<Rightarrow> features \<Rightarrow> ulong \<Rightarrow> memregion list \<Rightarrow> domain option \<Rightarrow> csrs \<Rightarrow> csrs" where
  "shared_regions_set legal feat grain mrs dm c =
     (if \<not> feat HART_FEAT_SMEPMP then c
      else shared_regions_loop legal feat grain mrs dm SMEPMP_WINDOW_ENTRIES mrs c)"

definition pmp_domain_entries :: "config \<Rightarrow> features \<Rightarrow> memregion list \<Rightarrow> nat" where
  "pmp_domain_entries cfg feat mrs =
     (let used = pmp_monitor_entries feat mrs
      in if used < RISCV_PMP_COUNT cfg then RISCV_PMP_COUNT cfg - used else 0)"

text \<open>The PMP permissions of a domain's region.\<close>

definition su_cfg :: "ulong \<Rightarrow> ulong" where
  "su_cfg perm =
     (let su = drop_bit DOMAIN_PERM_SU_SHIFT perm;
          cfg = (if su AND 1 \<noteq> 0 then PMP_R else 0) OR (if su AND 2 \<noteq> 0 then PMP_W else 0) OR
                (if su AND 4 \<noteq> 0 then PMP_X else 0)
      in if cfg AND PMP_W \<noteq> 0 \<and> cfg AND PMP_R = 0 then cfg AND NOT PMP_W else cfg)"

fun domain_regions_loop ::
  "warl \<Rightarrow> config \<Rightarrow> ulong \<Rightarrow> nat \<Rightarrow> domain_region list \<Rightarrow> csrs \<Rightarrow> csrs \<times> nat" where
  "domain_regions_loop legal cfg grain at [] c = (c, at)"
| "domain_regions_loop legal cfg grain at (r # rs) c =
     (if at = RISCV_PMP_COUNT cfg then (c, at)
      else if dr_order r \<ge> RISCV_XLEN
      then domain_regions_loop legal cfg grain (at + 1) rs
             (pmp_all_set legal at (su_cfg (dr_perm r)) c)
      else let (c', n) = pmp_range_set legal grain at (dr_base r) (BIT (dr_order r))
                           (su_cfg (dr_perm r)) c
           in domain_regions_loop legal cfg grain (at + n) rs c')"

text \<open>Entries \<open>at\<close> and up, \<open>n\<close> of them, off.\<close>

primrec clear_entries :: "warl \<Rightarrow> nat \<Rightarrow> nat \<Rightarrow> csrs \<Rightarrow> csrs" where
  "clear_entries legal at 0 c = c"
| "clear_entries legal at (Suc n) c = clear_entries legal (Suc at) n (pmp_entry_set legal at 0 0 c)"

definition pmp_domain_set ::
  "warl \<Rightarrow> config \<Rightarrow> features \<Rightarrow> ulong \<Rightarrow> memregion list \<Rightarrow> domain \<Rightarrow> csrs \<Rightarrow> csrs" where
  "pmp_domain_set legal cfg feat grain mrs dm c =
     (if \<not> feat HART_FEAT_PMP then c
      else let c1 = shared_regions_set legal feat grain mrs (Some dm) c;
               (c2, at) = domain_regions_loop legal cfg grain (pmp_monitor_entries feat mrs)
                            (regions dm) c1
           in clear_entries legal at (RISCV_PMP_COUNT cfg - at) c2)"

fun monitor_regions_loop ::
  "warl \<Rightarrow> config \<Rightarrow> features \<Rightarrow> ulong \<Rightarrow> nat \<Rightarrow> memregion list \<Rightarrow> csrs \<Rightarrow> panic + csrs" where
  "monitor_regions_loop legal cfg feat grain at [] c = Inr c"
| "monitor_regions_loop legal cfg feat grain at (r # rs) c =
     (if mr_kind r = MEMREGION_SHARED_RW \<and> \<not> feat HART_FEAT_SMEPMP
      then monitor_regions_loop legal cfg feat grain at rs c
      else if at + 3 > RISCV_PMP_COUNT cfg then Inl (Out_Of_Pmp_Entries (mr_base r) (mr_size r))
      else let c' = (if mr_kind r \<noteq> MEMREGION_SHARED_RW
                     then fst (pmp_range_set legal grain at (mr_base r) (mr_size r)
                                 (region_cfg feat (mr_kind r)) c)
                     else c)
           in monitor_regions_loop legal cfg feat grain (at + (if region_is_napot r then 1 else 2)) rs c')"

definition pmp_hart_init ::
  "warl \<Rightarrow> config \<Rightarrow> features \<Rightarrow> ulong \<Rightarrow> memregion list \<Rightarrow> domain \<Rightarrow> csrs \<Rightarrow> panic + csrs" where
  "pmp_hart_init legal cfg feat grain mrs dm c =
     (if \<not> feat HART_FEAT_PMP then (if INSECURE_NO_PMP cfg then Inr c else Inl No_Pmp)
      else if feat HART_FEAT_SMEPMP \<and> csr_read CSR_MSECCFG c AND MSECCFG_MML \<noteq> 0
      then Inr (pmp_domain_set legal cfg feat grain mrs dm c)
      else let (c1, idx) =
                 (if feat HART_FEAT_SMEPMP
                  then (pmp_entry_set legal 1 0 0 (pmp_entry_set legal 0 0 0
                          (csr_set legal CSR_MSECCFG MSECCFG_RLB c)), SMEPMP_WINDOW_ENTRIES)
                  else (c, 0))
           in case monitor_regions_loop legal cfg feat grain idx mrs c1 of
                Inl p \<Rightarrow> Inl p
              | Inr c2 \<Rightarrow>
                  let c3 = (if feat HART_FEAT_SMEPMP
                            then csr_set legal CSR_MSECCFG (MSECCFG_MML OR MSECCFG_MMWP) c2 else c2)
                  in Inr (pmp_domain_set legal cfg feat grain mrs dm c3))"

text \<open>The window of a hart: address and size, size 0 when there is none.\<close>

type_synonym window = "ulong \<times> ulong"

definition smode_access_begin ::
  "warl \<Rightarrow> features \<Rightarrow> ulong \<Rightarrow> memregion list \<Rightarrow> ulong \<Rightarrow> ulong \<Rightarrow> csrs \<Rightarrow> panic + (window \<times> csrs)" where
  "smode_access_begin legal feat grain mrs addr sz c =
     (if sz \<noteq> 0 \<and> \<not> monitor_range_clear mrs addr sz then Inl (Window_On_Monitor addr sz)
      else Inr ((addr, sz),
                if feat HART_FEAT_SMEPMP \<and> sz \<noteq> 0
                then pmp_entry_set legal 1 (drop_bit 2 (ROUNDUP2 (addr + sz) grain))
                       (PMP_A_TOR OR PMP_W OR PMP_X)
                       (pmp_entry_set legal 0 (drop_bit 2 addr) 0 c)
                else c))"

definition smode_access_end :: "warl \<Rightarrow> features \<Rightarrow> window \<Rightarrow> csrs \<Rightarrow> window \<times> csrs" where
  "smode_access_end legal feat w c =
     ((fst w, 0), if feat HART_FEAT_SMEPMP then pmp_entry_cfg legal 1 0 c else c)"

definition smode_poke32 ::
  "warl \<Rightarrow> features \<Rightarrow> ulong \<Rightarrow> memregion list \<Rightarrow> (ulong \<Rightarrow> u32) \<Rightarrow> ulong \<Rightarrow> u32 \<Rightarrow> window \<Rightarrow> csrs \<Rightarrow>
   panic + ((ulong \<Rightarrow> u32) \<times> window \<times> csrs)" where
  "smode_poke32 legal feat grain mrs mem addr val w c =
     (case smode_access_begin legal feat grain mrs addr 4 c of
        Inl p \<Rightarrow> Inl p
      | Inr (w1, c1) \<Rightarrow>
          let mem' = mem(addr := val); (w2, c2) = smode_access_end legal feat w1 c1
          in if snd w \<noteq> 0 then
               (case smode_access_begin legal feat grain mrs (fst w) (snd w) c2 of
                  Inl p \<Rightarrow> Inl p
                | Inr (w3, c3) \<Rightarrow> Inr (mem', w3, c3))
             else Inr (mem', w2, c2))"

section \<open>Regions in their place\<close>

definition mr_entries :: "memregion \<Rightarrow> nat" where
  "mr_entries r = range_entries (mr_base r) (mr_size r)"

abbreviation mrs_entries :: "memregion list \<Rightarrow> nat" where
  "mrs_entries rs \<equiv> sum_list (map mr_entries rs)"

text \<open>The regions that have entries.\<close>

definition counted :: "features \<Rightarrow> memregion \<Rightarrow> bool" where
  "counted feat r \<longleftrightarrow> mr_kind r \<noteq> MEMREGION_SHARED_RW \<or> feat HART_FEAT_SMEPMP"

text \<open>
  The regions \<open>rs\<close> are in the entries from \<open>at\<close> on, one after the other, each with
  the permissions \<open>f\<close> gives it; a region without any is left open.
\<close>

primrec laid :: "csrs \<Rightarrow> (memregion \<Rightarrow> ulong option) \<Rightarrow> nat \<Rightarrow> memregion list \<Rightarrow> bool" where
  "laid c f at [] = True"
| "laid c f at (r # rs) =
     ((case f r of None \<Rightarrow> True | Some perm \<Rightarrow> programmed c at (mr_base r) (mr_size r) perm) \<and>
      laid c f (at + mr_entries r) rs)"

lemma mr_entries_code: "(if region_is_napot r then 1 else 2) = mr_entries r"
  by (simp add: mr_entries_def range_entries_def region_is_napot_def napot_ok_def)

lemma laid_cong:
  assumes "laid c f at rs" "\<And>j. at \<le> j \<Longrightarrow> j < at + mrs_entries rs \<Longrightarrow> same_entry c d j"
  shows "laid d f at rs"
  using assms
proof (induction rs arbitrary: at)
  case (Cons r rs)
  have "laid d f (at + mr_entries r) rs"
    by (rule Cons.IH) (use Cons.prems in auto)
  moreover have "programmed d at (mr_base r) (mr_size r) perm" if "f r = Some perm" for perm
    by (rule programmed_cong [of c]) (use Cons.prems that in \<open>auto simp: mr_entries_def\<close>)
  ultimately show ?case by (auto split: option.splits)
qed simp

lemma pmp_touch_laid:
  assumes "pmp_touch I c d" "laid c f at rs" "at + mrs_entries rs \<le> 16"
    "\<And>k. k \<in> I \<Longrightarrow> k < at \<or> at + mrs_entries rs \<le> k"
  shows "laid d f at rs"
proof (rule laid_cong [OF assms(2)])
  fix j assume "at \<le> j" "j < at + mrs_entries rs"
  then show "same_entry c d j"
    using assms(3) assms(4) [of j] by (intro pmp_touch_same [OF assms(1)]) auto
qed

lemma laid_rules:
  assumes "laid c (\<lambda>r. Some (f r)) at rs"
    and "\<And>r. r \<in> set rs \<Longrightarrow> pa_ok (mr_base r) (mr_size r) \<and> f r AND 0x18 = 0"
  shows "rules c [at..<at + mrs_entries rs] = map (\<lambda>r. range_rule (mr_base r) (mr_size r) (f r)) rs"
  using assms
proof (induction rs arbitrary: at)
  case (Cons r rs)
  have "rules c [at..<at + mr_entries r] = [range_rule (mr_base r) (mr_size r) (f r)]"
    unfolding mr_entries_def by (rule programmed_rules) (use Cons.prems in auto)
  moreover have "rules c [at + mr_entries r..<at + mr_entries r + mrs_entries rs] =
      map (\<lambda>r. range_rule (mr_base r) (mr_size r) (f r)) rs"
    by (rule Cons.IH) (use Cons.prems in auto)
  ultimately show ?case
    using rules_upt_split [of at "at + mr_entries r" "at + mr_entries r + mrs_entries rs" c]
    by (simp add: add.assoc)
qed simp

section \<open>The loops\<close>

text \<open>The permissions of the monitor's own regions, which is all the first pass writes.\<close>

definition own_cfg :: "features \<Rightarrow> memregion \<Rightarrow> ulong option" where
  "own_cfg feat r = (if mr_kind r = MEMREGION_SHARED_RW then None else Some (region_cfg feat (mr_kind r)))"

lemma monitor_regions_loop_laid:
  assumes hw: "pmp_hw legal" and cnt: "RISCV_PMP_COUNT cfg \<le> 16"
  shows "monitor_regions_loop legal cfg feat 4 at mrs c = Inr d \<Longrightarrow> pmp_writable c \<Longrightarrow>
    (\<And>k. k \<noteq> MEMREGION_SHARED_RW \<Longrightarrow> cfg_fits c (region_cfg feat k)) \<Longrightarrow> at \<le> RISCV_PMP_COUNT cfg \<Longrightarrow>
    laid d (own_cfg feat) at (filter (counted feat) mrs) \<and>
    pmp_touch {at..<at + mrs_entries (filter (counted feat) mrs)} c d \<and>
    at + mrs_entries (filter (counted feat) mrs) \<le> RISCV_PMP_COUNT cfg"
proof (induction mrs arbitrary: at c)
  case Nil
  then show ?case using pmp_touch_refl by simp
next
  case (Cons r rs)
  show ?case
  proof (cases "counted feat r")
    case False
    then show ?thesis using Cons by (auto simp: counted_def)
  next
    case True
    define c' where "c' = (if mr_kind r \<noteq> MEMREGION_SHARED_RW
      then fst (pmp_range_set legal 4 at (mr_base r) (mr_size r) (region_cfg feat (mr_kind r)) c) else c)"
    have room: "at + 3 \<le> RISCV_PMP_COUNT cfg"
      and rest: "monitor_regions_loop legal cfg feat 4 (at + mr_entries r) rs c' = Inr d"
      using Cons.prems(1) True
      by (auto simp: counted_def Let_def c'_def mr_entries_code split: if_splits)
    have e: "mr_entries r \<le> 2" by (simp add: mr_entries_def range_entries_def)
    have fits: "at + range_entries (mr_base r) (mr_size r) \<le> 16"
      using room cnt e by (simp add: mr_entries_def)
    have head: "(\<forall>perm. own_cfg feat r = Some perm \<longrightarrow> programmed c' at (mr_base r) (mr_size r) perm) \<and>
        pmp_touch {at..<at + mr_entries r} c c'"
    proof (cases "mr_kind r = MEMREGION_SHARED_RW")
      case True
      then show ?thesis
        using pmp_touch_mono [OF pmp_touch_refl, of "{at..<at + mr_entries r}" c] by (simp add: c'_def own_cfg_def)
    next
      case False
      then show ?thesis
        using pmp_range_set_programmed [OF hw Cons.prems(2) Cons.prems(3) [OF False] fits]
        by (simp add: c'_def own_cfg_def mr_entries_def)
    qed
    then have touch: "pmp_touch {at..<at + mr_entries r} c c'" by simp
    have tail: "laid d (own_cfg feat) (at + mr_entries r) (filter (counted feat) rs) \<and>
        pmp_touch {at + mr_entries r..<at + mr_entries r + mrs_entries (filter (counted feat) rs)} c' d \<and>
        at + mr_entries r + mrs_entries (filter (counted feat) rs) \<le> RISCV_PMP_COUNT cfg"
      using rest pmp_touch_writable [OF touch Cons.prems(2)] pmp_touch_fits [OF touch] Cons.prems(3) room e
      by (intro Cons.IH) auto
    then have "same_entry c' d j" if "j < at + mr_entries r" for j
      using that fits by (intro pmp_touch_same [OF conjunct1 [OF conjunct2 [OF tail]]]) (auto simp: mr_entries_def)
    then have "\<forall>perm. own_cfg feat r = Some perm \<longrightarrow> programmed d at (mr_base r) (mr_size r) perm"
      using head programmed_cong [of c' at "mr_base r" "mr_size r" _ d] by (auto simp: mr_entries_def)
    moreover have "pmp_touch {at..<at + (mr_entries r + mrs_entries (filter (counted feat) rs))} c d"
      by (rule pmp_touch_mono [OF pmp_touch_trans [OF touch conjunct1 [OF conjunct2 [OF tail]]]]) auto
    ultimately show ?thesis
      using True tail by (auto simp: add.assoc split: option.splits)
  qed
qed

text \<open>With the shared regions, as the running domain has them.\<close>

definition shared_perm :: "features \<Rightarrow> memregion list \<Rightarrow> domain option \<Rightarrow> memregion \<Rightarrow> ulong" where
  "shared_perm feat mrs dm r =
     (if mr_kind r \<noteq> MEMREGION_SHARED_RW then region_cfg feat (mr_kind r)
      else if smode_range_ok mrs dm (mr_base r) (mr_size r)
      then region_cfg feat MEMREGION_SHARED_RW else region_cfg feat MEMREGION_MMODE_RW)"

lemma shared_regions_loop_laid:
  assumes hw: "pmp_hw legal" and fit: "\<And>c k. mml c \<Longrightarrow> rlb c \<Longrightarrow> cfg_fits c (region_cfg feat k)"
  shows "laid c (own_cfg feat) at rs \<Longrightarrow> pmp_writable c \<Longrightarrow> mml c \<Longrightarrow> rlb c \<Longrightarrow>
    at + mrs_entries rs \<le> 16 \<Longrightarrow>
    laid (shared_regions_loop legal feat 4 mrs dm at rs c) (\<lambda>r. Some (shared_perm feat mrs dm r)) at rs \<and>
    pmp_touch {at..<at + mrs_entries rs} c (shared_regions_loop legal feat 4 mrs dm at rs c)"
proof (induction rs arbitrary: at c)
  case Nil
  then show ?case using pmp_touch_refl by simp
next
  case (Cons r rs)
  define c' where "c' = (if mr_kind r = MEMREGION_SHARED_RW
      then fst (pmp_range_set legal 4 at (mr_base r) (mr_size r) (shared_perm feat mrs dm r) c) else c)"
  let ?d = "shared_regions_loop legal feat 4 mrs dm at (r # rs) c"
  have d: "?d = shared_regions_loop legal feat 4 mrs dm (at + mr_entries r) rs c'"
    by (simp add: c'_def shared_perm_def mr_entries_code [symmetric])
  have head: "programmed c' at (mr_base r) (mr_size r) (shared_perm feat mrs dm r) \<and>
      pmp_touch {at..<at + mr_entries r} c c'"
  proof (cases "mr_kind r = MEMREGION_SHARED_RW")
    case True
    have "cfg_fits c (shared_perm feat mrs dm r)"
      using fit Cons.prems by (simp add: shared_perm_def)
    then show ?thesis
      using pmp_range_set_programmed [OF hw Cons.prems(2), of "shared_perm feat mrs dm r" at "mr_base r" "mr_size r"]
        Cons.prems True by (simp add: c'_def mr_entries_def)
  next
    case False
    then show ?thesis
      using pmp_touch_mono [OF pmp_touch_refl, of "{at..<at + mr_entries r}" c] Cons.prems
      by (simp add: c'_def own_cfg_def shared_perm_def)
  qed
  then have touch: "pmp_touch {at..<at + mr_entries r} c c'" by simp
  have "laid c' (own_cfg feat) (at + mr_entries r) rs"
    by (rule pmp_touch_laid [OF touch]) (use Cons.prems in auto)
  then have tail: "laid ?d (\<lambda>r. Some (shared_perm feat mrs dm r)) (at + mr_entries r) rs \<and>
      pmp_touch {at + mr_entries r..<at + mr_entries r + mrs_entries rs} c' ?d"
    unfolding d using touch Cons.prems pmp_touch_writable [OF touch]
    by (intro Cons.IH) (auto simp: pmp_touch_def)
  then have "same_entry c' ?d j" if "j < at + mr_entries r" for j
    using that Cons.prems(5) by (intro pmp_touch_same [OF conjunct2 [OF tail]]) auto
  then have "programmed ?d at (mr_base r) (mr_size r) (shared_perm feat mrs dm r)"
    using head programmed_cong [of c' at "mr_base r" "mr_size r" _ ?d] by (auto simp: mr_entries_def)
  moreover have "pmp_touch {at..<at + mrs_entries (r # rs)} c ?d"
    by (rule pmp_touch_mono [OF pmp_touch_trans [OF touch conjunct2 [OF tail]]]) auto
  ultimately show ?case using tail by simp
qed

text \<open>What the device tree parser lets through as a domain's region, within the PMP's reach.\<close>

definition dr_ok :: "domain_region \<Rightarrow> bool" where
  "dr_ok r \<longleftrightarrow> dr_order r = RISCV_XLEN \<and> dr_base r = 0 \<or>
     3 \<le> dr_order r \<and> dr_order r \<le> 56 \<and> IS_ALIGNED (dr_base r) (BIT (dr_order r)) \<and>
     unat (dr_base r) + 2 ^ dr_order r \<le> 2 ^ 56"

definition dr_rule :: "domain_region \<Rightarrow> rule" where
  "dr_rule r = (if dr_order r \<ge> RISCV_XLEN then (0, 2 ^ 57 - 1, PMP_A_NAPOT OR su_cfg (dr_perm r))
                else (unat (dr_base r), unat (dr_base r) + 2 ^ dr_order r - 1, PMP_A_NAPOT OR su_cfg (dr_perm r)))"

lemma su_cfg_cases:
  "su_cfg perm \<in> {0, PMP_R, PMP_X, PMP_R OR PMP_W, PMP_R OR PMP_X, PMP_R OR PMP_W OR PMP_X}"
  by (simp add: su_cfg_def Let_def)

lemma su_cfg_ok [simp]: "cfg_fits c (su_cfg perm)" "su_cfg perm AND 0x18 = 0"
  using su_cfg_cases [of perm] by (auto simp: cfg_fits_def)

lemma dr_napot:
  assumes "dr_ok r" "\<not> dr_order r \<ge> RISCV_XLEN"
  shows "napot_ok (dr_base r) (BIT (dr_order r))" "pa_ok (dr_base r) (BIT (dr_order r))"
    "range_rule (dr_base r) (BIT (dr_order r)) (su_cfg (dr_perm r)) = dr_rule r"
proof -
  have o: "3 \<le> dr_order r" "dr_order r \<le> 56" "IS_ALIGNED (dr_base r) (BIT (dr_order r))"
    "unat (dr_base r) + 2 ^ dr_order r \<le> 2 ^ 56"
    using assms by (auto simp: dr_ok_def)
  have u: "unat (BIT (dr_order r)) = 2 ^ dr_order r" using o by (intro unat_BIT) auto
  have d: "2 ^ dr_order r dvd unat (dr_base r)"
    using IS_ALIGNED_dvd [OF u] o by simp
  have p: "(2::nat) ^ dr_order r = 8 * 2 ^ (dr_order r - 3)"
    using o(1) power_add [of "2::nat" 3 "dr_order r - 3"] by simp
  have e: "BIT (dr_order r) \<ge> 8" by (simp add: word_le_nat_alt u p)
  have two: "IS_POWER_OF_TWO (BIT (dr_order r))"
    using o(2) by (simp add: IS_POWER_OF_TWO_BIT)
  show n: "napot_ok (dr_base r) (BIT (dr_order r))" using e two o(3) by (simp add: napot_ok_def)
  show "pa_ok (dr_base r) (BIT (dr_order r))"
    using n o(4) u by (auto simp: pa_ok_def)
  obtain q where q: "unat (dr_base r) = 8 * q" using d p by (metis dvdE dvd_mult_left mult.assoc)
  show "range_rule (dr_base r) (BIT (dr_order r)) (su_cfg (dr_perm r)) = dr_rule r"
    using n assms(2) by (simp add: range_rule_def dr_rule_def u p q) arith
qed

lemma domain_regions_loop_rules:
  assumes hw: "pmp_hw legal" and cnt: "RISCV_PMP_COUNT cfg \<le> 16"
  shows "pmp_writable c \<Longrightarrow> \<forall>r\<in>set rs. dr_ok r \<Longrightarrow> at + length rs \<le> RISCV_PMP_COUNT cfg \<Longrightarrow>
    domain_regions_loop legal cfg 4 at rs c = (d, at') \<Longrightarrow>
    at' = at + length rs \<and> rules d [at..<at + length rs] = map dr_rule rs \<and>
    pmp_touch {at..<at + length rs} c d"
proof (induction rs arbitrary: at c)
  case Nil
  then show ?case using pmp_touch_refl by auto
next
  case (Cons r rs)
  define c' where "c' = (if dr_order r \<ge> RISCV_XLEN then pmp_all_set legal at (su_cfg (dr_perm r)) c
    else fst (pmp_range_set legal 4 at (dr_base r) (BIT (dr_order r)) (su_cfg (dr_perm r)) c))"
  have a: "at < 16" "at \<noteq> RISCV_PMP_COUNT cfg" using Cons.prems(3) cnt by auto
  have head: "rules c' [at..<at + 1] = [dr_rule r] \<and> pmp_touch {at} c c' \<and>
      domain_regions_loop legal cfg 4 (at + 1) rs c' = (d, at')"
  proof (cases "dr_order r \<ge> RISCV_XLEN")
    case True
    with pmp_all_set_rule [OF hw Cons.prems(1) a(1), of "su_cfg (dr_perm r)"] a Cons.prems(4)
    show ?thesis by (simp add: c'_def dr_rule_def)
  next
    case False
    have ok: "dr_ok r" using Cons.prems(2) by simp
    note n = dr_napot [OF ok False]
    have one: "range_entries (dr_base r) (BIT (dr_order r)) = 1" using n(1) by (simp add: range_entries_def)
    note p = pmp_range_set_programmed [OF hw Cons.prems(1), of "su_cfg (dr_perm r)" at "dr_base r" "BIT (dr_order r)"]
    have "rules c' [at..<at + 1] = [dr_rule r]"
      using programmed_rules [OF _ su_cfg_ok(2) n(2), of c' at] p(1) False a one n(3) by (simp add: c'_def)
    with p a one False Cons.prems(4) show ?thesis
      by (simp add: c'_def split: prod.splits)
  qed
  then have touch: "pmp_touch {at} c c'" by simp
  have tail: "at' = at + 1 + length rs \<and> rules d [at + 1..<at + 1 + length rs] = map dr_rule rs \<and>
      pmp_touch {at + 1..<at + 1 + length rs} c' d"
    using head Cons.prems pmp_touch_writable [OF touch] by (intro Cons.IH) auto
  have "rules d [at..<at + 1] = rules c' [at..<at + 1]"
    using a tail by (intro pmp_touch_rules [of "{at + 1..<at + 1 + length rs}"]) auto
  moreover have "pmp_touch {at..<at + length (r # rs)} c d"
    by (rule pmp_touch_mono [OF pmp_touch_trans [OF touch conjunct2 [OF conjunct2 [OF tail]]]]) auto
  ultimately show ?case
    using head tail rules_upt_split [of at "at + 1" "at + 1 + length rs" d] by simp
qed

lemma clear_entries_off:
  assumes hw: "pmp_hw legal"
  shows "pmp_writable c \<Longrightarrow> at + n \<le> 16 \<Longrightarrow>
    (\<forall>j. at \<le> j \<and> j < at + n \<longrightarrow> pmp_cfg (clear_entries legal at n c) j = 0) \<and>
    pmp_touch {at..<at + n} c (clear_entries legal at n c)"
proof (induction n arbitrary: at c)
  case 0
  then show ?case using pmp_touch_refl by auto
next
  case (Suc n)
  let ?c' = "pmp_entry_set legal at 0 0 c" and ?d = "clear_entries legal at (Suc n) c"
  have "at < 16" using Suc.prems by simp
  note off = pmp_entry_off [OF hw Suc.prems(1) this, of 0]
  have tail: "(\<forall>j. Suc at \<le> j \<and> j < Suc at + n \<longrightarrow> pmp_cfg ?d j = 0) \<and> pmp_touch {Suc at..<Suc at + n} ?c' ?d"
    using Suc.IH [OF pmp_touch_writable [OF off(2) Suc.prems(1)], of "Suc at"] Suc.prems by simp
  then have "same_entry ?c' ?d at"
    using \<open>at < 16\<close> by (intro pmp_touch_same [OF conjunct2 [OF tail]]) auto
  then have "pmp_cfg ?d at = 0" using off(1) by (simp add: same_entry_def)
  moreover have "pmp_touch {at..<at + Suc n} c ?d"
    by (rule pmp_touch_mono [OF pmp_touch_trans [OF off(2) conjunct2 [OF tail]]]) auto
  moreover have "pmp_cfg ?d j = 0" if "at \<noteq> j" "at \<le> j" "j < at + Suc n" for j
    using tail that by simp
  ultimately show ?case by metis
qed

section \<open>The whole layout\<close>

definition first_entry :: "features \<Rightarrow> nat" where
  "first_entry feat = (if feat HART_FEAT_SMEPMP then SMEPMP_WINDOW_ENTRIES else 0)"

lemma pmp_monitor_entries_sum:
  "pmp_monitor_entries feat mrs = first_entry feat + mrs_entries (filter (counted feat) mrs)"
proof -
  have "foldl (\<lambda>n r. if mr_kind r \<noteq> MEMREGION_SHARED_RW \<or> feat HART_FEAT_SMEPMP
                  then n + (if region_is_napot r then 1 else 2) else n) k mrs =
      k + mrs_entries (filter (counted feat) mrs)" for k
    by (induction mrs arbitrary: k) (auto simp: counted_def mr_entries_code [symmetric])
  then show ?thesis by (simp add: pmp_monitor_entries_def first_entry_def)
qed

lemma region_cfg_ok [simp]:
  "region_cfg feat k AND 0x18 = 0"
  "k \<noteq> MEMREGION_SHARED_RW \<Longrightarrow> feat HART_FEAT_SMEPMP \<longrightarrow> rlb c \<Longrightarrow> cfg_fits c (region_cfg feat k)"
  "mml c \<Longrightarrow> rlb c \<Longrightarrow> cfg_fits c (region_cfg feat k)"
  by (cases k; auto simp: region_cfg_def cfg_fits_def)+

text \<open>
  The state between two domain switches: the monitor's own regions are in
  place, the window is shut and what the PMP does not have is off.
\<close>

definition pmp_ready :: "config \<Rightarrow> features \<Rightarrow> memregion list \<Rightarrow> csrs \<Rightarrow> bool" where
  "pmp_ready cfg feat mrs c \<longleftrightarrow>
     pmp_writable c \<and> (feat HART_FEAT_SMEPMP = mml c) \<and> (feat HART_FEAT_SMEPMP \<longrightarrow> rlb c) \<and>
     laid c (own_cfg feat) (first_entry feat) (filter (counted feat) mrs) \<and>
     (\<forall>j<first_entry feat. pmp_cfg c j = 0) \<and>
     (\<forall>j. RISCV_PMP_COUNT cfg \<le> j \<and> j < 16 \<longrightarrow> pmp_cfg c j = 0)"

text \<open>The setting in which the monitor runs a domain.\<close>

definition pmp_setting :: "config \<Rightarrow> features \<Rightarrow> memregion list \<Rightarrow> domain \<Rightarrow> bool" where
  "pmp_setting cfg feat mrs dm \<longleftrightarrow>
     feat HART_FEAT_PMP \<and> RISCV_PMP_COUNT cfg \<le> 16 \<and>
     (\<forall>r\<in>set mrs. pa_ok (mr_base r) (mr_size r)) \<and> (\<forall>r\<in>set (regions dm). dr_ok r) \<and>
     pmp_monitor_entries feat mrs + length (regions dm) \<le> RISCV_PMP_COUNT cfg"

lemma laid_weaken:
  "laid c f at rs \<Longrightarrow> \<forall>r\<in>set rs. g r = None \<or> g r = f r \<Longrightarrow> laid c g at rs"
  by (induction rs arbitrary: at) (auto split: option.splits)

lemma shared_regions_set_laid:
  fixes dm :: "domain option"
  assumes hw: "pmp_hw legal" and ready: "pmp_ready cfg feat mrs c"
    and room: "pmp_monitor_entries feat mrs \<le> 16"
  defines "at \<equiv> first_entry feat"
    and "d \<equiv> shared_regions_set legal feat 4 mrs dm c"
  shows "laid d (\<lambda>r. Some (shared_perm feat mrs dm r)) at (filter (counted feat) mrs)"
    and "pmp_touch {at..<at + mrs_entries (filter (counted feat) mrs)} c d"
proof -
  let ?L = "filter (counted feat) mrs"
  have "laid d (\<lambda>r. Some (shared_perm feat mrs dm r)) at ?L \<and> pmp_touch {at..<at + mrs_entries ?L} c d"
  proof (cases "feat HART_FEAT_SMEPMP")
    case True
    then have L: "?L = mrs" by (simp add: counted_def)
    have "laid (shared_regions_loop legal feat 4 mrs dm at mrs c) (\<lambda>r. Some (shared_perm feat mrs dm r)) at mrs \<and>
        pmp_touch {at..<at + mrs_entries mrs} c (shared_regions_loop legal feat 4 mrs dm at mrs c)"
    proof (rule shared_regions_loop_laid [OF hw])
      show "laid c (own_cfg feat) at mrs" "pmp_writable c" "mml c" "rlb c"
        using ready True L by (simp_all add: pmp_ready_def at_def)
      show "at + mrs_entries mrs \<le> 16" using room L by (simp add: pmp_monitor_entries_sum at_def)
    qed (rule region_cfg_ok(3))
    then show ?thesis using True L by (simp add: d_def shared_regions_set_def at_def first_entry_def)
  next
    case False
    have own: "laid c (own_cfg feat) at ?L" using ready by (simp add: pmp_ready_def at_def)
    have "laid c (\<lambda>r. Some (shared_perm feat mrs dm r)) at ?L"
      by (rule laid_weaken [OF own]) (use False in \<open>simp add: counted_def own_cfg_def shared_perm_def\<close>)
    moreover have "d = c" using False by (simp add: d_def shared_regions_set_def)
    ultimately show ?thesis using pmp_touch_mono [OF pmp_touch_refl empty_subsetI] by simp
  qed
  then show "laid d (\<lambda>r. Some (shared_perm feat mrs dm r)) at ?L"
    "pmp_touch {at..<at + mrs_entries ?L} c d" by auto
qed

lemma shared_perm_ok [simp]: "shared_perm feat mrs dm r AND 0x18 = 0"
  by (simp add: shared_perm_def)

text \<open>The layout a domain switch leaves: rules of the memory regions, then of the domain's.\<close>

definition layout :: "features \<Rightarrow> memregion list \<Rightarrow> domain \<Rightarrow> rule list" where
  "layout feat mrs dm =
     map (\<lambda>r. range_rule (mr_base r) (mr_size r) (shared_perm feat mrs (Some dm) r))
       (filter (counted feat) mrs) @ map dr_rule (regions dm)"

lemma pmp_domain_set_layout:
  assumes hw: "pmp_hw legal" and set: "pmp_setting cfg feat mrs dm" and ready: "pmp_ready cfg feat mrs c"
  defines "d \<equiv> pmp_domain_set legal cfg feat 4 mrs dm c"
  shows "rules d [0..<16] = layout feat mrs dm" "pmp_ready cfg feat mrs d"
    "\<And>n. n \<notin> {CSR_PMPCFG0..<CSR_PMPADDR0 + 16} \<Longrightarrow> d n = c n"
proof -
  let ?L = "filter (counted feat) mrs" and ?f = "\<lambda>r. Some (shared_perm feat mrs (Some dm) r)"
  define at where "at = first_entry feat"
  define mid where "mid = at + mrs_entries ?L"
  define top where "top = mid + length (regions dm)"
  have bounds: "at \<le> mid" "mid \<le> top" "top \<le> RISCV_PMP_COUNT cfg" "RISCV_PMP_COUNT cfg \<le> 16"
    and mid: "pmp_monitor_entries feat mrs = mid"
    using set by (auto simp: pmp_setting_def mid_def top_def at_def pmp_monitor_entries_sum)
  define c1 where "c1 = shared_regions_set legal feat 4 mrs (Some dm) c"
  have m16: "pmp_monitor_entries feat mrs \<le> 16" using mid bounds by simp
  have l1: "laid c1 ?f at ?L" and t1: "pmp_touch {at..<mid} c c1"
    unfolding mid_def c1_def at_def by (rule shared_regions_set_laid [OF hw ready m16])+
  have w1: "pmp_writable c1" using pmp_touch_writable [OF t1] ready by (simp add: pmp_ready_def)
  obtain c2 at' where c2: "domain_regions_loop legal cfg 4 mid (regions dm) c1 = (c2, at')"
    by (cases "domain_regions_loop legal cfg 4 mid (regions dm) c1")
  have "at' = top \<and> rules c2 [mid..<top] = map dr_rule (regions dm) \<and> pmp_touch {mid..<top} c1 c2"
    unfolding top_def using set bounds c2 w1 unfolding top_def
    by (intro domain_regions_loop_rules [OF hw]) (auto simp: pmp_setting_def)
  then have at': "at' = top" and r2: "rules c2 [mid..<top] = map dr_rule (regions dm)"
    and t2: "pmp_touch {mid..<top} c1 c2" by auto
  have d: "d = clear_entries legal top (RISCV_PMP_COUNT cfg - top) c2"
    using set c2 at' by (simp add: d_def pmp_domain_set_def pmp_setting_def mid c1_def [symmetric])
  have cl: "(\<forall>j. top \<le> j \<and> j < RISCV_PMP_COUNT cfg \<longrightarrow> pmp_cfg d j = 0) \<and> pmp_touch {top..<RISCV_PMP_COUNT cfg} c2 d"
    using clear_entries_off [OF hw pmp_touch_writable [OF t2 w1], of top "RISCV_PMP_COUNT cfg - top"] bounds d
    by simp
  then have t3: "pmp_touch {top..<RISCV_PMP_COUNT cfg} c2 d" by simp
  have t13: "pmp_touch {mid..<RISCV_PMP_COUNT cfg} c1 d"
    by (rule pmp_touch_mono [OF pmp_touch_trans [OF t2 t3]]) (use bounds in auto)
  have t: "pmp_touch {at..<RISCV_PMP_COUNT cfg} c d"
    by (rule pmp_touch_mono [OF pmp_touch_trans [OF t1 t13]]) (use bounds in auto)
  then show "\<And>n. n \<notin> {CSR_PMPCFG0..<CSR_PMPADDR0 + 16} \<Longrightarrow> d n = c n" unfolding pmp_touch_def by blast
  have low: "same_entry c d j" if "j < at" for j
    using that bounds by (intro pmp_touch_same [OF t]) auto
  have high: "pmp_cfg d j = 0" if "top \<le> j" "j < 16" for j
  proof (cases "j < RISCV_PMP_COUNT cfg")
    case False
    then have "same_entry c d j" using that by (intro pmp_touch_same [OF t]) auto
    then show ?thesis using ready False that by (simp add: pmp_ready_def same_entry_def)
  qed (use cl that in auto)
  have ld: "laid d ?f at ?L"
    by (rule pmp_touch_laid [OF t13 l1]) (use bounds in \<open>auto simp: mid_def\<close>)
  have r0: "rules d [0..<at] = []"
    by (rule rules_off, rule entry_rule_off)
       (use low ready in \<open>auto simp: at_def pmp_ready_def same_entry_def\<close>)
  have ra: "rules d [at..<mid] = map (\<lambda>r. range_rule (mr_base r) (mr_size r) (shared_perm feat mrs (Some dm) r)) ?L"
    unfolding mid_def by (rule laid_rules [OF ld]) (use set in \<open>auto simp: pmp_setting_def\<close>)
  have rb: "rules d [mid..<top] = map dr_rule (regions dm)"
    unfolding r2 [symmetric] using bounds by (intro pmp_touch_rules [OF t3]) auto
  have rc: "rules d [top..<16] = []" by (rule rules_off, rule entry_rule_off, rule high) auto
  have s: "rules d [0..<16] = rules d [0..<at] @ rules d [at..<16]"
    "rules d [at..<16] = rules d [at..<mid] @ rules d [mid..<16]"
    "rules d [mid..<16] = rules d [mid..<top] @ rules d [top..<16]"
    by (rule rules_upt_split; use bounds in linarith)+
  show "rules d [0..<16] = layout feat mrs dm"
    unfolding s r0 ra rb rc layout_def by (simp only: append_Nil append_Nil2)
  have "laid d (own_cfg feat) at ?L"
    by (rule laid_weaken [OF ld]) (auto simp: own_cfg_def shared_perm_def)
  moreover have "mml d = mml c" "rlb d = rlb c" "pmp_writable d"
    using t ready by (simp_all add: pmp_touch_def pmp_ready_def)
  moreover have "\<forall>j<at. pmp_cfg d j = 0"
    using low ready by (simp add: pmp_ready_def same_entry_def at_def)
  ultimately show "pmp_ready cfg feat mrs d"
    using ready high bounds by (simp add: pmp_ready_def at_def)
qed

text \<open>
  mseccfg where every entry can be written: bits can be set, and the sticky ones
  (MML and MMWP) stay.
\<close>

definition mseccfg_hw :: "warl \<Rightarrow> bool" where
  "mseccfg_hw legal \<longleftrightarrow>
     (\<forall>c v. pmp_writable c \<and> c CSR_MSECCFG AND (MSECCFG_MML OR MSECCFG_MMWP) AND NOT v = 0 \<longrightarrow>
        (\<forall>k<3. bit (legal c CSR_MSECCFG v) k = bit v k))"

lemma csr_set_mseccfg:
  fixes v :: ulong
  assumes "mseccfg_hw legal" "pmp_writable c"
  defines "d \<equiv> csr_set legal CSR_MSECCFG v c"
  shows "mml d = (mml c \<or> bit v 0)" "rlb d = (rlb c \<or> bit v 2)"
    "\<And>j. j < 16 \<Longrightarrow> same_entry c d j" "pmp_writable d"
    "\<And>n. n \<noteq> CSR_MSECCFG \<Longrightarrow> d n = c n"
proof -
  have "c CSR_MSECCFG AND (MSECCFG_MML OR MSECCFG_MMWP) AND NOT (c CSR_MSECCFG OR v) = 0"
    by (rule bit_eqI) (auto simp: bit_and_iff bit_or_iff bit_not_iff)
  then have "\<forall>k<3. bit (legal c CSR_MSECCFG (c CSR_MSECCFG OR v)) k = bit (c CSR_MSECCFG OR v) k"
    using assms(1,2) unfolding mseccfg_hw_def by blast
  then have b: "bit (d CSR_MSECCFG) 0 = (bit (c CSR_MSECCFG) 0 \<or> bit v 0)"
    "bit (d CSR_MSECCFG) 2 = (bit (c CSR_MSECCFG) 2 \<or> bit v 2)"
    by (auto simp: d_def csr_defs bit_or_iff)
  show o: "\<And>n. n \<noteq> CSR_MSECCFG \<Longrightarrow> d n = c n" by (simp add: d_def csr_defs)
  show m: "mml d = (mml c \<or> bit v 0)" and r: "rlb d = (rlb c \<or> bit v 2)" using b by (simp_all add: mml_def rlb_def)
  show same: "same_entry c d k" if "k < 16" for k
    using that o [of "CSR_PMPCFG0 + k div 8 * 2"] o [of "CSR_PMPADDR0 + k"]
    by (simp add: same_entry_def pmp_cfg_def pmp_addr_def)
  then show "pmp_writable d"
    using assms(2) m r by (auto simp: pmp_writable_def cfg_fits_def same_entry_def)
qed

lemma pmp_hart_init_ready:
  assumes hw: "pmp_hw legal" "mseccfg_hw legal" and set: "pmp_setting cfg feat mrs dm"
    and wr: "pmp_writable c" and off: "\<forall>j. RISCV_PMP_COUNT cfg \<le> j \<and> j < 16 \<longrightarrow> pmp_cfg c j = 0"
    and nmml: "\<not> mml c" and two: "2 \<le> RISCV_PMP_COUNT cfg"
    and loop: "monitor_regions_loop legal cfg feat 4 (first_entry feat) mrs
      (if feat HART_FEAT_SMEPMP then pmp_entry_set legal 1 0 0 (pmp_entry_set legal 0 0 0
         (csr_set legal CSR_MSECCFG MSECCFG_RLB c)) else c) = Inr c2"
  shows "pmp_ready cfg feat mrs (if feat HART_FEAT_SMEPMP
      then csr_set legal CSR_MSECCFG (MSECCFG_MML OR MSECCFG_MMWP) c2 else c2)"
proof -
  let ?L = "filter (counted feat) mrs"
  define c1 where "c1 = (if feat HART_FEAT_SMEPMP then pmp_entry_set legal 1 0 0 (pmp_entry_set legal 0 0 0
         (csr_set legal CSR_MSECCFG MSECCFG_RLB c)) else c)"
  have cnt: "RISCV_PMP_COUNT cfg \<le> 16" using set by (simp add: pmp_setting_def)
  have one: "pmp_writable c1 \<and> \<not> mml c1 \<and> (feat HART_FEAT_SMEPMP \<longrightarrow> rlb c1) \<and>
      (\<forall>j<first_entry feat. pmp_cfg c1 j = 0) \<and> (\<forall>j. RISCV_PMP_COUNT cfg \<le> j \<and> j < 16 \<longrightarrow> pmp_cfg c1 j = 0)"
  proof (cases "feat HART_FEAT_SMEPMP")
    case True
    let ?r = "csr_set legal CSR_MSECCFG MSECCFG_RLB c" 
    note r = csr_set_mseccfg [OF hw(2) wr, where v = MSECCFG_RLB]
    note a = pmp_entry_off [OF hw(1) r(4), of 0 0]
    note b = pmp_entry_off [OF hw(1) pmp_touch_writable [OF a(2) r(4)], of 1 0]
    have c1: "c1 = pmp_entry_set legal 1 0 0 (pmp_entry_set legal 0 0 0 ?r)" using True by (simp add: c1_def)
    have t: "pmp_touch {0, 1} ?r c1" unfolding c1
      by (rule pmp_touch_mono [OF pmp_touch_trans [OF a(2) b(2)]]) auto
    have "same_entry (pmp_entry_set legal 0 0 0 ?r) c1 0"
      unfolding c1 by (rule pmp_touch_same [OF b(2)]) auto
    then have z: "pmp_cfg c1 0 = 0" "pmp_cfg c1 1 = 0"
      using a(1) b(1) by (simp_all add: same_entry_def c1)
    have "pmp_cfg c1 j = 0" if "RISCV_PMP_COUNT cfg \<le> j" "j < 16" for j
      using that two off r(3) [OF that(2)] pmp_touch_same [OF t that(2)] by (auto simp: same_entry_def)
    moreover have "mml ?r = mml c" "rlb ?r" using r(1,2) by simp_all
    moreover have "mml c1 = mml ?r" "rlb c1 = rlb ?r" "pmp_writable c1"
      using t r(4) by (simp_all add: pmp_touch_def)
    ultimately show ?thesis
      using z nmml True by (auto simp: first_entry_def less_2_cases_iff)
  qed (use wr nmml off in \<open>auto simp: c1_def first_entry_def\<close>)
  have "laid c2 (own_cfg feat) (first_entry feat) ?L \<and>
      pmp_touch {first_entry feat..<first_entry feat + mrs_entries ?L} c1 c2 \<and>
      first_entry feat + mrs_entries ?L \<le> RISCV_PMP_COUNT cfg"
    by (rule monitor_regions_loop_laid [OF hw(1) cnt loop [folded c1_def]])
       (use one two in \<open>auto simp: first_entry_def\<close>)
  then have l2: "laid c2 (own_cfg feat) (first_entry feat) ?L"
    and t2: "pmp_touch {first_entry feat..<first_entry feat + mrs_entries ?L} c1 c2"
    and m2: "first_entry feat + mrs_entries ?L \<le> RISCV_PMP_COUNT cfg" by auto
  have w2: "pmp_writable c2" "mml c2 = mml c1" "rlb c2 = rlb c1"
    using one t2 by (auto simp: pmp_touch_def)
  have o2: "pmp_cfg c2 j = 0" if "j < first_entry feat \<or> RISCV_PMP_COUNT cfg \<le> j" "j < 16" for j
    using that one m2 pmp_touch_same [OF t2 that(2)] by (auto simp: same_entry_def)
  have f16: "first_entry feat \<le> 16" by (simp add: first_entry_def)
  show ?thesis
  proof (cases "feat HART_FEAT_SMEPMP")
    case True
    note s = csr_set_mseccfg [OF hw(2) w2(1), where v = "MSECCFG_MML OR MSECCFG_MMWP"]
    have "laid (csr_set legal CSR_MSECCFG (MSECCFG_MML OR MSECCFG_MMWP) c2) (own_cfg feat) (first_entry feat) ?L"
      by (rule laid_cong [OF l2], rule s(3)) (use m2 cnt in auto)
    with True s w2 one o2 f16 show ?thesis by (auto simp: pmp_ready_def same_entry_def)
  next
    case False
    with l2 w2 one o2 f16 show ?thesis by (auto simp: pmp_ready_def)
  qed
qed

section \<open>Reading the layout\<close>

lemma rules_deny:
  assumes "a \<le> m" "m \<le> b"
    and "\<And>lo hi cfg. (lo, hi, cfg) \<in> set xs \<Longrightarrow> p cfg \<Longrightarrow> m < lo \<or> hi < m"
    and "(l, h, k) \<in> set xs" "l \<le> m" "m \<le> h"
  shows "\<not> rules_decide (xs @ ys) a b p"
  using assms(3,4)
proof (induction xs)
  case (Cons r xs)
  obtain lo hi cfg where r: "r = (lo, hi, cfg)" by (cases r)
  show ?case
  proof (cases "b < lo \<or> hi < a")
    case True
    then have "(l, h, k) \<in> set xs" using Cons.prems(2) assms r by auto
    then show ?thesis using Cons r True by auto
  next
    case False
    then show ?thesis using Cons.prems(1) [of lo hi cfg] r assms(1,2) by auto
  qed
qed simp

lemma bit_A_su:
  "su_allows m acc (PMP_A_NAPOT OR perm) = su_allows m acc perm"
  "su_allows m acc (PMP_A_TOR OR perm) = su_allows m acc perm"
  using bit_A [of 0 perm] bit_A [of 1 perm] bit_A [of 2 perm] bit_A [of 7 perm]
  by (simp_all add: su_allows_def Let_def)

lemma region_cfg_su:
  "k \<noteq> MEMREGION_SHARED_RW \<Longrightarrow> feat HART_FEAT_SMEPMP = m \<Longrightarrow> \<not> su_allows m acc (region_cfg feat k)"
  "feat HART_FEAT_SMEPMP \<Longrightarrow> m \<Longrightarrow>
   su_allows m acc (region_cfg feat MEMREGION_SHARED_RW) = (acc \<noteq> Acc_Exec)"
  by (cases k; cases acc; auto simp: region_cfg_def su_allows_def)+

lemma su_cfg_su:
  "su_allows m acc (su_cfg perm) =
     (case acc of Acc_Read \<Rightarrow> bit perm 3 | Acc_Write \<Rightarrow> bit perm 3 \<and> bit perm 4 | Acc_Exec \<Rightarrow> bit perm 5)"
proof -
  have b: "(drop_bit 3 perm AND 1 = 0) = (\<not> bit perm 3)" "(drop_bit 3 perm AND 2 = 0) = (\<not> bit perm 4)"
    "(drop_bit 3 perm AND 4 = 0) = (\<not> bit perm 5)"
    using and_exp_eq_0_iff_not_bit [of "drop_bit 3 perm" 0] and_exp_eq_0_iff_not_bit [of "drop_bit 3 perm" 1]
      and_exp_eq_0_iff_not_bit [of "drop_bit 3 perm" 2]
    by (simp_all add: bit_drop_bit_eq)
  show ?thesis
    by (cases "bit perm 3"; cases "bit perm 4"; cases "bit perm 5"; cases acc)
       (simp_all add: su_cfg_def b su_allows_def)
qed

definition word_aligned :: "memregion \<Rightarrow> bool" where
  "word_aligned r \<longleftrightarrow> 4 dvd unat (mr_base r) \<and> 4 dvd unat (mr_size r)"

lemma range_rule_aligned:
  assumes "word_aligned r"
  shows "range_rule (mr_base r) (mr_size r) perm =
    (unat (mr_base r), unat (mr_base r) + unat (mr_size r) - 1,
     (if napot_ok (mr_base r) (mr_size r) then PMP_A_NAPOT else PMP_A_TOR) OR perm)"
proof -
  obtain q s where qs: "unat (mr_base r) = 4 * q" "unat (mr_size r) = 4 * s"
    using assms by (auto simp: word_aligned_def elim!: dvdE)
  have "(4 * q + 4 * s + 3) div 4 * 4 = 4 * q + 4 * s" by arith
  then show ?thesis by (simp add: range_rule_def qs)
qed

lemma pa_ok_wf: "pa_ok (mr_base r) (mr_size r) \<Longrightarrow> mr_wf r \<and> mr_size r \<noteq> 0"
  by (auto simp: pa_ok_def mr_wf_def range_fits_def split: if_splits)

lemma smode_range_ok_clear:
  assumes "smode_range_ok mrs dm addr sz" "sz \<noteq> 0" "\<forall>r\<in>set mrs. mr_wf r"
  shows "range_bytes addr sz \<inter> monitor_bytes mrs = {}"
  using assms monitor_range_clear_sound [OF assms(3), of addr sz]
  by (auto simp: smode_range_ok_def domain_range_ok_def Let_def split: if_splits)

lemma layout_denies:
  assumes set: "pmp_setting cfg feat mrs dm" and al: "\<forall>r\<in>set mrs. word_aligned r"
    and m: "m \<in> monitor_bytes mrs" "a \<le> m" "m \<le> b"
  shows "\<not> rules_decide (layout feat mrs dm) a b (su_allows (feat HART_FEAT_SMEPMP) acc)"
proof -
  have pa: "\<And>r. r \<in> set mrs \<Longrightarrow> pa_ok (mr_base r) (mr_size r)" using set by (simp add: pmp_setting_def)
  obtain r where r: "r \<in> set mrs" "mr_kind r \<noteq> MEMREGION_SHARED_RW" "m \<in> mr_bytes r"
    using m(1) by (auto simp: monitor_bytes_def)
  let ?xs = "map (\<lambda>r. range_rule (mr_base r) (mr_size r) (shared_perm feat mrs (Some dm) r)) (filter (counted feat) mrs)"
  have deny: "m < lo \<or> hi < m"
    if in_xs: "(lo, hi, k) \<in> set ?xs" and ok: "su_allows (feat HART_FEAT_SMEPMP) acc k" for lo hi k
  proof -
    from in_xs obtain s where s: "s \<in> set mrs" "counted feat s"
      "(lo, hi, k) = range_rule (mr_base s) (mr_size s) (shared_perm feat mrs (Some dm) s)" by auto
    have rule: "lo = unat (mr_base s)" "hi = unat (mr_base s) + unat (mr_size s) - 1"
      "su_allows (feat HART_FEAT_SMEPMP) acc (shared_perm feat mrs (Some dm) s)"
      using s(3) al s(1) ok by (auto simp: range_rule_aligned bit_A_su split: if_splits)
    have "smode_range_ok mrs (Some dm) (mr_base s) (mr_size s)"
      using rule(3) region_cfg_su(1) [of _ feat "feat HART_FEAT_SMEPMP" acc]
      by (auto simp: shared_perm_def split: if_splits)
    then have "range_bytes (mr_base s) (mr_size s) \<inter> monitor_bytes mrs = {}"
      using smode_range_ok_clear pa pa_ok_wf s(1) by blast
    then have "m \<notin> range_bytes (mr_base s) (mr_size s)" using m(1) by blast
    moreover have "0 < unat (mr_size s)" using pa [OF s(1)] by (simp add: pa_ok_def unat_gt_0)
    ultimately show ?thesis using rule(1,2) by (simp add: range_bytes_def) linarith
  qed
  have "(unat (mr_base r), unat (mr_base r) + unat (mr_size r) - 1,
      (if napot_ok (mr_base r) (mr_size r) then PMP_A_NAPOT else PMP_A_TOR) OR shared_perm feat mrs (Some dm) r) \<in> set ?xs"
    using r al by (auto simp: counted_def image_iff range_rule_aligned intro!: bexI [of _ r])
  from rules_deny [OF m(2,3) deny this] r(3) show ?thesis
    unfolding layout_def by (auto simp: mr_bytes_def range_bytes_def)
qed

text \<open>The permission bits an access asks a domain's region for, as the callers of the check do.\<close>

definition acc_perm :: "access \<Rightarrow> ulong" where
  "acc_perm acc = (case acc of Acc_Read \<Rightarrow> DOMAIN_PERM_SU_R
     | Acc_Write \<Rightarrow> DOMAIN_PERM_SU_R OR DOMAIN_PERM_SU_W | Acc_Exec \<Rightarrow> DOMAIN_PERM_SU_X)"

lemma mask_subset: "perm AND m = m \<longleftrightarrow> (\<forall>n. bit m n \<longrightarrow> bit (perm :: ulong) n)"
proof
  assume "perm AND m = m"
  then show "\<forall>n. bit m n \<longrightarrow> bit perm n" by (metis bit_and_iff)
qed (auto intro: bit_eqI simp: bit_and_iff)

lemma acc_perm_iff: "perm AND acc_perm acc = acc_perm acc \<longleftrightarrow> su_allows m acc (su_cfg perm)"
proof -
  have b: "bit (0x08::ulong) n \<longleftrightarrow> n = 3" "bit (0x10::ulong) n \<longleftrightarrow> n = 4" "bit (0x20::ulong) n \<longleftrightarrow> n = 5" for n
    using bit_exp_iff [of 3 n, where ?'a = "64 word"] bit_exp_iff [of 4 n, where ?'a = "64 word"]
      bit_exp_iff [of 5 n, where ?'a = "64 word"] by auto
  show ?thesis
    unfolding mask_subset su_cfg_su acc_perm_def by (cases acc) (auto simp only: access.case bit_or_iff b)
qed

lemma region_last_unat:
  assumes "dr_ok r" "\<not> dr_order r \<ge> RISCV_XLEN"
  shows "unat (region_last r) = unat (dr_base r) + 2 ^ dr_order r - 1"
proof -
  have o: "dr_order r < 64" "unat (dr_base r) + 2 ^ dr_order r \<le> 2 ^ 56"
    using assms by (auto simp: dr_ok_def)
  have u: "unat (BIT (dr_order r)) = 2 ^ dr_order r" using o(1) by (rule unat_BIT)
  have s: "unat (dr_base r + BIT (dr_order r)) = unat (dr_base r) + 2 ^ dr_order r"
    using o(2) u by (simp add: unat_plus_if')
  then have "1 \<le> dr_base r + BIT (dr_order r)" by (simp add: word_le_nat_alt Suc_le_eq)
  then show ?thesis using assms(2) s by (simp add: region_last_def unat_sub)
qed

text \<open>The loop over the domain's regions and the hardware's over their rules decide alike.\<close>

lemma regions_check_rules:
  assumes "\<forall>r\<in>set rs. dr_ok r" "unat addr \<le> unat lst" "unat lst < 2 ^ 57"
  shows "regions_check rs addr lst (acc_perm acc) =
         rules_decide (map dr_rule rs) (unat addr) (unat lst) (su_allows m acc)"
  using assms(1)
proof (induction rs)
  case (Cons r rs)
  show ?case
  proof (cases "dr_order r \<ge> RISCV_XLEN")
    case True
    then have "dr_base r = 0" using Cons.prems by (simp add: dr_ok_def)
    moreover have "\<not> addr > region_last r" using True by (simp add: region_last_def)
    moreover have "lst \<le> region_last r" using True by (simp add: region_last_def)
    ultimately show ?thesis
      using True assms(2,3) by (simp add: dr_rule_def bit_A_su acc_perm_iff)
  next
    case False
    then have "unat (region_last r) = unat (dr_base r) + 2 ^ dr_order r - 1"
      using Cons.prems by (intro region_last_unat) auto
    with False Cons show ?thesis
      by (simp add: dr_rule_def word_less_nat_alt word_le_nat_alt bit_A_su acc_perm_iff [where m = m])
  qed
qed simp

lemma layout_misses:
  assumes set: "pmp_setting cfg feat mrs dm" and al: "\<forall>r\<in>set mrs. word_aligned r"
    and clear: "{a..b} \<inter> monitor_bytes mrs = {}"
    and shared: "feat HART_FEAT_SMEPMP \<Longrightarrow> {a..b} \<inter> kind_bytes MEMREGION_SHARED_RW mrs = {}"
    and "a \<le> b"
  shows "rules_decide (layout feat mrs dm) a b p = rules_decide (map dr_rule (regions dm)) a b p"
  unfolding layout_def
proof (rule rules_decide_append_miss)
  fix lo hi k
  assume "(lo, hi, k) \<in> set (map (\<lambda>r. range_rule (mr_base r) (mr_size r) (shared_perm feat mrs (Some dm) r))
            (filter (counted feat) mrs))"
  then obtain r where r: "r \<in> set mrs" "counted feat r"
    "(lo, hi, k) = range_rule (mr_base r) (mr_size r) (shared_perm feat mrs (Some dm) r)" by auto
  have "{a..b} \<inter> mr_bytes r = {}"
    using r(1,2) clear shared unfolding counted_def monitor_bytes_def kind_bytes_def by blast
  moreover have "lo = unat (mr_base r)" "hi = unat (mr_base r) + unat (mr_size r) - 1"
    using r(3) al r(1) by (auto simp: range_rule_aligned)
  moreover have "0 < unat (mr_size r)"
    using set r(1) by (auto simp: pmp_setting_def pa_ok_def unat_gt_0)
  ultimately show "b < lo \<or> hi < a"
    using interval_apart [of a b "unat (mr_base r)" "unat (mr_size r)"] \<open>a \<le> b\<close>
    by (simp add: mr_bytes_def range_bytes_def)
qed

section \<open>Properties\<close>

text \<open>
  C1. Isolation of the monitor. When \<^const>\<open>pmp_hart_init\<close> returns on a hart with a PMP,
  with or without Smepmp, no S- or U-mode access that has a byte of a region that
  is the monitor's alone gets through, whatever the domain's own regions and the
  devices shared with S-mode say.
\<close>

theorem hart_init_isolates_monitor:
  assumes "pmp_hw legal" "mseccfg_hw legal" "pmp_setting cfg feat mrs dm" "2 \<le> RISCV_PMP_COUNT cfg"
    and "pmp_writable c" "\<forall>j. RISCV_PMP_COUNT cfg \<le> j \<and> j < 16 \<longrightarrow> pmp_cfg c j = 0" "\<not> mml c"
    and "\<forall>r\<in>set mrs. word_aligned r"
    and "pmp_hart_init legal cfg feat 4 mrs dm c = Inr d"
    and "m \<in> monitor_bytes mrs" "a \<le> m" "m \<le> b"
  shows "\<not> pmp_su_ok d acc a b"
proof -
  let ?c1 = "if feat HART_FEAT_SMEPMP then pmp_entry_set legal 1 0 0 (pmp_entry_set legal 0 0 0
         (csr_set legal CSR_MSECCFG MSECCFG_RLB c)) else c"
  have "csr_read CSR_MSECCFG c AND MSECCFG_MML = 0"
    using assms(7) by (simp add: mml_def csr_read_def and_one_eq bit_0 odd_iff_mod_2_eq_one)
  with assms(9) assms(3) obtain c2 where
    loop: "monitor_regions_loop legal cfg feat 4 (first_entry feat) mrs ?c1 = Inr c2"
    and d: "d = pmp_domain_set legal cfg feat 4 mrs dm (if feat HART_FEAT_SMEPMP
        then csr_set legal CSR_MSECCFG (MSECCFG_MML OR MSECCFG_MMWP) c2 else c2)"
    by (auto simp: pmp_hart_init_def pmp_setting_def first_entry_def Let_def split: if_splits sum.splits)
  note ready = pmp_hart_init_ready [OF assms(1-3,5-7,4) loop]
  note lay = pmp_domain_set_layout [OF assms(1,3) ready, folded d]
  have "mml d = feat HART_FEAT_SMEPMP" using lay(2) by (simp add: pmp_ready_def)
  then show ?thesis
    unfolding pmp_su_ok_def lay(1) using layout_denies [OF assms(3,8,10-12)] by simp
qed

text \<open>
  C2. What the hardware allows is what the check allows. After a domain switch an
  S/U-mode access to a range of physical memory passes the PMP exactly when
  \<^const>\<open>domain_range_ok\<close> accepts the range for the domain that now runs; under Smepmp,
  for ranges that keep clear of the devices the monitor shares with S-mode, which
  have rules of their own.
\<close>

theorem domain_switch_agrees_with_check:
  assumes "pmp_hw legal" "pmp_setting cfg feat mrs dm" "pmp_ready cfg feat mrs c"
    and "\<forall>r\<in>set mrs. word_aligned r"
    and "sz \<noteq> 0" "unat addr + unat sz \<le> 2 ^ 56"
    and "feat HART_FEAT_SMEPMP \<Longrightarrow> range_bytes addr sz \<inter> kind_bytes MEMREGION_SHARED_RW mrs = {}"
  shows "pmp_su_ok (pmp_domain_set legal cfg feat 4 mrs dm c) acc (unat addr) (unat addr + unat sz - 1) =
         domain_range_ok mrs (Some dm) addr sz (acc_perm acc)"
proof -
  let ?d = "pmp_domain_set legal cfg feat 4 mrs dm c" and ?b = "unat addr + unat sz - 1"
  note lay = pmp_domain_set_layout [OF assms(1-3)]
  have mml: "mml ?d = feat HART_FEAT_SMEPMP" using lay(2) by (simp add: pmp_ready_def)
  have s0: "0 < unat sz" using assms(5) by (simp add: unat_gt_0)
  have lst: "unat (addr + sz - 1) = ?b"
  proof -
    have e: "unat (addr + sz) = unat addr + unat sz" using assms(6) by (simp add: unat_plus_if')
    then have "1 \<le> addr + sz" using s0 by (simp add: word_le_nat_alt)
    then show ?thesis by (simp add: unat_sub e)
  qed
  have iv: "range_bytes addr sz = {unat addr..?b}" using s0 by (auto simp: range_bytes_def)
  have pa: "\<And>r. r \<in> set mrs \<Longrightarrow> pa_ok (mr_base r) (mr_size r)"
    and dr: "\<forall>r\<in>set (regions dm). dr_ok r" using assms(2) by (auto simp: pmp_setting_def)
  have clear: "monitor_range_clear mrs addr sz \<longleftrightarrow> range_bytes addr sz \<inter> monitor_bytes mrs = {}"
    using monitor_range_clear_iff [of mrs sz addr] pa pa_ok_wf assms(5,6) by (auto simp: range_fits_def)
  have nw: "\<not> addr + sz - 1 < addr" using s0 by (simp add: word_less_nat_alt lst)
  show ?thesis
  proof (cases "range_bytes addr sz \<inter> monitor_bytes mrs = {}")
    case True
    have "rules_decide (layout feat mrs dm) (unat addr) ?b (su_allows (mml ?d) acc) =
        rules_decide (map dr_rule (regions dm)) (unat addr) ?b (su_allows (mml ?d) acc)"
      using True assms(7) s0 unfolding iv by (intro layout_misses [OF assms(2,4)]) auto
    also have "\<dots> = regions_check (regions dm) addr (addr + sz - 1) (acc_perm acc)"
      using regions_check_rules [OF dr, of addr "addr + sz - 1" acc "mml ?d"] assms(6) s0 by (simp add: lst)
    finally show ?thesis
      unfolding pmp_su_ok_def lay(1) using True clear nw assms(5) by (simp add: domain_range_ok_def)
  next
    case False
    then obtain m where "m \<in> monitor_bytes mrs" "unat addr \<le> m" "m \<le> ?b" unfolding iv by auto
    then have "\<not> pmp_su_ok ?d acc (unat addr) ?b"
      unfolding pmp_su_ok_def lay(1) mml by (rule layout_denies [OF assms(2,4)])
    then show ?thesis using False clear assms(5) by (simp add: domain_range_ok_def)
  qed
qed

text \<open>
  C3. A domain switch leaves nothing of the domain before. Whatever rules the
  entries after the monitor's held, \<^const>\<open>pmp_domain_set\<close> leaves exactly the rules of
  the memory regions and of the new domain's regions, smallest first, and a state
  from which the next switch works the same way; it touches no other register.
\<close>

theorem domain_switch_replaces_rules:
  assumes "pmp_hw legal" "pmp_setting cfg feat mrs dm" "pmp_ready cfg feat mrs c"
  shows "rules (pmp_domain_set legal cfg feat 4 mrs dm c) [0..<16] = layout feat mrs dm \<and>
         pmp_ready cfg feat mrs (pmp_domain_set legal cfg feat 4 mrs dm c) \<and>
         (\<forall>n. n \<notin> {CSR_PMPCFG0..<CSR_PMPADDR0 + 16} \<longrightarrow>
              pmp_domain_set legal cfg feat 4 mrs dm c n = c n)"
  using pmp_domain_set_layout [OF assms] by blast

section \<open>A concrete machine\<close>

text \<open>
  Registers that keep what is written to them (pmpaddr: 54 bits of it), one
  monitor region of 256 KiB, the root domain.
\<close>

definition plain_warl :: warl where
  "plain_warl c n v = (if CSR_PMPADDR0 \<le> n \<and> n < CSR_PMPADDR0 + 16 then take_bit 54 v else v)"

definition demo_config :: config where
  "demo_config = \<lparr>PLATFORM_HART_COUNT = 4, RISCV_PMP_COUNT = 16, MONITOR_SIZE = 0x40000,
     INSECURE_NO_PMP = False, SBI_DBTR_MAX_TRIGGERS = 8, MPXY_SSE_EVENTS = 4,
     image_start = 0x80000000, text_rodata_end = 0x80020000\<rparr>"

definition demo_features :: "bool \<Rightarrow> features" where
  "demo_features smepmp f = (f = HART_FEAT_PMP \<or> (f = HART_FEAT_SMEPMP \<and> smepmp))"

definition demo_regions :: "memregion list" where
  "demo_regions = [\<lparr>mr_base = 0x80000000, mr_size = 0x40000, mr_kind = MEMREGION_MMODE_RW\<rparr>]"

definition demo_domain :: domain where
  "demo_domain = (zero_domain demo_config)\<lparr>max_regions := 1, regions :=
     [\<lparr>dr_base = 0, dr_order = 64, dr_perm = DOMAIN_PERM_SU_RWX, dr_mmio = False\<rparr>]\<rparr>"

lemma plain_warl_hw: "pmp_hw plain_warl" "mseccfg_hw plain_warl"
  by (auto simp: pmp_hw_def mseccfg_hw_def plain_warl_def)

lemma demo_setting: "pmp_setting demo_config (demo_features s) demo_regions demo_domain"
  by (auto simp: pmp_setting_def demo_features_def demo_config_def demo_regions_def demo_domain_def
      pa_ok_def napot_ok_def dr_ok_def pmp_monitor_entries_def region_is_napot_def
      IS_POWER_OF_TWO_def IS_ALIGNED_def zero_domain_def)

lemma demo_reset: "pmp_writable (\<lambda>n. 0)" "pmp_cfg (\<lambda>n. 0) j = 0" "\<not> mml (\<lambda>n. 0)"
  by (auto simp: pmp_writable_def pmp_cfg_def cfg_lane_def mml_def)

lemma demo_aligned: "\<forall>r\<in>set demo_regions. word_aligned r"
  by (simp add: demo_regions_def word_aligned_def)

lemma demo_monitor: "m \<in> {0x80000000..<0x80040000} \<Longrightarrow> m \<in> monitor_bytes demo_regions"
  by (simp add: monitor_bytes_def demo_regions_def mr_bytes_def range_bytes_def)

lemma demo_init: "\<exists>d. pmp_hart_init plain_warl demo_config (demo_features s) 4 demo_regions demo_domain (\<lambda>n. 0) = Inr d"
  by (simp add: pmp_hart_init_def demo_features_def demo_regions_def demo_config_def Let_def csr_read_def)

theorem hart_init_isolates_monitor_witness:
  "\<exists>d. pmp_hart_init plain_warl demo_config (demo_features True) 4 demo_regions demo_domain (\<lambda>n. 0) = Inr d \<and>
       \<not> pmp_su_ok d Acc_Write 0x8003fff8 0x8003ffff"
proof -
  from demo_init [of True] obtain d where
    d: "pmp_hart_init plain_warl demo_config (demo_features True) 4 demo_regions demo_domain (\<lambda>n. 0) = Inr d" ..
  have "2 \<le> RISCV_PMP_COUNT demo_config" by (simp add: demo_config_def)
  from hart_init_isolates_monitor [OF plain_warl_hw demo_setting this demo_reset(1) _ demo_reset(3)
      demo_aligned d demo_monitor, where m = "0x8003fff8" and a = "0x8003fff8" and b = "0x8003ffff"] d
  show ?thesis by (auto simp: demo_reset)
qed

lemma demo_ready: "\<exists>c. pmp_ready demo_config (demo_features s) demo_regions c"
proof -
  have "\<exists>c2. monitor_regions_loop plain_warl demo_config (demo_features s) 4 (first_entry (demo_features s))
      demo_regions c = Inr c2" for c
    by (simp add: demo_features_def demo_regions_def demo_config_def Let_def first_entry_def)
  moreover have "2 \<le> RISCV_PMP_COUNT demo_config" by (simp add: demo_config_def)
  ultimately show ?thesis
    using pmp_hart_init_ready [OF plain_warl_hw demo_setting demo_reset(1) _ demo_reset(3)] demo_reset(2) by blast
qed

theorem domain_switch_agrees_with_check_witness:
  "\<exists>c. pmp_su_ok (pmp_domain_set plain_warl demo_config (demo_features False) 4 demo_regions demo_domain c)
         Acc_Exec 0x80200000 0x80200003 \<and>
       \<not> pmp_su_ok (pmp_domain_set plain_warl demo_config (demo_features False) 4 demo_regions demo_domain c)
         Acc_Exec 0x8003fffe 0x80040001"
proof -
  from demo_ready [of False] obtain c where c: "pmp_ready demo_config (demo_features False) demo_regions c" ..
  note agree = domain_switch_agrees_with_check [OF plain_warl_hw(1) demo_setting c demo_aligned,
      where sz = 4 and acc = Acc_Exec]
  have "domain_range_ok demo_regions (Some demo_domain) 0x80200000 4 (acc_perm Acc_Exec)"
    "\<not> domain_range_ok demo_regions (Some demo_domain) 0x8003fffe 4 (acc_perm Acc_Exec)"
    by code_simp+
  then show ?thesis
    using agree [where addr = "0x80200000"] agree [where addr = "0x8003fffe"]
    by (auto simp: demo_features_def)
qed

theorem domain_switch_replaces_rules_witness:
  "\<exists>c. rules (pmp_domain_set plain_warl demo_config (demo_features True) 4 demo_regions demo_domain c) [0..<16] =
         [(0x80000000, 0x8003ffff, 0x9b), (0, 2 ^ 57 - 1, 0x1f)]"
proof -
  from demo_ready [of True] obtain c where c: "pmp_ready demo_config (demo_features True) demo_regions c" ..
  have "layout (demo_features True) demo_regions demo_domain = [(0x80000000, 0x8003ffff, 0x9b), (0, 2 ^ 57 - 1, 0x1f)]"
    by (simp add: layout_def demo_regions_def demo_domain_def counted_def shared_perm_def region_cfg_def
        range_rule_def napot_ok_def IS_POWER_OF_TWO_def IS_ALIGNED_def dr_rule_def su_cfg_def demo_features_def)
  with conjunct1 [OF domain_switch_replaces_rules [OF plain_warl_hw(1) demo_setting c]]
  show ?thesis by (intro exI [of _ c]) (rule trans)
qed

section \<open>The window on S-mode memory\<close>

lemma entry_rule_not_tor:
  assumes "same_entry c d j" "pmp_cfg c j AND 0x18 \<noteq> PMP_A_TOR"
  shows "entry_rule d j = entry_rule c j"
  using assms by (simp add: entry_rule_def entry_range_def same_entry_def Let_def)

lemma laid_first_not_tor:
  assumes "laid c (own_cfg feat) at (filter (counted feat) mrs)" "\<exists>r\<in>set mrs. mr_kind r \<noteq> MEMREGION_SHARED_RW"
    and "mr_kind (hd mrs) \<noteq> MEMREGION_SHARED_RW"
  shows "pmp_cfg c at AND 0x18 \<noteq> PMP_A_TOR"
proof -
  obtain r rs where m: "mrs = r # rs" using assms(2) by (cases mrs) auto
  then have "own_cfg feat r = Some (region_cfg feat (mr_kind r))" "counted feat r"
    using assms(3) by (auto simp: own_cfg_def counted_def)
  then have "programmed c at (mr_base r) (mr_size r) (region_cfg feat (mr_kind r))"
    using assms(1) m by simp
  then show ?thesis
    using cfg_A_field(1) [of "region_cfg feat (mr_kind r)"] by (auto simp: programmed_def split: if_splits)
qed

lemma window_touch:
  assumes hw: "pmp_hw legal" and ready: "pmp_ready cfg feat mrs c"
    and ok: "smode_access_begin legal feat 4 mrs addr sz c = Inr (w, c1)"
    and fin: "smode_access_end legal feat w c1 = (w', c2)"
  shows "(feat HART_FEAT_SMEPMP \<longrightarrow> pmp_cfg c2 0 = 0 \<and> pmp_cfg c2 1 = 0) \<and>
         (\<not> feat HART_FEAT_SMEPMP \<longrightarrow> c2 = c) \<and> pmp_touch {0, 1} c c2 \<and> snd w' = 0"
proof (cases "feat HART_FEAT_SMEPMP")
  case False
  then show ?thesis using ok fin pmp_touch_mono [OF pmp_touch_refl, of "{0, 1}" c]
    by (auto simp: smode_access_begin_def smode_access_end_def split: if_splits)
next
  case True
  have wr: "pmp_writable c" and mr: "mml c" "rlb c" and z: "pmp_cfg c 0 = 0" 
    using ready True by (auto simp: pmp_ready_def first_entry_def)
  have c1: "pmp_touch {0, 1} c c1 \<and> pmp_cfg c1 0 = 0"
  proof (cases "sz = 0")
    case sz0: True
    then show ?thesis using ok z pmp_touch_mono [OF pmp_touch_refl, of "{0, 1}" c]
      by (auto simp: smode_access_begin_def split: if_splits)
  next
    case False
    let ?e = "pmp_entry_set legal 0 (drop_bit 2 addr) 0 c"
    note a = pmp_entry_off [OF hw wr, of 0 "drop_bit 2 addr"]
    have fit: "cfg_fits ?e (PMP_A_TOR OR PMP_W OR PMP_X)"
      using mr a(2) by (simp add: cfg_fits_def pmp_touch_def)
    have "c1 = pmp_entry_set legal 1 (drop_bit 2 (ROUNDUP2 (addr + sz) 4)) (PMP_A_TOR OR PMP_W OR PMP_X) ?e"
      using ok True False by (auto simp: smode_access_begin_def split: if_splits)
    with pmp_entry_set_put [OF hw pmp_touch_writable [OF a(2) wr] _ fit, of 1]
    have "entry_put 1 (take_bit 54 (drop_bit 2 (ROUNDUP2 (addr + sz) 4))) (PMP_A_TOR OR PMP_W OR PMP_X) ?e c1"
      by simp
    from entry_put_touch [OF this fit] have t: "pmp_touch {1} ?e c1" .
    have "same_entry ?e c1 0" by (rule pmp_touch_same [OF t]) auto
    moreover have "pmp_touch {0, 1} c c1" by (rule pmp_touch_mono [OF pmp_touch_trans [OF a(2) t]]) auto
    ultimately show ?thesis using a(1) by (simp add: same_entry_def)
  qed
  have c2: "c2 = pmpcfg_update legal 1 0 c1" and w': "snd w' = 0"
    using fin True by (auto simp: smode_access_end_def pmp_entry_cfg_def)
  have put: "entry_put 1 (pmp_addr c1 1) 0 c1 c2"
    unfolding c2 using hw pmp_touch_writable [OF conjunct1 [OF c1] wr] by (rule pmpcfg_update_put) simp_all
  then have t2: "pmp_touch {1} c1 c2" by (rule entry_put_touch) simp
  have "pmp_touch {0, 1} c c2" by (rule pmp_touch_mono [OF pmp_touch_trans [OF conjunct1 [OF c1] t2]]) auto
  with put c1 True w' show ?thesis by (simp add: entry_put_def)
qed

text \<open>
  C4. The window shuts behind itself. From a hart set up with the monitor's own
  region in the first place, opening a window on S-mode memory and closing it
  leaves the rules as they were, and no window.
\<close>

theorem window_round_trip:
  assumes "pmp_hw legal" "pmp_ready cfg feat mrs c" "mrs \<noteq> []" "mr_kind (hd mrs) \<noteq> MEMREGION_SHARED_RW"
    and "smode_access_begin legal feat 4 mrs addr sz c = Inr (w, c1)"
    and "smode_access_end legal feat w c1 = (w', c2)"
  shows "rules c2 [0..<16] = rules c [0..<16] \<and> snd w' = 0"
proof (rule conjI)
  note t = window_touch [OF assms(1,2,5,6)]
  then show "snd w' = 0" by blast
  show "rules c2 [0..<16] = rules c [0..<16]"
  proof (rule rules_cong)
    fix j :: nat assume "j \<in> set [0..<16]"
    then have j: "j < 16" by simp
    show "entry_rule c2 j = entry_rule c j"
    proof (cases "feat HART_FEAT_SMEPMP")
      case True
      have z: "pmp_cfg c k = 0" if "k < 2" for k
        using assms(2) True that by (simp add: pmp_ready_def first_entry_def)
      have "pmp_cfg c 2 AND 0x18 \<noteq> PMP_A_TOR"
        using assms(2-4) True
        by (intro laid_first_not_tor [of c feat 2 mrs]) (auto simp: pmp_ready_def first_entry_def intro: hd_in_set)
      then have two: "entry_rule c2 2 = entry_rule c 2"
        using t by (intro entry_rule_not_tor pmp_touch_same [of "{0, 1}"]) auto
      have "entry_rule c2 j = entry_rule c j" if "j > 2"
        using t that j by (intro entry_rule_cong pmp_touch_same [of "{0, 1}"]) auto
      moreover have "entry_rule c2 j = entry_rule c j" if "j < 2"
        using that t True z [of j] by (auto simp: entry_rule_off less_2_cases_iff)
      ultimately show ?thesis using two by (metis linorder_neqE_nat)
    qed (use t in simp)
  qed
qed

theorem window_round_trip_witness:
  "\<exists>c w c1 w' c2. smode_access_begin plain_warl (demo_features True) 4 demo_regions 0x80200000 64 c = Inr (w, c1) \<and>
     smode_access_end plain_warl (demo_features True) w c1 = (w', c2) \<and> rules c2 [0..<16] = rules c [0..<16]"
proof -
  from demo_ready [of True] obtain c where c: "pmp_ready demo_config (demo_features True) demo_regions c" ..
  obtain w c1 where b: "smode_access_begin plain_warl (demo_features True) 4 demo_regions 0x80200000 64 c = Inr (w, c1)"
    by (simp add: smode_access_begin_def demo_regions_def monitor_range_clear_def)
  obtain w' c2 where e: "smode_access_end plain_warl (demo_features True) w c1 = (w', c2)"
    by (cases "smode_access_end plain_warl (demo_features True) w c1")
  have "demo_regions \<noteq> []" "mr_kind (hd demo_regions) \<noteq> MEMREGION_SHARED_RW" by (simp_all add: demo_regions_def)
  from conjunct1 [OF window_round_trip [OF plain_warl_hw(1) c this b e]] b e show ?thesis by blast
qed

end
