(* ===== verification/Machine.thy ===== *)
theory Machine
  imports Protection
begin

text \<open>
  What is fixed once the monitor has booted, in one record: the configuration, what a
  CSR write leaves behind, the features of the harts, the grain of the protection unit
  and the memory regions. Operations that read or write memory of S-mode do so in the
  window of \<open>Protection\<close>; \<open>with_window\<close> is the bracket they put around the access.
\<close>

record monitor =
  m_cfg :: config
  m_legal :: warl
  m_feat :: features
  m_grain :: ulong
  m_regions :: "memregion list"

definition with_window ::
  "'m monitor_scheme \<Rightarrow> ulong \<Rightarrow> ulong \<Rightarrow> (csrs \<Rightarrow> 'a \<times> csrs) \<Rightarrow> csrs \<Rightarrow> panic + ('a \<times> csrs)" where
  "with_window m addr sz f c =
     (case smode_access_begin (m_legal m) (m_feat m) (m_grain m) (m_regions m) addr sz c of
        Inl p \<Rightarrow> Inl p
      | Inr (w, c1) \<Rightarrow>
          let (r, c2) = f c1 in Inr (r, snd (smode_access_end (m_legal m) (m_feat m) w c2)))"

text \<open>Registers that are none of the protection unit's.\<close>

definition pmp_csr :: "nat \<Rightarrow> bool" where
  "pmp_csr n \<longleftrightarrow> CSR_PMPCFG0 \<le> n \<and> n < CSR_PMPADDR0 + 16"

lemma csr_write_plain_other: "k \<noteq> n \<Longrightarrow> k \<noteq> CSR_MIE \<Longrightarrow> k \<noteq> CSR_MIP \<Longrightarrow> csr_write legal n v c k = c k"
  by (simp add: csr_write_def)

lemma csr_set_other: "k \<noteq> n \<Longrightarrow> k \<noteq> CSR_MIE \<Longrightarrow> k \<noteq> CSR_MIP \<Longrightarrow> csr_set legal n v c k = c k"
  by (simp add: csr_set_def csr_write_plain_other)

lemma csr_clear_other: "k \<noteq> n \<Longrightarrow> k \<noteq> CSR_MIE \<Longrightarrow> k \<noteq> CSR_MIP \<Longrightarrow> csr_clear legal n v c k = c k"
  by (simp add: csr_clear_def csr_write_plain_other)

lemma csr_write_pmp_other: "pmp_csr n \<Longrightarrow> \<not> pmp_csr k \<Longrightarrow> csr_write legal n v c k = c k"
  by (auto simp: csr_write_def pmp_csr_def)

lemma pmpcfg_update_other: "i < 16 \<Longrightarrow> \<not> pmp_csr k \<Longrightarrow> pmpcfg_update legal i cfg c k = c k"
  unfolding pmpcfg_update_def Let_def csr_set_def csr_clear_def
  by (auto simp: csr_write_pmp_other pmp_csr_def)

lemma pmpaddr_write_other: "i < 16 \<Longrightarrow> \<not> pmp_csr k \<Longrightarrow> pmpaddr_write legal i a c k = c k"
  unfolding pmpaddr_write_def by (auto intro!: csr_write_pmp_other simp: pmp_csr_def)

lemma pmp_entry_set_other: "i < 16 \<Longrightarrow> \<not> pmp_csr k \<Longrightarrow> pmp_entry_set legal i a cfg c k = c k"
  by (simp add: pmp_entry_set_def pmpcfg_update_other pmpaddr_write_other)

lemma smode_access_begin_other:
  "smode_access_begin legal feat g mrs addr sz c = Inr (w, c1) \<Longrightarrow> \<not> pmp_csr k \<Longrightarrow> c1 k = c k"
  by (auto simp: smode_access_begin_def pmp_entry_set_other split: if_splits)

lemma smode_access_end_other: "\<not> pmp_csr k \<Longrightarrow> snd (smode_access_end legal feat w c) k = c k"
  by (simp add: smode_access_end_def pmp_entry_cfg_def pmpcfg_update_other)

text \<open>The window does not show in the registers of the services.\<close>

lemma with_window_Inr:
  assumes "with_window m addr sz f c = Inr (r, d)"
  obtains c1 c2 where "f c1 = (r, c2)" "\<And>k. \<not> pmp_csr k \<Longrightarrow> c1 k = c k" "\<And>k. \<not> pmp_csr k \<Longrightarrow> d k = c2 k"
proof -
  obtain w c1 where b: "smode_access_begin (m_legal m) (m_feat m) (m_grain m) (m_regions m) addr sz c = Inr (w, c1)"
    using assms by (auto simp: with_window_def split: sum.splits)
  obtain r' c2 where f: "f c1 = (r', c2)" by force
  have "r' = r" "d = snd (smode_access_end (m_legal m) (m_feat m) w c2)"
    using assms b f by (auto simp: with_window_def Let_def)
  then show ?thesis using that [of c1 c2] b f smode_access_begin_other [OF b] smode_access_end_other by simp
qed

text \<open>A range that was found to be S-mode's can always be opened.\<close>

lemma with_window_ok:
  assumes "domain_range_ok (m_regions m) dm addr sz perm"
  shows "\<exists>r d. with_window m addr sz f c = Inr (r, d)"
  using assms
  by (auto simp: with_window_def smode_access_begin_def domain_range_ok_def Let_def split: if_splits prod.splits)

end
