(* ===== verification/Pmu.thy ===== *)
theory Pmu
  imports Machine
begin

text \<open>
  Performance monitoring (\<^verbatim>\<open>arch/riscv/runtime/pmu.c\<close>): the machine counters handed out
  to S-mode and the firmware counters. \<open>pmu\<close> is what the boot found, \<open>pmu_hart\<close> the slot
  of the running domain on a hart; the counters, their selectors and the inhibit bits are
  CSRs of the hart. The snapshot page and the event table are S-mode memory, given as
  their contents.
\<close>

abbreviation CSR_MCOUNTINHIBIT :: nat where "CSR_MCOUNTINHIBIT \<equiv> 0x320"
abbreviation CSR_MCYCLECFG :: nat where "CSR_MCYCLECFG \<equiv> 0x321"
abbreviation CSR_MINSTRETCFG :: nat where "CSR_MINSTRETCFG \<equiv> 0x322"
abbreviation CSR_MHPMEVENT0 :: nat where "CSR_MHPMEVENT0 \<equiv> 0x320"
abbreviation CSR_MCYCLE :: nat where "CSR_MCYCLE \<equiv> 0xb00"
abbreviation IRQ_PMU_OVF :: nat where "IRQ_PMU_OVF \<equiv> 13"
abbreviation HPMEVENT_OF_BIT :: nat where "HPMEVENT_OF_BIT \<equiv> 63"
abbreviation HPMEVENT_MINH_BIT :: nat where "HPMEVENT_MINH_BIT \<equiv> 62"
abbreviation HPMEVENT_SINH_BIT :: nat where "HPMEVENT_SINH_BIT \<equiv> 61"
abbreviation HPMEVENT_UINH_BIT :: nat where "HPMEVENT_UINH_BIT \<equiv> 60"
abbreviation HPMEVENT_VSINH_BIT :: nat where "HPMEVENT_VSINH_BIT \<equiv> 59"
abbreviation HPMEVENT_VUINH_BIT :: nat where "HPMEVENT_VUINH_BIT \<equiv> 58"
abbreviation PMU_HW_COUNTERS :: nat where "PMU_HW_COUNTERS \<equiv> 32"
abbreviation PMU_FW_COUNTERS :: nat where "PMU_FW_COUNTERS \<equiv> 16"
abbreviation PMU_FW_FIRST :: nat where "PMU_FW_FIRST \<equiv> 32"
abbreviation PMU_COUNTERS :: nat where "PMU_COUNTERS \<equiv> 48"
abbreviation SBI_PMU_EVENT_TYPE_HW_RAW :: u32 where "SBI_PMU_EVENT_TYPE_HW_RAW \<equiv> 2"
abbreviation SBI_PMU_EVENT_TYPE_FW :: u32 where "SBI_PMU_EVENT_TYPE_FW \<equiv> 15"
abbreviation SBI_PMU_HW_CPU_CYCLES :: u32 where "SBI_PMU_HW_CPU_CYCLES \<equiv> 1"
abbreviation SBI_PMU_HW_INSTRUCTIONS :: u32 where "SBI_PMU_HW_INSTRUCTIONS \<equiv> 2"
abbreviation SBI_PMU_FW_MAX :: u32 where "SBI_PMU_FW_MAX \<equiv> 22"
abbreviation SBI_PMU_CFG_FLAG_SKIP_MATCH :: nat where "SBI_PMU_CFG_FLAG_SKIP_MATCH \<equiv> 0"
abbreviation SBI_PMU_CFG_FLAG_CLEAR_VALUE :: nat where "SBI_PMU_CFG_FLAG_CLEAR_VALUE \<equiv> 1"
abbreviation SBI_PMU_CFG_FLAG_AUTO_START :: nat where "SBI_PMU_CFG_FLAG_AUTO_START \<equiv> 2"
abbreviation SBI_PMU_CFG_FLAG_SET_VUINH :: nat where "SBI_PMU_CFG_FLAG_SET_VUINH \<equiv> 3"
abbreviation SBI_PMU_CFG_FLAG_SET_VSINH :: nat where "SBI_PMU_CFG_FLAG_SET_VSINH \<equiv> 4"
abbreviation SBI_PMU_CFG_FLAG_SET_UINH :: nat where "SBI_PMU_CFG_FLAG_SET_UINH \<equiv> 5"
abbreviation SBI_PMU_CFG_FLAG_SET_SINH :: nat where "SBI_PMU_CFG_FLAG_SET_SINH \<equiv> 6"
abbreviation SBI_PMU_START_FLAG_SET_INIT_VALUE :: nat where "SBI_PMU_START_FLAG_SET_INIT_VALUE \<equiv> 0"
abbreviation SBI_PMU_START_FLAG_INIT_SNAPSHOT :: nat where "SBI_PMU_START_FLAG_INIT_SNAPSHOT \<equiv> 1"
abbreviation SBI_PMU_STOP_FLAG_RESET :: nat where "SBI_PMU_STOP_FLAG_RESET \<equiv> 0"
abbreviation SBI_PMU_STOP_FLAG_TAKE_SNAPSHOT :: nat where "SBI_PMU_STOP_FLAG_TAKE_SNAPSHOT \<equiv> 1"
abbreviation MAX_EVENT_RANGES :: nat where "MAX_EVENT_RANGES \<equiv> 32"
abbreviation MAX_EVENT_SELECTS :: nat where "MAX_EVENT_SELECTS \<equiv> 64"
abbreviation MAX_RAW_EVENTS :: nat where "MAX_RAW_EVENTS \<equiv> 16"
abbreviation SNAPSHOT_NONE :: ulong where "SNAPSHOT_NONE \<equiv> - 1"
abbreviation SNAPSHOT_SIZE :: ulong where "SNAPSHOT_SIZE \<equiv> 4096"
abbreviation SNAPSHOT_VALUES :: nat where "SNAPSHOT_VALUES \<equiv> 64"
abbreviation EVENT_NONE :: u32 where "EVENT_NONE \<equiv> - 1"

section \<open>State\<close>

definition EVENT_TYPE :: "u32 \<Rightarrow> u32" where
  "EVENT_TYPE idx = drop_bit 16 idx AND 0xf"

definition EVENT_CODE :: "u32 \<Rightarrow> u32" where
  "EVENT_CODE idx = idx AND 0xffff"

definition RAW_EVENT_MASK :: ulong where
  "RAW_EVENT_MASK = 0xffffffffffff"

record event_range =
  er_first :: u32
  er_last :: u32
  er_counters :: u32

record event_select =
  es_event_idx :: u32
  es_select :: ulong

record raw_event =
  re_select :: ulong
  re_mask :: ulong
  re_counters :: u32

text \<open>The tables the boot hart fills in.\<close>

record pmu =
  ranges :: "event_range list"
  selects :: "event_select list"
  raw_events :: "raw_event list"
  hw_counters :: u32
  have_inhibit :: bool

record pmu_snapshot =
  overflow_bitmap :: ulong
  snap_values :: "ulong list"

text \<open>The hardware side of a slot, while the hart runs another domain.\<close>

record pmu_saved =
  hs_inhibit :: ulong
  irq_enabled :: ulong
  irq_delegated :: ulong
  irq_pending :: ulong
  hs_value :: "ulong list"
  hs_select :: "ulong list"

record pmu_hart =
  snapshot :: ulong
  sse_enabled :: bool
  sse_saved_ie :: bool
  pmu_event :: "u32 list"
  fw_started :: u32
  fw_value :: "ulong list"
  pmu_hw :: pmu_saved

section \<open>Bits\<close>

function count_bits :: "u32 \<Rightarrow> nat" where
  "count_bits v = (if v = 0 then 0 else Suc (count_bits (v AND (v - 1))))"
  by pat_completeness auto

lemma and_pred_less:
  assumes "(v :: u32) \<noteq> 0"
  shows "unat (v AND (v - 1)) < unat v"
proof -
  have "unat (v AND (v - 1)) \<le> unat (v - 1)"
    using word_and_le1 [of v "v - 1"] by (simp add: word_le_nat_alt)
  also have "\<dots> < unat v" using assms by (simp add: unat_minus_one unat_gt_0)
  finally show ?thesis .
qed

termination count_bits
  by (relation "measure unat") (simp_all add: and_pred_less)

declare count_bits.simps [simp del]

text \<open>The loop that looks for the lowest bit has no end when there is none.\<close>

partial_function (option) lowest_bit_loop :: "ulong \<Rightarrow> nat \<Rightarrow> nat option" where
  "lowest_bit_loop v n = (if \<not> bit v 0 then lowest_bit_loop (drop_bit 1 v) (n + 1) else Some n)"

definition lowest_bit :: "ulong \<Rightarrow> nat option" where
  "lowest_bit v = lowest_bit_loop v 0"

section \<open>CSR access by counter number\<close>

definition mcounter_read :: "nat \<Rightarrow> csrs \<Rightarrow> ulong" where
  "mcounter_read n c = (if n = 0 \<or> 2 \<le> n \<and> n \<le> 31 then csr_read (CSR_MCYCLE + n) c else 0)"

definition mcounter_write :: "warl \<Rightarrow> nat \<Rightarrow> ulong \<Rightarrow> csrs \<Rightarrow> csrs" where
  "mcounter_write legal n val c =
     (if n = 0 \<or> 2 \<le> n \<and> n \<le> 31 then csr_write legal (CSR_MCYCLE + n) val c else c)"

definition mhpmevent_read :: "nat \<Rightarrow> csrs \<Rightarrow> ulong" where
  "mhpmevent_read n c = (if 3 \<le> n \<and> n \<le> 31 then csr_read (CSR_MHPMEVENT0 + n) c else 0)"

definition mhpmevent_write :: "warl \<Rightarrow> nat \<Rightarrow> ulong \<Rightarrow> csrs \<Rightarrow> csrs" where
  "mhpmevent_write legal n val c =
     (if 3 \<le> n \<and> n \<le> 31 then csr_write legal (CSR_MHPMEVENT0 + n) val c else c)"

definition hw_counter_write :: "warl \<Rightarrow> nat \<Rightarrow> ulong \<Rightarrow> csrs \<Rightarrow> csrs" where
  "hw_counter_write legal n val c = mcounter_write legal n val c"

definition hw_counter_read :: "nat \<Rightarrow> csrs \<Rightarrow> ulong" where
  "hw_counter_read n c = mcounter_read n c"

definition FILTER_BITS :: ulong where
  "FILTER_BITS = push_bit HPMEVENT_VUINH_BIT 0x1f"

definition fixed_cfg_read :: "nat \<Rightarrow> csrs \<Rightarrow> ulong" where
  "fixed_cfg_read n c = (if n \<noteq> 0 then csr_read CSR_MINSTRETCFG c else csr_read CSR_MCYCLECFG c)"

definition fixed_cfg_write :: "warl \<Rightarrow> nat \<Rightarrow> ulong \<Rightarrow> csrs \<Rightarrow> csrs" where
  "fixed_cfg_write legal n val c =
     (if n \<noteq> 0 then csr_write legal CSR_MINSTRETCFG (val AND FILTER_BITS) c
      else csr_write legal CSR_MCYCLECFG (val AND FILTER_BITS) c)"

definition hw_event_read :: "features \<Rightarrow> nat \<Rightarrow> csrs \<Rightarrow> ulong" where
  "hw_event_read feat n c =
     (if n < 3 then if feat HART_FEAT_SMCNTRPMF \<and> n \<noteq> 1 then fixed_cfg_read n c else 0
      else mhpmevent_read n c)"

definition hw_event_write :: "warl \<Rightarrow> features \<Rightarrow> nat \<Rightarrow> ulong \<Rightarrow> csrs \<Rightarrow> csrs" where
  "hw_event_write legal feat n val c =
     (if n < 3 then if feat HART_FEAT_SMCNTRPMF \<and> n \<noteq> 1 then fixed_cfg_write legal n val c else c
      else mhpmevent_write legal n val c)"

definition hw_counter_running :: "nat \<Rightarrow> csrs \<Rightarrow> bool" where
  "hw_counter_running n c \<longleftrightarrow> csr_read CSR_MCOUNTINHIBIT c AND BIT n = 0"

section \<open>Discovery at boot\<close>

definition add_range :: "u32 \<Rightarrow> u32 \<Rightarrow> u32 \<Rightarrow> event_range list \<Rightarrow> event_range list" where
  "add_range first lst counters rs =
     (if length rs = MAX_EVENT_RANGES \<or> first > lst then rs
      else rs @ [\<lparr>er_first = first, er_last = lst, er_counters = counters\<rparr>])"

fun parse_ranges :: "u32 list \<Rightarrow> event_range list \<Rightarrow> event_range list" where
  "parse_ranges (a # b # k # p) rs = parse_ranges p (add_range a b k rs)"
| "parse_ranges _ rs = rs"

fun parse_selects :: "u32 list \<Rightarrow> event_select list \<Rightarrow> event_select list" where
  "parse_selects (i # hi # lo # p) ss =
     (if length ss < MAX_EVENT_SELECTS
      then parse_selects p (ss @ [\<lparr>es_event_idx = i, es_select = reg_pair_to_64 hi lo\<rparr>]) else ss)"
| "parse_selects _ ss = ss"

fun parse_raws :: "u32 list \<Rightarrow> raw_event list \<Rightarrow> raw_event list" where
  "parse_raws (sh # sl # mh # ml # k # p) rs =
     (if length rs < MAX_RAW_EVENTS
      then parse_raws p (rs @ [\<lparr>re_select = reg_pair_to_64 sh sl, re_mask = reg_pair_to_64 mh ml,
                                re_counters = k\<rparr>]) else rs)"
| "parse_raws _ rs = rs"

text \<open>
  \<open>node\<close> is the tree and its node compatible with "riscv,pmu", None where there is no
  valid tree or no such node.
\<close>

definition pmu_parse_fdt :: "(fdt \<times> int) option \<Rightarrow> pmu \<Rightarrow> pmu" where
  "pmu_parse_fdt node u =
     (case node of
        None \<Rightarrow> u
      | Some (t, n) \<Rightarrow>
          let cells = (\<lambda>nm. case fdt_getprop t n nm of None \<Rightarrow> [] | Some p \<Rightarrow> p) in
          u\<lparr>ranges := parse_ranges (cells ''riscv,event-to-mhpmcounters'') (ranges u),
            selects := parse_selects (cells ''riscv,event-to-mhpmevent'') (selects u),
            raw_events := parse_raws (cells ''riscv,raw-event-to-mhpmcounters'') (raw_events u)\<rparr>)"

text \<open>One turn of the probe loop; \<open>traps n\<close>: an access to CSR \<open>n\<close> raises an exception.\<close>

definition probe_counter :: "warl \<Rightarrow> (nat \<Rightarrow> bool) \<Rightarrow> nat \<Rightarrow> u32 \<times> csrs \<Rightarrow> u32 \<times> csrs" where
  "probe_counter legal traps n s =
     (let (hwc, c) = s in
      if traps (CSR_MCYCLE + n) then (hwc, c)
      else let c1 = mcounter_write legal n 1 c;
               val = mcounter_read n c1;
               c2 = mcounter_write legal n 0 c1
           in (if val \<noteq> 0 then hwc OR push_bit n 1 else hwc, c2))"

definition pmu_init ::
  "warl \<Rightarrow> (nat \<Rightarrow> bool) \<Rightarrow> (fdt \<times> int) option \<Rightarrow> csrs \<Rightarrow> pmu \<times> csrs" where
  "pmu_init legal traps node c =
     (let inh = \<not> traps CSR_MCOUNTINHIBIT;
          (hwc, c1) = (if inh then fold (probe_counter legal traps) [3..<PMU_HW_COUNTERS] (0x5, c)
                       else (0, c));
          u = pmu_parse_fdt node \<lparr>ranges = [], selects = [], raw_events = [], hw_counters = hwc, have_inhibit = inh\<rparr>;
          u = (if ranges u = []
               then u\<lparr>ranges := add_range SBI_PMU_HW_INSTRUCTIONS SBI_PMU_HW_INSTRUCTIONS 0x4
                                  (add_range SBI_PMU_HW_CPU_CYCLES SBI_PMU_HW_CPU_CYCLES 0x1 (ranges u))\<rparr>
               else u)
      in (u, c1))"

section \<open>Harts and domain switches\<close>

definition pmu_hart_init :: "warl \<Rightarrow> features \<Rightarrow> pmu \<Rightarrow> pmu_hart \<Rightarrow> csrs \<Rightarrow> pmu_hart \<times> csrs" where
  "pmu_hart_init legal feat u p c =
     (let p1 = p\<lparr>pmu_event := replicate PMU_COUNTERS EVENT_NONE, fw_started := 0,
                 snapshot := SNAPSHOT_NONE, sse_enabled := False\<rparr>
      in if \<not> have_inhibit u then (p1, c)
         else let c1 = csr_write legal CSR_MCOUNTINHIBIT (ucast (hw_counters u) AND NOT (BIT 0 OR BIT 2)) c;
                  c2 = fold (\<lambda>n c. if bit (hw_counters u) n then hw_event_write legal feat n 0 c else c)
                         [3..<PMU_HW_COUNTERS] c1;
                  c3 = hw_event_write legal feat 0 (BIT HPMEVENT_MINH_BIT) c2;
                  c4 = hw_event_write legal feat 2 (BIT HPMEVENT_MINH_BIT) c3
              in (p1, c4))"

definition save_one :: "features \<Rightarrow> pmu \<Rightarrow> csrs \<Rightarrow> nat \<Rightarrow> pmu_saved \<Rightarrow> pmu_saved" where
  "save_one feat u c n h =
     (if \<not> bit (hw_counters u) n then h
      else h\<lparr>hs_value := (hs_value h)[n := hw_counter_read n c],
             hs_select := (hs_select h)[n := hw_event_read feat n c]\<rparr>)"

definition pmu_hart_switch_out :: "warl \<Rightarrow> features \<Rightarrow> pmu \<Rightarrow> pmu_hart \<Rightarrow> csrs \<Rightarrow> pmu_hart \<times> csrs" where
  "pmu_hart_switch_out legal feat u p c =
     (let (p1, c1) =
            (if feat HART_FEAT_SSCOFPMF
             then (p\<lparr>pmu_hw := (pmu_hw p)\<lparr>irq_enabled := csr_read CSR_MIE c AND BIT IRQ_PMU_OVF,
                       irq_delegated := csr_read CSR_MIDELEG c AND BIT IRQ_PMU_OVF,
                       irq_pending := csr_read CSR_MIP c AND BIT IRQ_PMU_OVF\<rparr>\<rparr>,
                   csr_clear legal CSR_MIE (BIT IRQ_PMU_OVF) c)
             else (p, c))
      in if \<not> have_inhibit u then (p1, c1)
         else let h = (pmu_hw p1)\<lparr>hs_inhibit := csr_read CSR_MCOUNTINHIBIT c1\<rparr>;
                  c2 = csr_write legal CSR_MCOUNTINHIBIT (ucast (hw_counters u)) c1
              in (p1\<lparr>pmu_hw := fold (save_one feat u c2) [0..<PMU_HW_COUNTERS] h\<rparr>, c2))"

definition restore_one :: "warl \<Rightarrow> features \<Rightarrow> pmu \<Rightarrow> pmu_saved \<Rightarrow> nat \<Rightarrow> csrs \<Rightarrow> csrs" where
  "restore_one legal feat u h n c =
     (if \<not> bit (hw_counters u) n then c
      else hw_counter_write legal n (hs_value h ! n) (hw_event_write legal feat n (hs_select h ! n) c))"

definition fresh_saved :: "pmu \<Rightarrow> pmu_saved" where
  "fresh_saved u = \<lparr>hs_inhibit = ucast (hw_counters u) AND NOT (BIT 0 OR BIT 2),
     irq_enabled = 0, irq_delegated = BIT IRQ_PMU_OVF, irq_pending = 0,
     hs_value = replicate PMU_HW_COUNTERS 0,
     hs_select = (replicate PMU_HW_COUNTERS 0)[0 := BIT HPMEVENT_MINH_BIT, 2 := BIT HPMEVENT_MINH_BIT]\<rparr>"

definition pmu_hart_switch_in :: "warl \<Rightarrow> features \<Rightarrow> pmu \<Rightarrow> bool \<Rightarrow> pmu_hart \<Rightarrow> csrs \<Rightarrow> pmu_hart \<times> csrs" where
  "pmu_hart_switch_in legal feat u fresh p c =
     (let (p1, c1) = (if fresh then pmu_hart_init legal feat u (p\<lparr>pmu_hw := fresh_saved u\<rparr>) c else (p, c));
          h = pmu_hw p1;
          c2 = (if have_inhibit u
                then csr_write legal CSR_MCOUNTINHIBIT (hs_inhibit h)
                       (fold (restore_one legal feat u h) [0..<PMU_HW_COUNTERS]
                         (csr_write legal CSR_MCOUNTINHIBIT (ucast (hw_counters u)) c1))
                else c1);
          c3 = (if feat HART_FEAT_SSCOFPMF
                then csr_set legal CSR_MIE (irq_enabled h)
                      (csr_set legal CSR_MIP (irq_pending h)
                       (csr_clear legal CSR_MIP (BIT IRQ_PMU_OVF)
                        (csr_set legal CSR_MIDELEG (irq_delegated h)
                         (csr_clear legal CSR_MIDELEG (BIT IRQ_PMU_OVF)
                          (csr_clear legal CSR_MIE (BIT IRQ_PMU_OVF) c2)))))
                else c2)
      in (p1, c3))"

section \<open>Firmware counters\<close>

definition pmu_fw_event :: "u32 \<Rightarrow> pmu_hart \<Rightarrow> pmu_hart" where
  "pmu_fw_event ev p =
     (let idx = push_bit 16 SBI_PMU_EVENT_TYPE_FW OR ev in
      if fw_started p = 0 then p
      else fold (\<lambda>i p. if bit (fw_started p) i \<and> pmu_event p ! (PMU_FW_FIRST + i) = idx
                       then p\<lparr>fw_value := (fw_value p)[i := fw_value p ! i + 1]\<rparr> else p)
             [0..<PMU_FW_COUNTERS] p)"

section \<open>SBI semantics\<close>

definition counter_exists :: "pmu \<Rightarrow> ulong \<Rightarrow> bool" where
  "counter_exists u idx =
     (if idx \<ge> of_nat PMU_COUNTERS then False
      else idx \<ge> of_nat PMU_FW_FIRST \<or> bit (hw_counters u) (unat idx))"

definition counter_set_ok :: "pmu \<Rightarrow> ulong \<Rightarrow> ulong \<Rightarrow> bool" where
  "counter_set_ok u base msk \<longleftrightarrow>
     msk \<noteq> 0 \<and>
     list_all (\<lambda>i. \<not> (bit msk i \<and> (base + of_nat i < base \<or> \<not> counter_exists u (base + of_nat i)))) [0..<64]"

definition pmu_counter_info :: "pmu \<Rightarrow> ulong \<Rightarrow> sbi \<times> ulong" where
  "pmu_counter_info u idx =
     (if \<not> counter_exists u idx then (SBI_ERR_INVALID_PARAM, 0)
      else (SBI_SUCCESS, if idx \<ge> of_nat PMU_FW_FIRST then BIT 63
                         else (0xc00 + idx) OR push_bit 12 (64 - 1)))"

text \<open>The counters that can count an event, and the selector for it.\<close>

definition hw_event_lookup :: "pmu \<Rightarrow> u32 \<Rightarrow> ulong \<Rightarrow> u32 \<times> ulong" where
  "hw_event_lookup u event_idx data =
     (if EVENT_TYPE event_idx = SBI_PMU_EVENT_TYPE_HW_RAW then
        let data = data AND RAW_EVENT_MASK in
        case find (\<lambda>r. data AND re_mask r = re_select r) (raw_events u) of
          None \<Rightarrow> (0, 0)
        | Some r \<Rightarrow> (re_counters r, data)
      else
        let select = (case find (\<lambda>s. es_event_idx s = event_idx) (rev (selects u)) of
                        None \<Rightarrow> ucast event_idx | Some s \<Rightarrow> es_select s) in
        case find (\<lambda>r. event_idx \<ge> er_first r \<and> event_idx \<le> er_last r) (ranges u) of
          None \<Rightarrow> (0, select)
        | Some r \<Rightarrow> (er_counters r, select))"

definition inhibit_bits :: "ulong \<Rightarrow> ulong" where
  "inhibit_bits flags =
     BIT HPMEVENT_MINH_BIT OR
     (if bit flags SBI_PMU_CFG_FLAG_SET_SINH then BIT HPMEVENT_SINH_BIT else 0) OR
     (if bit flags SBI_PMU_CFG_FLAG_SET_UINH then BIT HPMEVENT_UINH_BIT else 0) OR
     (if bit flags SBI_PMU_CFG_FLAG_SET_VSINH then BIT HPMEVENT_VSINH_BIT else 0) OR
     (if bit flags SBI_PMU_CFG_FLAG_SET_VUINH then BIT HPMEVENT_VUINH_BIT else 0)"

definition counter_start_one ::
  "warl \<Rightarrow> features \<Rightarrow> nat \<Rightarrow> pmu_hart \<Rightarrow> csrs \<Rightarrow> pmu_hart \<times> csrs" where
  "counter_start_one legal feat idx p c =
     (if idx \<ge> PMU_FW_FIRST
      then (p\<lparr>fw_started := fw_started p OR push_bit (idx - PMU_FW_FIRST) 1\<rparr>, c)
      else (p, csr_clear legal CSR_MCOUNTINHIBIT (BIT idx)
                 (if feat HART_FEAT_SSCOFPMF \<and> idx \<ge> 3
                  then hw_event_write legal feat idx (hw_event_read feat idx c AND NOT (BIT HPMEVENT_OF_BIT)) c
                  else c)))"

text \<open>
  The choice of the counter: the one named, or the first free one that can count.
  \<open>lowest_bit\<close> returns, the mask is not zero.
\<close>

definition config_pick :: "pmu_hart \<Rightarrow> ulong \<Rightarrow> ulong \<Rightarrow> ulong \<Rightarrow> bool \<Rightarrow> u32 \<Rightarrow> sbi + nat" where
  "config_pick p base msk flags fw candidates =
     (if bit flags SBI_PMU_CFG_FLAG_SKIP_MATCH then
        (case lowest_bit msk of
           None \<Rightarrow> Inl SBI_ERR_INVALID_PARAM
         | Some l \<Rightarrow>
             let k = unat (base + of_nat l) in
             if pmu_event p ! k = EVENT_NONE \<or> fw \<noteq> (k \<ge> PMU_FW_FIRST) then Inl SBI_ERR_INVALID_PARAM
             else Inr k)
      else
        case find (\<lambda>i. bit msk i \<and>
                     (let n = unat (base + of_nat i) in
                      pmu_event p ! n = EVENT_NONE \<and>
                      (if fw then n \<ge> PMU_FW_FIRST else n < PMU_FW_FIRST \<and> bit candidates n))) [0..<64] of
          None \<Rightarrow> Inl SBI_ERR_NOT_SUPPORTED
        | Some i \<Rightarrow> Inr (unat (base + of_nat i)))"

definition config_apply ::
  "warl \<Rightarrow> features \<Rightarrow> nat \<Rightarrow> ulong \<Rightarrow> u32 \<Rightarrow> bool \<Rightarrow> ulong \<Rightarrow> pmu_hart \<Rightarrow> csrs \<Rightarrow> pmu_hart \<times> csrs" where
  "config_apply legal feat k flags ev fw select p c =
     (let p = p\<lparr>pmu_event := (pmu_event p)[k := ev]\<rparr> in
      if fw then
        (if bit flags SBI_PMU_CFG_FLAG_CLEAR_VALUE
         then p\<lparr>fw_value := (fw_value p)[k - PMU_FW_FIRST := 0]\<rparr> else p, c)
      else
        let c1 = csr_set legal CSR_MCOUNTINHIBIT (BIT k) c;
            select = (if feat HART_FEAT_SSCOFPMF then select OR inhibit_bits flags OR BIT HPMEVENT_OF_BIT
                      else select);
            select = (if k < 3 then inhibit_bits flags else select);
            c2 = hw_event_write legal feat k select c1
        in (p, if bit flags SBI_PMU_CFG_FLAG_CLEAR_VALUE then hw_counter_write legal k 0 c2 else c2))"

definition pmu_counter_config ::
  "warl \<Rightarrow> features \<Rightarrow> pmu \<Rightarrow> ulong \<Rightarrow> ulong \<Rightarrow> ulong \<Rightarrow> ulong \<Rightarrow> ulong \<Rightarrow> pmu_hart \<Rightarrow> csrs \<Rightarrow>
   sbi \<times> ulong \<times> pmu_hart \<times> csrs" where
  "pmu_counter_config legal feat u base msk flags event_idx event_data p c =
     (let ev = ucast event_idx; fw = (EVENT_TYPE ev = SBI_PMU_EVENT_TYPE_FW) in
      if \<not> counter_set_ok u base msk \<or> event_idx > 0xfffff then (SBI_ERR_INVALID_PARAM, 0, p, c)
      else if fw \<and> EVENT_CODE ev \<ge> SBI_PMU_FW_MAX then (SBI_ERR_NOT_SUPPORTED, 0, p, c)
      else
        let (cs, select) = (if fw then (- 1, 0) else hw_event_lookup u ev event_data);
            candidates = (if fw then cs else cs AND hw_counters u)
        in if \<not> fw \<and> candidates = 0 then (SBI_ERR_NOT_SUPPORTED, 0, p, c)
           else case config_pick p base msk flags fw candidates of
                  Inl rc \<Rightarrow> (rc, 0, p, c)
                | Inr k \<Rightarrow>
                    let (p1, c1) = config_apply legal feat k flags ev fw select p c;
                        (p2, c2) = (if bit flags SBI_PMU_CFG_FLAG_AUTO_START
                                    then counter_start_one legal feat k p1 c1 else (p1, c1))
                    in (SBI_SUCCESS, of_nat k, p2, c2))"

text \<open>One turn of the loop of a start: the result so far, the initial value, the state.\<close>

definition start_one ::
  "warl \<Rightarrow> features \<Rightarrow> ulong \<Rightarrow> ulong \<Rightarrow> ulong \<Rightarrow> pmu_snapshot option \<Rightarrow> nat \<Rightarrow>
   sbi \<times> ulong \<times> pmu_hart \<times> csrs \<Rightarrow> sbi \<times> ulong \<times> pmu_hart \<times> csrs" where
  "start_one legal feat base msk flags snap i s =
     (let (rc, val, p, c) = s; k = unat (base + of_nat i) in
      if \<not> bit msk i then s
      else if pmu_event p ! k = EVENT_NONE then (SBI_ERR_INVALID_PARAM, val, p, c)
      else if (if k \<ge> PMU_FW_FIRST then bit (fw_started p) (k - PMU_FW_FIRST) else hw_counter_running k c)
      then (SBI_ERR_ALREADY_STARTED, val, p, c)
      else
        let val = (case snap of None \<Rightarrow> val | Some sn \<Rightarrow> snap_values sn ! i);
            (p1, c1) =
              (if bit flags SBI_PMU_START_FLAG_SET_INIT_VALUE \<or> bit flags SBI_PMU_START_FLAG_INIT_SNAPSHOT
               then if k \<ge> PMU_FW_FIRST
                    then (p\<lparr>fw_value := (fw_value p)[k - PMU_FW_FIRST := val]\<rparr>, c)
                    else (p, hw_counter_write legal k val c)
               else (p, c));
            (p2, c2) = counter_start_one legal feat k p1 c1
        in (rc, val, p2, c2))"

definition start_loop ::
  "warl \<Rightarrow> features \<Rightarrow> ulong \<Rightarrow> ulong \<Rightarrow> ulong \<Rightarrow> ulong \<Rightarrow> pmu_snapshot option \<Rightarrow> pmu_hart \<Rightarrow> csrs \<Rightarrow>
   (sbi \<times> pmu_hart) \<times> csrs" where
  "start_loop legal feat base msk flags val snap p c =
     (case fold (start_one legal feat base msk flags snap) [0..<64] (SBI_SUCCESS, val, p, c) of
        (rc, _, p, c) \<Rightarrow> ((rc, p), c))"

definition pmu_counter_start ::
  "monitor \<Rightarrow> pmu \<Rightarrow> ulong \<Rightarrow> ulong \<Rightarrow> ulong \<Rightarrow> ulong \<Rightarrow> pmu_snapshot \<Rightarrow> pmu_hart \<Rightarrow> csrs \<Rightarrow>
   panic + ((sbi \<times> pmu_hart) \<times> csrs)" where
  "pmu_counter_start m u base msk flags val mem p c =
     (if \<not> counter_set_ok u base msk then Inr ((SBI_ERR_INVALID_PARAM, p), c)
      else if bit flags SBI_PMU_START_FLAG_SET_INIT_VALUE \<and> bit flags SBI_PMU_START_FLAG_INIT_SNAPSHOT
      then Inr ((SBI_ERR_INVALID_PARAM, p), c)
      else if bit flags SBI_PMU_START_FLAG_INIT_SNAPSHOT then
        if snapshot p = SNAPSHOT_NONE then Inr ((SBI_ERR_NO_SHMEM, p), c)
        else with_window m (snapshot p) SNAPSHOT_SIZE
               (start_loop (m_legal m) (m_feat m) base msk flags val (Some mem) p) c
      else Inr (start_loop (m_legal m) (m_feat m) base msk flags val None p c))"

text \<open>One turn of the loop of a stop: the result, the overflow bitmap, the snapshot, the state.\<close>

definition stop_halt :: "warl \<Rightarrow> nat \<Rightarrow> sbi \<Rightarrow> pmu_hart \<Rightarrow> csrs \<Rightarrow> sbi \<times> pmu_hart \<times> csrs" where
  "stop_halt legal k rc p c =
     (if k \<ge> PMU_FW_FIRST
      then (if \<not> bit (fw_started p) (k - PMU_FW_FIRST) then SBI_ERR_ALREADY_STOPPED else rc,
            p\<lparr>fw_started := fw_started p AND NOT (push_bit (k - PMU_FW_FIRST) 1)\<rparr>, c)
      else (if \<not> hw_counter_running k c then SBI_ERR_ALREADY_STOPPED else rc,
            p, csr_set legal CSR_MCOUNTINHIBIT (BIT k) c))"

definition stop_reset :: "warl \<Rightarrow> features \<Rightarrow> nat \<Rightarrow> pmu_hart \<Rightarrow> csrs \<Rightarrow> pmu_hart \<times> csrs" where
  "stop_reset legal feat k p c =
     (p\<lparr>pmu_event := (pmu_event p)[k := EVENT_NONE]\<rparr>,
      if k < PMU_FW_FIRST
      then let c1 = hw_event_write legal feat k 0 c
           in if k < 3 then csr_clear legal CSR_MCOUNTINHIBIT (BIT k) c1 else c1
      else c)"

definition stop_one ::
  "warl \<Rightarrow> features \<Rightarrow> ulong \<Rightarrow> ulong \<Rightarrow> ulong \<Rightarrow> bool \<Rightarrow> nat \<Rightarrow>
   sbi \<times> ulong \<times> pmu_snapshot \<times> pmu_hart \<times> csrs \<Rightarrow> sbi \<times> ulong \<times> pmu_snapshot \<times> pmu_hart \<times> csrs" where
  "stop_one legal feat base msk flags snap i s =
     (let (rc, overflown, mem, p, c) = s; k = unat (base + of_nat i) in
      if \<not> bit msk i then s
      else
        let (rc1, p1, c1) = stop_halt legal k rc p c;
            (mem1, overflown1) =
              (if snap \<and> i < SNAPSHOT_VALUES
               then (mem\<lparr>snap_values := (snap_values mem)[i :=
                        (if k \<ge> PMU_FW_FIRST then fw_value p1 ! (k - PMU_FW_FIRST) else hw_counter_read k c1)]\<rparr>,
                     if k \<ge> 3 \<and> k < PMU_FW_FIRST \<and> feat HART_FEAT_SSCOFPMF \<and>
                        bit (hw_event_read feat k c1) HPMEVENT_OF_BIT
                     then overflown OR BIT i else overflown)
               else (mem, overflown));
            (p2, c2) = (if bit flags SBI_PMU_STOP_FLAG_RESET then stop_reset legal feat k p1 c1 else (p1, c1))
        in (rc1, overflown1, mem1, p2, c2))"

definition stop_loop ::
  "warl \<Rightarrow> features \<Rightarrow> ulong \<Rightarrow> ulong \<Rightarrow> ulong \<Rightarrow> bool \<Rightarrow> pmu_snapshot \<Rightarrow> pmu_hart \<Rightarrow> csrs \<Rightarrow>
   (sbi \<times> pmu_snapshot \<times> pmu_hart) \<times> csrs" where
  "stop_loop legal feat base msk flags snap mem p c =
     (case fold (stop_one legal feat base msk flags snap) [0..<64] (SBI_SUCCESS, 0, mem, p, c) of
        (rc, overflown, mem, p, c) \<Rightarrow>
          ((rc, if snap then mem\<lparr>overflow_bitmap := overflown\<rparr> else mem, p), c))"

definition pmu_counter_stop ::
  "monitor \<Rightarrow> pmu \<Rightarrow> ulong \<Rightarrow> ulong \<Rightarrow> ulong \<Rightarrow> pmu_snapshot \<Rightarrow> pmu_hart \<Rightarrow> csrs \<Rightarrow>
   panic + ((sbi \<times> pmu_snapshot \<times> pmu_hart) \<times> csrs)" where
  "pmu_counter_stop m u base msk flags mem p c =
     (if \<not> counter_set_ok u base msk then Inr ((SBI_ERR_INVALID_PARAM, mem, p), c)
      else if bit flags SBI_PMU_STOP_FLAG_TAKE_SNAPSHOT then
        if snapshot p = SNAPSHOT_NONE then Inr ((SBI_ERR_NO_SHMEM, mem, p), c)
        else with_window m (snapshot p) SNAPSHOT_SIZE
               (stop_loop (m_legal m) (m_feat m) base msk flags True mem p) c
      else Inr (stop_loop (m_legal m) (m_feat m) base msk flags False mem p c))"

definition pmu_hw_counter_get :: "pmu \<Rightarrow> nat \<Rightarrow> csrs \<Rightarrow> ulong option" where
  "pmu_hw_counter_get u n c =
     (if n \<ge> PMU_HW_COUNTERS \<or> \<not> bit (hw_counters u) n then None else Some (hw_counter_read n c))"

definition pmu_snapshot_set_shmem ::
  "memregion list \<Rightarrow> domain option \<Rightarrow> ulong \<Rightarrow> ulong \<Rightarrow> ulong \<Rightarrow> pmu_hart \<Rightarrow> sbi \<times> pmu_hart" where
  "pmu_snapshot_set_shmem mrs dm lo hi flags p =
     (if flags \<noteq> 0 then (SBI_ERR_INVALID_PARAM, p)
      else if lo = - 1 \<and> hi = - 1 then (SBI_SUCCESS, p\<lparr>snapshot := SNAPSHOT_NONE\<rparr>)
      else if \<not> IS_ALIGNED lo SNAPSHOT_SIZE then (SBI_ERR_INVALID_PARAM, p)
      else if hi \<noteq> 0 \<or> \<not> smode_range_ok mrs dm lo SNAPSHOT_SIZE then (SBI_ERR_INVALID_ADDRESS, p)
      else (SBI_SUCCESS, p\<lparr>snapshot := lo\<rparr>))"

section \<open>Counter overflow as an event\<close>

definition pmu_sse_supported :: "features \<Rightarrow> bool" where
  "pmu_sse_supported feat = feat HART_FEAT_SSCOFPMF"

definition pmu_sse_enable :: "warl \<Rightarrow> bool \<Rightarrow> pmu_hart \<Rightarrow> csrs \<Rightarrow> pmu_hart \<times> csrs" where
  "pmu_sse_enable legal enable p c =
     (if enable = sse_enabled p then (p, c)
      else let p1 = p\<lparr>sse_enabled := enable\<rparr> in
        if enable then
          (p1\<lparr>sse_saved_ie := (csr_read CSR_MIE c AND BIT IRQ_PMU_OVF \<noteq> 0)\<rparr>,
           csr_set legal CSR_MIE (BIT IRQ_PMU_OVF) (csr_clear legal CSR_MIDELEG (BIT IRQ_PMU_OVF) c))
        else
          let c1 = csr_set legal CSR_MIDELEG (BIT IRQ_PMU_OVF) (csr_clear legal CSR_MIE (BIT IRQ_PMU_OVF) c)
          in (p1, if sse_saved_ie p1 then csr_set legal CSR_MIE (BIT IRQ_PMU_OVF) c1 else c1))"

definition pmu_sse_overflow_irq :: "warl \<Rightarrow> pmu_hart \<Rightarrow> csrs \<Rightarrow> bool \<times> csrs" where
  "pmu_sse_overflow_irq legal p c =
     (if \<not> sse_enabled p then (False, c)
      else (True, csr_clear legal CSR_MIP (BIT IRQ_PMU_OVF) (csr_clear legal CSR_MIE (BIT IRQ_PMU_OVF) c)))"

definition pmu_sse_complete :: "warl \<Rightarrow> pmu_hart \<Rightarrow> csrs \<Rightarrow> csrs" where
  "pmu_sse_complete legal p c = (if sse_enabled p then csr_set legal CSR_MIE (BIT IRQ_PMU_OVF) c else c)"

definition pmu_counter_fw_read :: "pmu_hart \<Rightarrow> ulong \<Rightarrow> sbi \<times> ulong" where
  "pmu_counter_fw_read p idx =
     (if idx < of_nat PMU_FW_FIRST \<or> idx \<ge> of_nat PMU_COUNTERS \<or> pmu_event p ! unat idx = EVENT_NONE
      then (SBI_ERR_INVALID_PARAM, 0)
      else (SBI_SUCCESS, fw_value p ! (unat idx - PMU_FW_FIRST)))"

record event_info =
  ei_event_idx :: u32
  ei_output :: u32
  ei_event_data :: ulong

definition event_info_one :: "pmu \<Rightarrow> event_info \<Rightarrow> event_info" where
  "event_info_one u e =
     (let ev = ei_event_idx e;
          ok = (if EVENT_TYPE ev = SBI_PMU_EVENT_TYPE_FW then EVENT_CODE ev < SBI_PMU_FW_MAX
                else ev \<le> 0xfffff \<and> fst (hw_event_lookup u ev (ei_event_data e)) AND hw_counters u \<noteq> 0)
      in e\<lparr>ei_output := (if ok then 1 else 0)\<rparr>)"

definition pmu_event_info ::
  "monitor \<Rightarrow> pmu \<Rightarrow> domain option \<Rightarrow> ulong \<Rightarrow> ulong \<Rightarrow> event_info list \<Rightarrow> csrs \<Rightarrow>
   panic + ((sbi \<times> event_info list) \<times> csrs)" where
  "pmu_event_info m u dm addr n info c =
     (if \<not> IS_ALIGNED addr 16 then Inr ((SBI_ERR_INVALID_PARAM, info), c)
      else if n > - 1 div 16 \<or> \<not> smode_range_ok (m_regions m) dm addr (n * 16)
      then Inr ((SBI_ERR_INVALID_ADDRESS, info), c)
      else with_window m addr (n * 16) (\<lambda>c.
             ((SBI_SUCCESS, fold (\<lambda>i info. info[i := event_info_one u (info ! i)]) [0..<unat n] info), c)) c)"

section \<open>Registers and loops\<close>

definition pmu_hw_ok :: "warl \<Rightarrow> pmu \<Rightarrow> bool" where
  "pmu_hw_ok legal u \<longleftrightarrow>
     (\<forall>c v n. 3 \<le> n \<and> n < 32 \<and> bit (hw_counters u) n \<longrightarrow>
        bit (legal c (CSR_MHPMEVENT0 + n) v) HPMEVENT_MINH_BIT = bit v HPMEVENT_MINH_BIT) \<and>
     (\<forall>c v n. n < 32 \<and> bit (hw_counters u) n \<longrightarrow> bit (legal c CSR_MCOUNTINHIBIT v) n = bit v n)"

definition counter_inhibited :: "csrs \<Rightarrow> nat \<Rightarrow> bool" where
  "counter_inhibited c n \<longleftrightarrow> bit (c CSR_MCOUNTINHIBIT) n"

definition minh_set :: "csrs \<Rightarrow> nat \<Rightarrow> bool" where
  "minh_set c n \<longleftrightarrow> bit (c (CSR_MHPMEVENT0 + n)) HPMEVENT_MINH_BIT"

lemma hw_event_write_hpm:
  "3 \<le> n \<Longrightarrow> n < 32 \<Longrightarrow>
   hw_event_write legal feat n v c = c(CSR_MHPMEVENT0 + n := legal c (CSR_MHPMEVENT0 + n) v)"
  by (simp add: hw_event_write_def mhpmevent_write_def csr_write_def)

lemma hw_event_write_fixed:
  "n < 3 \<Longrightarrow> k \<noteq> CSR_MCYCLECFG \<Longrightarrow> k \<noteq> CSR_MINSTRETCFG \<Longrightarrow> hw_event_write legal feat n v c k = c k"
  by (simp add: hw_event_write_def fixed_cfg_write_def csr_write_def)

lemma hw_counter_write_other:
  "k < CSR_MCYCLE \<or> k \<ge> CSR_MCYCLE + 32 \<Longrightarrow> hw_counter_write legal n v c k = c k"
  by (auto simp: hw_counter_write_def mcounter_write_def csr_write_def)

lemma inhibit_write: "csr_write legal CSR_MCOUNTINHIBIT v c = c(CSR_MCOUNTINHIBIT := legal c CSR_MCOUNTINHIBIT v)"
  by (simp add: csr_write_def)

lemma inhibit_read: "csr_read CSR_MCOUNTINHIBIT c = c CSR_MCOUNTINHIBIT"
  by (simp add: csr_read_def)

lemma inhibit_set:
  "csr_set legal CSR_MCOUNTINHIBIT v c =
   c(CSR_MCOUNTINHIBIT := legal c CSR_MCOUNTINHIBIT (c CSR_MCOUNTINHIBIT OR v))"
  by (simp add: csr_set_def inhibit_write inhibit_read)

lemma inhibit_clear:
  "csr_clear legal CSR_MCOUNTINHIBIT v c =
   c(CSR_MCOUNTINHIBIT := legal c CSR_MCOUNTINHIBIT (c CSR_MCOUNTINHIBIT AND NOT v))"
  by (simp add: csr_clear_def inhibit_write inhibit_read)

lemma bit_BIT: "bit (BIT k) n \<longleftrightarrow> n = k \<and> k < 64"
  by (auto simp: BIT_eq_power bit_exp_iff)

lemma and_BIT_eq_0: "n < 64 \<Longrightarrow> (w :: ulong) AND BIT n = 0 \<longleftrightarrow> \<not> bit w n"
  using and_bit_mask [of w n] by (auto simp: bit_mask_def BIT_def)

lemma hw_counter_running_iff: "n < 64 \<Longrightarrow> hw_counter_running n c \<longleftrightarrow> \<not> counter_inhibited c n"
  by (simp add: hw_counter_running_def inhibit_read counter_inhibited_def and_BIT_eq_0)

lemmas pmu_csr_simps = hw_event_write_hpm hw_event_write_fixed hw_counter_write_other
  inhibit_write inhibit_read inhibit_set inhibit_clear

text \<open>A counter a call may name exists.\<close>

lemma counter_set_okD:
  assumes "counter_set_ok u base msk" "bit msk i"
  shows "unat (base + of_nat i) < 48 \<and> (unat (base + of_nat i) < 32 \<longrightarrow> bit (hw_counters u) (unat (base + of_nat i)))"
proof -
  have "i < 64" using assms(2) bit_imp_le_length by fastforce
  then have "counter_exists u (base + of_nat i)"
    using assms by (auto simp: counter_set_ok_def list_all_iff)
  then show ?thesis
    by (auto simp: counter_exists_def word_le_nat_alt word_less_nat_alt split: if_splits)
qed

lemma lowest_bit_loop_finds:
  assumes "bit v k" "\<And>i. i < k \<Longrightarrow> \<not> bit v i"
  shows "lowest_bit_loop v n = Some (n + k)"
  using assms
proof (induction k arbitrary: v n)
  case 0
  then show ?case by (subst lowest_bit_loop.simps) simp
next
  case (Suc k)
  have "\<not> bit v 0" using Suc.prems(2) by simp
  moreover have "lowest_bit_loop (drop_bit 1 v) (n + 1) = Some (n + 1 + k)"
    using Suc.prems by (intro Suc.IH) (auto simp: bit_drop_bit_eq)
  ultimately show ?case by (subst lowest_bit_loop.simps) simp
qed

lemma lowest_bit_loop_bit: "lowest_bit_loop v n = Some r \<Longrightarrow> n \<le> r \<and> bit v (r - n)"
proof (erule lowest_bit_loop.raw_induct [rotated])
  fix f v n r
  assume IH: "\<And>v n r. f v n = Some r \<Longrightarrow> n \<le> r \<and> bit v (r - n)"
    and r: "(if \<not> bit v 0 then f (drop_bit 1 v) (n + 1) else Some n) = Some r"
  show "n \<le> r \<and> bit v (r - n)"
  proof (cases "bit v 0")
    case True
    then show ?thesis using r by simp
  next
    case False
    then have "n + 1 \<le> r \<and> bit (drop_bit 1 v) (r - (n + 1))" using r by (intro IH) simp
    then show ?thesis by (auto simp: bit_drop_bit_eq Suc_diff_Suc)
  qed
qed

lemma lowest_bit_Some: "lowest_bit v = Some k \<Longrightarrow> bit v k"
  using lowest_bit_loop_bit [of v 0 k] by (simp add: lowest_bit_def)

section \<open>The monitor's own execution is not counted\<close>

text \<open>
  A programmable counter is free and stands still, or is configured and does not count
  in M-mode. While the hart runs another domain the same holds of what is saved.
\<close>

definition pmu_inv :: "pmu \<Rightarrow> pmu_hart \<Rightarrow> csrs \<Rightarrow> bool" where
  "pmu_inv u p c \<longleftrightarrow>
     length (pmu_event p) = PMU_COUNTERS \<and> length (hs_select (pmu_hw p)) = PMU_HW_COUNTERS \<and>
     (\<forall>n. 3 \<le> n \<and> n < 32 \<and> bit (hw_counters u) n \<longrightarrow>
        (if pmu_event p ! n = EVENT_NONE then counter_inhibited c n else minh_set c n))"

definition saved_inv :: "pmu \<Rightarrow> pmu_hart \<Rightarrow> bool" where
  "saved_inv u p \<longleftrightarrow>
     length (pmu_event p) = PMU_COUNTERS \<and> length (hs_select (pmu_hw p)) = PMU_HW_COUNTERS \<and>
     (\<forall>n. 3 \<le> n \<and> n < 32 \<and> bit (hw_counters u) n \<longrightarrow>
        (if pmu_event p ! n = EVENT_NONE then bit (hs_inhibit (pmu_hw p)) n
         else bit (hs_select (pmu_hw p) ! n) HPMEVENT_MINH_BIT))"

text \<open>Only the selectors and the inhibit bits matter.\<close>

lemma pmu_inv_cong:
  assumes "pmu_event p' = pmu_event p" "hs_select (pmu_hw p') = hs_select (pmu_hw p)"
    and "\<And>n. n < 32 \<Longrightarrow> bit (hw_counters u) n \<Longrightarrow> 3 \<le> n \<Longrightarrow> counter_inhibited c' n = counter_inhibited c n"
    and "\<And>n. n < 32 \<Longrightarrow> bit (hw_counters u) n \<Longrightarrow> 3 \<le> n \<Longrightarrow> minh_set c' n = minh_set c n"
  shows "pmu_inv u p' c' = pmu_inv u p c"
  using assms by (simp add: pmu_inv_def)

lemma legal_inhibit:
  assumes "pmu_hw_ok legal u" "bit (hw_counters u) n" "n < 32"
  shows "counter_inhibited (c(CSR_MCOUNTINHIBIT := legal c CSR_MCOUNTINHIBIT v)) n = bit v n"
  using assms by (auto simp: pmu_hw_ok_def counter_inhibited_def)

lemma minh_inhibit [simp]: "0 < n \<Longrightarrow> minh_set (c(CSR_MCOUNTINHIBIT := v)) n = minh_set c n"
  by (simp add: minh_set_def)

lemma legal_minh:
  assumes "pmu_hw_ok legal u" "bit (hw_counters u) k" "3 \<le> k" "k < 32"
  shows "minh_set (hw_event_write legal feat k v c) n =
         (if n = k then bit v HPMEVENT_MINH_BIT else minh_set c n)"
  using assms by (auto simp: minh_set_def hw_event_write_hpm pmu_hw_ok_def)

lemma minh_fixed: "k < 3 \<Longrightarrow> 3 \<le> n \<Longrightarrow> minh_set (hw_event_write legal feat k v c) n = minh_set c n"
  by (simp add: minh_set_def hw_event_write_fixed)

lemma inhibited_event: "counter_inhibited (hw_event_write legal feat k v c) n = counter_inhibited c n"
  by (simp add: counter_inhibited_def hw_event_write_def fixed_cfg_write_def mhpmevent_write_def csr_write_def)

lemma counter_write_keeps:
  "counter_inhibited (hw_counter_write legal k v c) n = counter_inhibited c n"
  "n < 32 \<Longrightarrow> minh_set (hw_counter_write legal k v c) n = minh_set c n"
  by (simp_all add: counter_inhibited_def minh_set_def hw_counter_write_other)

lemma counter_start_one_inv:
  assumes hw: "pmu_hw_ok legal u" and inv: "pmu_inv u p c" and k: "k < 48"
    and ev: "pmu_event p ! k \<noteq> EVENT_NONE" and ex: "k < 32 \<Longrightarrow> bit (hw_counters u) k"
    and r: "counter_start_one legal feat k p c = (p', c')"
  shows "pmu_inv u p' c' \<and> pmu_event p' = pmu_event p"
proof (cases "k \<ge> 32")
  case True
  then have "p' = p\<lparr>fw_started := fw_started p OR push_bit (k - PMU_FW_FIRST) 1\<rparr>" "c' = c"
    using r by (simp_all add: counter_start_one_def)
  then show ?thesis using inv by (simp add: pmu_inv_def)
next
  case False
  define c1 where "c1 = (if feat HART_FEAT_SSCOFPMF \<and> k \<ge> 3
    then hw_event_write legal feat k (hw_event_read feat k c AND NOT (BIT HPMEVENT_OF_BIT)) c else c)"
  have c': "p' = p" "c' = c1(CSR_MCOUNTINHIBIT := legal c1 CSR_MCOUNTINHIBIT (c1 CSR_MCOUNTINHIBIT AND NOT (BIT k)))"
    using r False by (simp_all add: counter_start_one_def c1_def inhibit_clear)
  have m1: "minh_set c1 n = minh_set c n" if "3 \<le> n" for n
  proof (cases "feat HART_FEAT_SSCOFPMF \<and> k \<ge> 3")
    case True
    have "bit (hw_event_read feat k c AND NOT (BIT HPMEVENT_OF_BIT)) HPMEVENT_MINH_BIT = minh_set c k"
      using True False
      by (simp add: hw_event_read_def mhpmevent_read_def csr_read_def minh_set_def bit_and_iff bit_not_iff bit_BIT)
    then show ?thesis using True False ex hw by (simp add: c1_def legal_minh)
  qed (auto simp: c1_def)
  have i1: "counter_inhibited c1 n = counter_inhibited c n" for n
    by (simp add: c1_def inhibited_event)
  have i: "counter_inhibited c' n = (counter_inhibited c n \<and> n \<noteq> k)"
    if "bit (hw_counters u) n" "n < 32" for n
    using legal_inhibit [OF hw that, of c1] that i1 [of n] c'(2)
    by (auto simp: bit_and_iff bit_not_iff bit_BIT counter_inhibited_def)
  show ?thesis using inv ev i m1 unfolding c'(1) pmu_inv_def by (auto simp: c'(2))
qed

lemma config_pick_Inr:
  assumes "config_pick p base msk flags fw cand = Inr k" "counter_set_ok u base msk"
  shows "k < 48" "k < 32 \<Longrightarrow> bit (hw_counters u) k" "fw \<longleftrightarrow> 32 \<le> k"
    "\<exists>i. bit msk i \<and> k = unat (base + of_nat i)"
    "bit flags SBI_PMU_CFG_FLAG_SKIP_MATCH \<Longrightarrow> pmu_event p ! k \<noteq> EVENT_NONE"
    "\<not> bit flags SBI_PMU_CFG_FLAG_SKIP_MATCH \<Longrightarrow> pmu_event p ! k = EVENT_NONE \<and> (fw \<or> bit cand k)"
proof -
  have "(\<exists>i. bit msk i \<and> k = unat (base + of_nat i)) \<and> (fw \<longleftrightarrow> 32 \<le> k) \<and>
    (if bit flags SBI_PMU_CFG_FLAG_SKIP_MATCH then pmu_event p ! k \<noteq> EVENT_NONE
     else pmu_event p ! k = EVENT_NONE \<and> (fw \<or> bit cand k))"
  proof (cases "bit flags SBI_PMU_CFG_FLAG_SKIP_MATCH")
    case True
    then obtain l where "lowest_bit msk = Some l" "k = unat (base + of_nat l)"
      "pmu_event p ! k \<noteq> EVENT_NONE" "fw \<longleftrightarrow> 32 \<le> k"
      using assms(1) by (auto simp: config_pick_def Let_def split: option.splits if_splits)
    then show ?thesis using True lowest_bit_Some by auto
  next
    case False
    then obtain i where f: "find (\<lambda>i. bit msk i \<and>
                     (let n = unat (base + of_nat i) in
                      pmu_event p ! n = EVENT_NONE \<and>
                      (if fw then n \<ge> PMU_FW_FIRST else n < PMU_FW_FIRST \<and> bit cand n))) [0..<64] = Some i"
      and k: "k = unat (base + of_nat i)"
      using assms(1) by (auto simp: config_pick_def split: option.splits)
    from f have "bit msk i" "pmu_event p ! k = EVENT_NONE"
      "if fw then k \<ge> PMU_FW_FIRST else k < PMU_FW_FIRST \<and> bit cand k"
      by (auto simp: find_Some_iff Let_def k)
    then show ?thesis using False k by (auto split: if_splits)
  qed
  then show "\<exists>i. bit msk i \<and> k = unat (base + of_nat i)" "fw \<longleftrightarrow> 32 \<le> k"
    "bit flags SBI_PMU_CFG_FLAG_SKIP_MATCH \<Longrightarrow> pmu_event p ! k \<noteq> EVENT_NONE"
    "\<not> bit flags SBI_PMU_CFG_FLAG_SKIP_MATCH \<Longrightarrow> pmu_event p ! k = EVENT_NONE \<and> (fw \<or> bit cand k)"
    by auto
  then show "k < 48" "k < 32 \<Longrightarrow> bit (hw_counters u) k"
    using counter_set_okD [OF assms(2)] by auto
qed

lemma inhibit_bits_minh: "bit (inhibit_bits flags) HPMEVENT_MINH_BIT"
  by (simp add: inhibit_bits_def bit_or_iff bit_BIT)

lemma config_apply_inv:
  assumes hw: "pmu_hw_ok legal u" and feat: "feat HART_FEAT_SSCOFPMF" and inv: "pmu_inv u p c" and k: "k < 48"
    and fw: "fw \<longleftrightarrow> 32 \<le> k" and ev: "ev \<noteq> EVENT_NONE" and ex: "k < 32 \<Longrightarrow> bit (hw_counters u) k"
    and r: "config_apply legal feat k flags ev fw select p c = (p', c')"
  shows "pmu_inv u p' c' \<and> pmu_event p' = (pmu_event p)[k := ev]"
proof (cases "32 \<le> k")
  case True
  then have "pmu_event p' = (pmu_event p)[k := ev]" "pmu_hw p' = pmu_hw p" "c' = c"
    using r fw by (auto simp: config_apply_def Let_def split: if_splits)
  then show ?thesis using inv True by (simp add: pmu_inv_def nth_list_update)
next
  case False
  define c1 where "c1 = csr_set legal CSR_MCOUNTINHIBIT (BIT k) c"
  define sel where "sel = (if k < 3 then inhibit_bits flags else select OR inhibit_bits flags OR BIT HPMEVENT_OF_BIT)"
  define c2 where "c2 = hw_event_write legal feat k sel c1"
  have p': "p' = p\<lparr>pmu_event := (pmu_event p)[k := ev]\<rparr>"
    and c': "c' = (if bit flags SBI_PMU_CFG_FLAG_CLEAR_VALUE then hw_counter_write legal k 0 c2 else c2)"
    using r fw False feat by (auto simp: config_apply_def Let_def c2_def c1_def sel_def)
  have i1: "counter_inhibited c1 n = (counter_inhibited c n \<or> n = k)" if "bit (hw_counters u) n" "n < 32" for n
    unfolding c1_def inhibit_set legal_inhibit [OF hw that]
    using that by (auto simp: bit_or_iff bit_BIT counter_inhibited_def)
  have m1: "minh_set c1 n = minh_set c n" if "3 \<le> n" for n using that by (simp add: c1_def inhibit_set)
  have m2: "minh_set c2 n = (n = k \<or> minh_set c n)" if "3 \<le> n" for n
  proof (cases "k < 3")
    case True
    then show ?thesis using that m1 by (simp add: c2_def minh_fixed)
  next
    case g: False
    have "bit sel HPMEVENT_MINH_BIT" using g by (simp add: sel_def bit_or_iff inhibit_bits_minh)
    then show ?thesis using False g ex hw that m1 by (simp add: c2_def legal_minh)
  qed
  have "counter_inhibited c' n = (counter_inhibited c n \<or> n = k)" "minh_set c' n = (n = k \<or> minh_set c n)"
    if "bit (hw_counters u) n" "3 \<le> n" "n < 32" for n
    using that i1 m2 by (auto simp: c' counter_write_keeps c2_def inhibited_event)
  then show ?thesis using inv ev False unfolding p' pmu_inv_def by (auto simp: nth_list_update)
qed

lemma event_idx_valid: "event_idx \<le> 0xfffff \<Longrightarrow> (ucast (event_idx :: ulong) :: u32) \<noteq> EVENT_NONE"
proof
  assume le: "event_idx \<le> 0xfffff" and e: "(ucast event_idx :: u32) = EVENT_NONE"
  have "bit (ucast event_idx :: u32) 31" unfolding e by simp
  then have "bit event_idx 31" by (simp add: bit_ucast_iff)
  then have "bit (unat event_idx) 31" by (simp add: bit_unsigned_iff)
  then have "unat event_idx div 2 ^ 31 \<noteq> 0" by (metis bit_iff_odd even_zero)
  then have "2 ^ 31 \<le> unat event_idx" by (metis div_less linorder_not_le)
  with le show False by (simp add: word_le_nat_alt)
qed

lemma config_pick_Inl: "config_pick p base msk flags fw cand = Inl rc \<Longrightarrow> rc \<noteq> SBI_SUCCESS"
  by (auto simp: config_pick_def Let_def split: if_splits option.splits)

text \<open>What a configuration call comes down to.\<close>

lemma pmu_counter_config_cases:
  assumes r: "pmu_counter_config legal feat u base msk flags event_idx data p c = (rc, i, p', c')"
  obtains (error) "rc \<noteq> SBI_SUCCESS" "p' = p" "c' = c" "i = 0"
  | (success) cand k select p1 c1 where "rc = SBI_SUCCESS" "i = of_nat k"
      "counter_set_ok u base msk" "event_idx \<le> 0xfffff"
      "EVENT_TYPE (ucast event_idx) \<noteq> SBI_PMU_EVENT_TYPE_FW \<Longrightarrow>
         cand = fst (hw_event_lookup u (ucast event_idx) data) AND hw_counters u"
      "config_pick p base msk flags (EVENT_TYPE (ucast event_idx) = SBI_PMU_EVENT_TYPE_FW) cand = Inr k"
      "config_apply legal feat k flags (ucast event_idx)
         (EVENT_TYPE (ucast event_idx) = SBI_PMU_EVENT_TYPE_FW) select p c = (p1, c1)"
      "(p', c') = (if bit flags SBI_PMU_CFG_FLAG_AUTO_START then counter_start_one legal feat k p1 c1 else (p1, c1))"
proof -
  define ev where "ev = (ucast event_idx :: u32)"
  define fw where "fw = (EVENT_TYPE ev = SBI_PMU_EVENT_TYPE_FW)"
  define cs where "cs = (if fw then (- 1, 0) else hw_event_lookup u ev data)"
  define cand where "cand = (if fw then fst cs else fst cs AND hw_counters u)"
  let ?refuse = "\<not> counter_set_ok u base msk \<or> event_idx > 0xfffff \<or> fw \<and> EVENT_CODE ev \<ge> SBI_PMU_FW_MAX \<or>
    \<not> fw \<and> cand = 0"
  show thesis
  proof (cases ?refuse)
    case True
    then show thesis using r error
      by (auto simp: pmu_counter_config_def Let_def ev_def fw_def cs_def cand_def split: prod.splits if_splits)
  next
    case False
    then have r': "(rc, i, p', c') = (case config_pick p base msk flags fw cand of
                  Inl rc \<Rightarrow> (rc, 0, p, c)
                | Inr k \<Rightarrow>
                    let (p1, c1) = config_apply legal feat k flags ev fw (snd cs) p c;
                        (p2, c2) = (if bit flags SBI_PMU_CFG_FLAG_AUTO_START
                                    then counter_start_one legal feat k p1 c1 else (p1, c1))
                    in (SBI_SUCCESS, of_nat k, p2, c2))"
      unfolding r [symmetric] pmu_counter_config_def Let_def cand_def cs_def fw_def ev_def
      by (simp add: case_prod_beta) (auto split: if_splits)
    show thesis
    proof (cases "config_pick p base msk flags fw cand")
      case (Inl e)
      then show thesis using r' error config_pick_Inl by auto
    next
      case (Inr k)
      obtain p1 c1 where a: "config_apply legal feat k flags ev fw (snd cs) p c = (p1, c1)" by force
      show thesis
      proof (rule success)
        show "(p', c') = (if bit flags SBI_PMU_CFG_FLAG_AUTO_START then counter_start_one legal feat k p1 c1 else (p1, c1))"
          using r' Inr a by (simp add: Let_def case_prod_beta)
        show "cand = fst (hw_event_lookup u (ucast event_idx) data) AND hw_counters u"
          if "EVENT_TYPE (ucast event_idx) \<noteq> SBI_PMU_EVENT_TYPE_FW"
          using that by (simp add: cand_def cs_def fw_def ev_def)
        show "rc = SBI_SUCCESS" "i = of_nat k" using r' Inr a by (simp_all add: Let_def case_prod_beta)
      qed (use False Inr a in \<open>simp_all add: ev_def fw_def not_less\<close>)
    qed
  qed
qed

lemma pmu_counter_config_inv:
  assumes hw: "pmu_hw_ok legal u" and feat: "feat HART_FEAT_SSCOFPMF" and inv: "pmu_inv u p c"
    and r: "pmu_counter_config legal feat u base msk flags event_idx data p c = (rc, i, p', c')"
  shows "pmu_inv u p' c'"
  using r
proof (cases rule: pmu_counter_config_cases)
  case error
  then show ?thesis using inv by simp
next
  case (success cand k select p1 c1)
  note ok = success(3,4) and pick = success(6) and a = success(7) and s = success(8)
  note k = config_pick_Inr [OF pick ok(1)]
  have ev: "(ucast event_idx :: u32) \<noteq> EVENT_NONE" using ok(2) by (rule event_idx_valid)
  from config_apply_inv [OF hw feat inv k(1) k(3) ev k(2) a]
  have inv1: "pmu_inv u p1 c1" and e1: "pmu_event p1 ! k \<noteq> EVENT_NONE"
    using ev inv k(1) by (auto simp: pmu_inv_def)
  show ?thesis
  proof (cases "bit flags SBI_PMU_CFG_FLAG_AUTO_START")
    case auto: True
    then have "counter_start_one legal feat k p1 c1 = (p', c')" using s by simp
    from counter_start_one_inv [OF hw inv1 k(1) e1 k(2) this] show ?thesis by simp
  qed (use s inv1 in simp)
qed

lemma start_one_inv:
  assumes hw: "pmu_hw_ok legal u" and ok: "counter_set_ok u base msk" and inv: "pmu_inv u p c"
    and r: "start_one legal feat base msk flags snap i (rc, v, p, c) = (rc', v', p', c')"
  shows "pmu_inv u p' c'"
proof -
  define k where "k = unat (base + of_nat i)"
  show ?thesis
  proof (cases "(p', c') = (p, c)")
    case True
    then show ?thesis using inv by simp
  next
    case False
    then have m: "bit msk i" and e: "pmu_event p ! k \<noteq> EVENT_NONE"
      using r by (auto simp: start_one_def Let_def k_def split: if_splits prod.splits)
    note ex = counter_set_okD [OF ok m, folded k_def]
    obtain w p1 c1 where a: "(p1, c1) = (if bit flags SBI_PMU_START_FLAG_SET_INIT_VALUE \<or> bit flags SBI_PMU_START_FLAG_INIT_SNAPSHOT
               then if k \<ge> PMU_FW_FIRST
                    then (p\<lparr>fw_value := (fw_value p)[k - PMU_FW_FIRST := w]\<rparr>, c)
                    else (p, hw_counter_write legal k w c)
               else (p, c))"
      and s: "counter_start_one legal feat k p1 c1 = (p', c')"
      using r m e False
      by (auto simp: start_one_def Let_def k_def split: if_splits prod.splits option.splits)
    have p1: "pmu_inv u p1 c1" "pmu_event p1 = pmu_event p"
      using a inv pmu_inv_cong [of p1 p u c1 c]
      by (auto simp: counter_write_keeps split: if_splits)
    from counter_start_one_inv [OF hw p1(1) _ _ _ s] ex e show ?thesis by (simp add: p1(2))
  qed
qed

lemma start_loop_inv:
  assumes hw: "pmu_hw_ok legal u" and ok: "counter_set_ok u base msk" and inv: "pmu_inv u p c"
    and r: "start_loop legal feat base msk flags v snap p c = ((rc, p'), c')"
  shows "pmu_inv u p' c'"
proof -
  let ?I = "\<lambda>s. case s of (rc, v, p, c) \<Rightarrow> pmu_inv u p c"
  have "?I (fold (start_one legal feat base msk flags snap) is (rc, v, p, c))" for "is" rc
    using inv
  proof (induction "is" arbitrary: rc v p c)
    case (Cons i "is")
    obtain rc1 v1 p1 c1 where s: "start_one legal feat base msk flags snap i (rc, v, p, c) = (rc1, v1, p1, c1)"
      by (metis prod_cases4)
    from Cons.IH [OF start_one_inv [OF hw ok Cons.prems s]] show ?case by (simp add: s)
  qed simp
  from this [of "[0..<64]" SBI_SUCCESS] r show ?thesis
    by (auto simp: start_loop_def split: prod.splits)
qed

lemma stop_halt_inv:
  assumes hw: "pmu_hw_ok legal u" and inv: "pmu_inv u p c" and ex: "k < 32 \<Longrightarrow> bit (hw_counters u) k"
    and r: "stop_halt legal k rc p c = (rc', p', c')"
  shows "pmu_inv u p' c' \<and> pmu_event p' = pmu_event p \<and> (3 \<le> k \<and> k < 32 \<longrightarrow> counter_inhibited c' k)"
proof (cases "32 \<le> k")
  case True
  then show ?thesis using r inv by (auto simp: stop_halt_def pmu_inv_def)
next
  case False
  have p': "p' = p" and c': "c' = c(CSR_MCOUNTINHIBIT := legal c CSR_MCOUNTINHIBIT (c CSR_MCOUNTINHIBIT OR BIT k))"
    using r False by (auto simp: stop_halt_def inhibit_set)
  have i: "counter_inhibited c' n = (counter_inhibited c n \<or> n = k)" if "bit (hw_counters u) n" "n < 32" for n
    unfolding c' legal_inhibit [OF hw that] using that by (auto simp: bit_or_iff bit_BIT counter_inhibited_def)
  have "minh_set c' n = minh_set c n" if "3 \<le> n" for n using that by (simp add: c')
  then show ?thesis using inv i False ex unfolding p' pmu_inv_def by auto
qed

lemma stop_reset_inv:
  assumes hw: "pmu_hw_ok legal u" and inv: "pmu_inv u p c" and k: "k < 48"
    and ex: "k < 32 \<Longrightarrow> bit (hw_counters u) k" and ih: "3 \<le> k \<Longrightarrow> k < 32 \<Longrightarrow> counter_inhibited c k"
    and r: "stop_reset legal feat k p c = (p', c')"
  shows "pmu_inv u p' c'"
proof -
  have p': "p' = p\<lparr>pmu_event := (pmu_event p)[k := EVENT_NONE]\<rparr>" using r by (simp add: stop_reset_def)
  consider "32 \<le> k" | "3 \<le> k" "k < 32" | "k < 3" by linarith
  then show ?thesis
  proof cases
    case 1
    then show ?thesis using r inv unfolding p' pmu_inv_def by (auto simp: stop_reset_def nth_list_update)
  next
    case 2
    then have c': "c' = hw_event_write legal feat k 0 c" using r by (simp add: stop_reset_def)
    have "counter_inhibited c' n = counter_inhibited c n" "n \<noteq> k \<Longrightarrow> minh_set c' n = minh_set c n" for n
      using 2 ex hw by (auto simp: c' inhibited_event legal_minh)
    then show ?thesis using inv ih 2 unfolding p' pmu_inv_def by (auto simp: nth_list_update)
  next
    case 3
    define c1 where "c1 = hw_event_write legal feat k 0 c"
    have c': "c' = c1(CSR_MCOUNTINHIBIT := legal c1 CSR_MCOUNTINHIBIT (c1 CSR_MCOUNTINHIBIT AND NOT (BIT k)))"
      using 3 r by (auto simp: stop_reset_def c1_def inhibit_clear Let_def)
    have i: "counter_inhibited c' n = counter_inhibited c n" if "bit (hw_counters u) n" "3 \<le> n" "n < 32" for n
      unfolding c' legal_inhibit [OF hw that(1,3)] using that 3 inhibited_event [of legal feat k 0 c n]
      by (auto simp: bit_and_iff bit_not_iff bit_BIT counter_inhibited_def c1_def)
    have "minh_set c' n = minh_set c n" if "3 \<le> n" for n
      using that 3 by (simp add: c' c1_def minh_fixed)
    then show ?thesis using inv i 3 unfolding p' pmu_inv_def by (auto simp: nth_list_update)
  qed
qed

lemma stop_one_inv:
  assumes hw: "pmu_hw_ok legal u" and ok: "counter_set_ok u base msk" and inv: "pmu_inv u p c"
    and r: "stop_one legal feat base msk flags snap i (rc, ov, mem, p, c) = (rc', ov', mem', p', c')"
  shows "pmu_inv u p' c'"
proof (cases "bit msk i")
  case False
  then show ?thesis using r inv by (simp add: stop_one_def Let_def)
next
  case True
  define k where "k = unat (base + of_nat i)"
  note ex = counter_set_okD [OF ok True, folded k_def]
  obtain rc1 p1 c1 where h: "stop_halt legal k rc p c = (rc1, p1, c1)" by (metis prod_cases3)
  from stop_halt_inv [OF hw inv _ h] ex
  have inv1: "pmu_inv u p1 c1" and ih: "3 \<le> k \<and> k < 32 \<longrightarrow> counter_inhibited c1 k" by auto
  have s: "(p', c') = (if bit flags SBI_PMU_STOP_FLAG_RESET then stop_reset legal feat k p1 c1 else (p1, c1))"
    using r True h by (auto simp: stop_one_def Let_def k_def [symmetric] split: prod.splits if_splits)
  show ?thesis
  proof (cases "bit flags SBI_PMU_STOP_FLAG_RESET")
    case True
    then have "stop_reset legal feat k p1 c1 = (p', c')" using s by simp
    from stop_reset_inv [OF hw inv1 _ _ _ this] ex ih show ?thesis by blast
  qed (use s inv1 in simp)
qed

lemma stop_loop_inv:
  assumes hw: "pmu_hw_ok legal u" and ok: "counter_set_ok u base msk" and inv: "pmu_inv u p c"
    and r: "stop_loop legal feat base msk flags snap mem p c = ((rc, mem', p'), c')"
  shows "pmu_inv u p' c'"
proof -
  let ?I = "\<lambda>s. case s of (rc, ov, mem, p, c) \<Rightarrow> pmu_inv u p c"
  have "?I (fold (stop_one legal feat base msk flags snap) is (rc, ov, mem, p, c))" for "is" rc ov
    using inv
  proof (induction "is" arbitrary: rc ov mem p c)
    case (Cons i "is")
    obtain rc1 ov1 mem1 p1 c1 where
      s: "stop_one legal feat base msk flags snap i (rc, ov, mem, p, c) = (rc1, ov1, mem1, p1, c1)"
      by (metis prod_cases5)
    from Cons.IH [OF stop_one_inv [OF hw ok Cons.prems s]] show ?case by (simp add: s)
  qed simp
  from this [of "[0..<64]" SBI_SUCCESS 0] r show ?thesis
    by (auto simp: stop_loop_def split: prod.splits)
qed

lemma pmu_inv_regs:
  assumes "\<And>k. CSR_MHPMEVENT0 \<le> k \<Longrightarrow> k < CSR_MHPMEVENT0 + 32 \<Longrightarrow> c' k = c k"
  shows "pmu_inv u p c' = pmu_inv u p c"
  by (rule pmu_inv_cong) (auto simp: counter_inhibited_def minh_set_def assms)

lemma pmu_inv_window: "(\<And>k. \<not> pmp_csr k \<Longrightarrow> c' k = c k) \<Longrightarrow> pmu_inv u p c' = pmu_inv u p c"
  by (rule pmu_inv_regs) (simp add: pmp_csr_def)

lemma pmu_counter_start_inv:
  assumes hw: "pmu_hw_ok (m_legal m) u" and inv: "pmu_inv u p c"
    and r: "pmu_counter_start m u base msk flags v mem p c = Inr ((rc, p'), c')"
  shows "pmu_inv u p' c'"
proof (cases "p' = p \<and> c' = c")
  case False
  then have ok: "counter_set_ok u base msk"
    using r by (auto simp: pmu_counter_start_def split: if_splits)
  consider "start_loop (m_legal m) (m_feat m) base msk flags v None p c = ((rc, p'), c')"
    | "with_window m (snapshot p) SNAPSHOT_SIZE
         (start_loop (m_legal m) (m_feat m) base msk flags v (Some mem) p) c = Inr ((rc, p'), c')"
    using r False by (auto simp: pmu_counter_start_def split: if_splits)
  then show ?thesis
  proof cases
    case 1
    then show ?thesis by (rule start_loop_inv [OF hw ok inv])
  next
    case 2
    then obtain c1 c2 where f: "start_loop (m_legal m) (m_feat m) base msk flags v (Some mem) p c1 = ((rc, p'), c2)"
      and w: "\<And>k. \<not> pmp_csr k \<Longrightarrow> c1 k = c k" "\<And>k. \<not> pmp_csr k \<Longrightarrow> c' k = c2 k"
      by (rule with_window_Inr) blast
    have "pmu_inv u p c1" using inv pmu_inv_window [OF w(1)] by simp
    from start_loop_inv [OF hw ok this f] show ?thesis using pmu_inv_window [OF w(2)] by simp
  qed
qed (use inv in simp)

lemma pmu_counter_stop_inv:
  assumes hw: "pmu_hw_ok (m_legal m) u" and inv: "pmu_inv u p c"
    and r: "pmu_counter_stop m u base msk flags mem p c = Inr ((rc, mem', p'), c')"
  shows "pmu_inv u p' c'"
proof (cases "p' = p \<and> c' = c")
  case False
  then have ok: "counter_set_ok u base msk"
    using r by (auto simp: pmu_counter_stop_def split: if_splits)
  consider "stop_loop (m_legal m) (m_feat m) base msk flags False mem p c = ((rc, mem', p'), c')"
    | "with_window m (snapshot p) SNAPSHOT_SIZE
         (stop_loop (m_legal m) (m_feat m) base msk flags True mem p) c = Inr ((rc, mem', p'), c')"
    using r False by (auto simp: pmu_counter_stop_def split: if_splits)
  then show ?thesis
  proof cases
    case 1
    then show ?thesis by (rule stop_loop_inv [OF hw ok inv])
  next
    case 2
    then obtain c1 c2 where f: "stop_loop (m_legal m) (m_feat m) base msk flags True mem p c1 = ((rc, mem', p'), c2)"
      and w: "\<And>k. \<not> pmp_csr k \<Longrightarrow> c1 k = c k" "\<And>k. \<not> pmp_csr k \<Longrightarrow> c' k = c2 k"
      by (rule with_window_Inr) blast
    have "pmu_inv u p c1" using inv pmu_inv_window [OF w(1)] by simp
    from stop_loop_inv [OF hw ok this f] show ?thesis using pmu_inv_window [OF w(2)] by simp
  qed
qed (use inv in simp)

lemma init_events_inhibit:
  "counter_inhibited (fold (\<lambda>n c. if bit (hw_counters u) n then hw_event_write legal feat n 0 c else c) ns c) n =
   counter_inhibited c n"
  by (induction ns arbitrary: c) (simp_all add: inhibited_event)

lemma pmu_hart_init_inv:
  assumes hw: "pmu_hw_ok legal u" and ih: "have_inhibit u \<or> hw_counters u = 0"
    and len: "length (hs_select (pmu_hw p)) = PMU_HW_COUNTERS"
    and r: "pmu_hart_init legal feat u p c = (p', c')"
  shows "pmu_inv u p' c'"
proof -
  have p': "pmu_event p' = replicate PMU_COUNTERS EVENT_NONE" "pmu_hw p' = pmu_hw p"
    using r by (auto simp: pmu_hart_init_def Let_def simp del: upt_rec_numeral split: if_splits)
  have "counter_inhibited c' n" if n: "3 \<le> n" "n < 32" "bit (hw_counters u) n" for n
  proof -
    have "have_inhibit u" using ih n(3) by auto
    then have "counter_inhibited c' n =
        counter_inhibited (csr_write legal CSR_MCOUNTINHIBIT (ucast (hw_counters u) AND NOT (BIT 0 OR BIT 2)) c) n"
      using r by (auto simp: pmu_hart_init_def Let_def inhibited_event init_events_inhibit simp del: upt_rec_numeral)
    also have "\<dots>" unfolding inhibit_write legal_inhibit [OF hw n(3,2)]
      using n by (simp add: bit_and_iff bit_not_iff bit_or_iff bit_ucast_iff bit_BIT)
    finally show ?thesis .
  qed
  then show ?thesis using p' len by (simp add: pmu_inv_def nth_replicate)
qed

section \<open>Switching domains\<close>

lemma save_fold:
  "k \<le> 32 \<Longrightarrow> length (hs_value h) = 32 \<Longrightarrow> length (hs_select h) = 32 \<Longrightarrow>
   h' = fold (save_one feat u c) [0..<k] h \<Longrightarrow>
   length (hs_value h') = 32 \<and> length (hs_select h') = 32 \<and> hs_inhibit h' = hs_inhibit h \<and>
   irq_enabled h' = irq_enabled h \<and> irq_delegated h' = irq_delegated h \<and> irq_pending h' = irq_pending h \<and>
   (\<forall>n<k. bit (hw_counters u) n \<longrightarrow>
      hs_value h' ! n = hw_counter_read n c \<and> hs_select h' ! n = hw_event_read feat n c)"
proof (induction k arbitrary: h')
  case (Suc k)
  define g where "g = fold (save_one feat u c) [0..<k] h"
  have h': "h' = save_one feat u c k g" using Suc.prems(4) by (simp add: g_def)
  have k: "k < 32" using Suc.prems(1) by simp
  have "k \<le> 32" using k by simp
  note IH = Suc.IH [OF this Suc.prems(2,3) g_def]
  show ?case
  proof (cases "bit (hw_counters u) k")
    case True
    then have "h' = g\<lparr>hs_value := (hs_value g)[k := hw_counter_read k c],
        hs_select := (hs_select g)[k := hw_event_read feat k c]\<rparr>" by (simp add: h' save_one_def)
    then show ?thesis using IH k by (simp add: nth_list_update less_Suc_eq)
  next
    case False
    then have "h' = g" by (simp add: h' save_one_def)
    then show ?thesis using IH False by (auto simp: less_Suc_eq)
  qed
qed simp

text \<open>What a register holds was written to it in some state.\<close>

definition wrote :: "warl \<Rightarrow> csrs \<Rightarrow> nat \<Rightarrow> ulong \<Rightarrow> bool" where
  "wrote legal c r v \<longleftrightarrow> (\<exists>c1. c r = legal c1 r v)"

definition restored :: "warl \<Rightarrow> features \<Rightarrow> pmu_saved \<Rightarrow> nat \<Rightarrow> csrs \<Rightarrow> bool" where
  "restored legal feat h n c \<longleftrightarrow>
     wrote legal c (CSR_MCYCLE + n) (hs_value h ! n) \<and>
     (if n < 3 then feat HART_FEAT_SMCNTRPMF \<longrightarrow>
        wrote legal c (if n = 0 then CSR_MCYCLECFG else CSR_MINSTRETCFG) (hs_select h ! n AND FILTER_BITS)
      else wrote legal c (CSR_MHPMEVENT0 + n) (hs_select h ! n))"

lemma restore_one_restored:
  assumes "n \<noteq> 1" "n < 32" "bit (hw_counters u) n"
  shows "restored legal feat h n (restore_one legal feat u h n c)"
  using assms
  by (auto simp: restored_def restore_one_def wrote_def hw_counter_write_def mcounter_write_def
      hw_event_write_def fixed_cfg_write_def mhpmevent_write_def csr_write_def)

lemma restore_one_keeps:
  assumes "restored legal feat h j c" "j < n" "j \<noteq> 1" "n < 32"
  shows "restored legal feat h j (restore_one legal feat u h n c)"
proof -
  have "restore_one legal feat u h n c r = c r"
    if "r \<noteq> CSR_MCYCLE + n" "3 \<le> n \<longrightarrow> r \<noteq> CSR_MHPMEVENT0 + n" "n = 2 \<longrightarrow> r \<noteq> CSR_MINSTRETCFG" for r
    using that assms(2) by (auto simp: restore_one_def hw_counter_write_def mcounter_write_def
        hw_event_write_def fixed_cfg_write_def mhpmevent_write_def csr_write_def)
  then show ?thesis using assms by (auto simp: restored_def wrote_def split: if_splits)
qed

lemma restore_one_inhibit: "restore_one legal feat u h n c CSR_MCOUNTINHIBIT = c CSR_MCOUNTINHIBIT"
  by (auto simp: restore_one_def hw_counter_write_def mcounter_write_def
      hw_event_write_def fixed_cfg_write_def mhpmevent_write_def csr_write_def)

lemma restore_fold:
  assumes "\<not> bit (hw_counters u) 1"
  shows "k \<le> 32 \<Longrightarrow> n < k \<Longrightarrow> bit (hw_counters u) n \<Longrightarrow>
    restored legal feat h n (fold (restore_one legal feat u h) [0..<k] c)"
proof (induction k)
  case (Suc k)
  have n1: "n \<noteq> 1" using assms Suc.prems(3) by metis
  show ?case
  proof (cases "n = k")
    case True
    then show ?thesis using Suc.prems n1 by (simp add: restore_one_restored)
  next
    case False
    then show ?thesis using Suc n1 by (simp add: restore_one_keeps)
  qed
qed simp

text \<open>The registers of the PMU after a switch to a slot: as its saved side has them.\<close>

lemma switch_in_regs:
  assumes one: "\<not> bit (hw_counters u) 1" and ih: "have_inhibit u" and n: "n < 32" "bit (hw_counters u) n"
    and p1: "p1 = fst (if fresh then pmu_hart_init legal feat u (p\<lparr>pmu_hw := fresh_saved u\<rparr>) c else (p, c))"
    and r: "pmu_hart_switch_in legal feat u fresh p c = (p', c')"
  shows "p' = p1 \<and> restored legal feat (pmu_hw p1) n c' \<and> wrote legal c' CSR_MCOUNTINHIBIT (hs_inhibit (pmu_hw p1))"
proof -
  define c0 where "c0 = snd (if fresh then pmu_hart_init legal feat u (p\<lparr>pmu_hw := fresh_saved u\<rparr>) c else (p, c))"
  define h where "h = pmu_hw p1"
  define c1 where "c1 = fold (restore_one legal feat u h) [0..<32]
     (csr_write legal CSR_MCOUNTINHIBIT (ucast (hw_counters u)) c0)"
  define c2 where "c2 = csr_write legal CSR_MCOUNTINHIBIT (hs_inhibit h) c1"
  have "(p', c') = (p1, if feat HART_FEAT_SSCOFPMF
                then csr_set legal CSR_MIE (irq_enabled h)
                      (csr_set legal CSR_MIP (irq_pending h)
                       (csr_clear legal CSR_MIP (BIT IRQ_PMU_OVF)
                        (csr_set legal CSR_MIDELEG (irq_delegated h)
                         (csr_clear legal CSR_MIDELEG (BIT IRQ_PMU_OVF)
                          (csr_clear legal CSR_MIE (BIT IRQ_PMU_OVF) c2))))) else c2)"
    unfolding r [symmetric] pmu_hart_switch_in_def Let_def case_prod_beta c2_def c1_def c0_def h_def p1
    using ih by (simp only: if_True)
  then have p': "p' = p1" and keep: "c' k = c2 k" if "k \<noteq> CSR_MIE" "k \<noteq> CSR_MIP" "k \<noteq> CSR_MIDELEG" for k
    using that by (simp_all add: csr_set_other csr_clear_other)
  have "restored legal feat h n c1" unfolding c1_def using one n by (intro restore_fold) auto
  then have "restored legal feat h n c'"
    using keep n(1) by (auto simp: restored_def wrote_def c2_def csr_write_def split: if_splits)
  moreover have "wrote legal c' CSR_MCOUNTINHIBIT (hs_inhibit h)"
    using keep by (auto simp: wrote_def c2_def csr_write_def)
  ultimately show ?thesis using p' [of 0] by (simp add: h_def)
qed

lemma read_frame:
  assumes "\<And>k. k \<noteq> CSR_MIE \<Longrightarrow> k \<noteq> CSR_MIP \<Longrightarrow> k \<noteq> CSR_MCOUNTINHIBIT \<Longrightarrow> c' k = c k"
  shows "hw_counter_read n c' = hw_counter_read n c" "hw_event_read feat n c' = hw_event_read feat n c"
  using assms
  by (auto simp: hw_counter_read_def mcounter_read_def hw_event_read_def fixed_cfg_read_def mhpmevent_read_def csr_read_def)

lemma switch_out_saved:
  assumes ih: "have_inhibit u" and len: "length (hs_value (pmu_hw p)) = 32" "length (hs_select (pmu_hw p)) = 32"
    and r: "pmu_hart_switch_out legal feat u p c = (p', c')"
  shows "p' = p\<lparr>pmu_hw := pmu_hw p'\<rparr>"
    "length (hs_value (pmu_hw p')) = 32" "length (hs_select (pmu_hw p')) = 32"
    "hs_inhibit (pmu_hw p') = c CSR_MCOUNTINHIBIT"
    "n < 32 \<Longrightarrow> bit (hw_counters u) n \<Longrightarrow> hs_value (pmu_hw p') ! n = hw_counter_read n c"
    "n < 32 \<Longrightarrow> bit (hw_counters u) n \<Longrightarrow> hs_select (pmu_hw p') ! n = hw_event_read feat n c"
    "feat HART_FEAT_SSCOFPMF \<Longrightarrow> irq_enabled (pmu_hw p') = c CSR_MIE AND BIT IRQ_PMU_OVF"
    "feat HART_FEAT_SSCOFPMF \<Longrightarrow> irq_delegated (pmu_hw p') = c CSR_MIDELEG AND BIT IRQ_PMU_OVF"
    "feat HART_FEAT_SSCOFPMF \<Longrightarrow> irq_pending (pmu_hw p') = c CSR_MIP AND BIT IRQ_PMU_OVF"
proof -
  define h0 where "h0 = (if feat HART_FEAT_SSCOFPMF
     then (pmu_hw p)\<lparr>irq_enabled := csr_read CSR_MIE c AND BIT IRQ_PMU_OVF,
            irq_delegated := csr_read CSR_MIDELEG c AND BIT IRQ_PMU_OVF,
            irq_pending := csr_read CSR_MIP c AND BIT IRQ_PMU_OVF\<rparr> else pmu_hw p)"
  define c1 where "c1 = (if feat HART_FEAT_SSCOFPMF then csr_clear legal CSR_MIE (BIT IRQ_PMU_OVF) c else c)"
  define h where "h = h0\<lparr>hs_inhibit := csr_read CSR_MCOUNTINHIBIT c1\<rparr>"
  define c2 where "c2 = csr_write legal CSR_MCOUNTINHIBIT (ucast (hw_counters u)) c1"
  define g where "g = fold (save_one feat u c2) [0..<32] h"
  have e: "(p', c') = (p\<lparr>pmu_hw := g\<rparr>, c2)"
    unfolding r [symmetric] pmu_hart_switch_out_def Let_def g_def c2_def h_def c1_def h0_def
    using ih by (simp del: upt_rec_numeral)
  have lh: "length (hs_value h) = 32" "length (hs_select h) = 32"
    using len by (simp_all add: h_def h0_def)
  note sv = save_fold [OF order_refl lh g_def]
  have f: "c2 k = c k" if "k \<noteq> CSR_MIE" "k \<noteq> CSR_MIP" "k \<noteq> CSR_MCOUNTINHIBIT" for k
    using that by (simp add: c2_def c1_def csr_write_plain_other csr_clear_other)
  have i: "hs_inhibit h = c CSR_MCOUNTINHIBIT"
    by (simp add: h_def inhibit_read c1_def csr_clear_other)
  show "p' = p\<lparr>pmu_hw := pmu_hw p'\<rparr>" "length (hs_value (pmu_hw p')) = 32" "length (hs_select (pmu_hw p')) = 32"
    "hs_inhibit (pmu_hw p') = c CSR_MCOUNTINHIBIT"
    using e sv i by auto
  show "n < 32 \<Longrightarrow> bit (hw_counters u) n \<Longrightarrow> hs_value (pmu_hw p') ! n = hw_counter_read n c"
    "n < 32 \<Longrightarrow> bit (hw_counters u) n \<Longrightarrow> hs_select (pmu_hw p') ! n = hw_event_read feat n c"
    using e sv read_frame [OF f] by auto
  show "feat HART_FEAT_SSCOFPMF \<Longrightarrow> irq_enabled (pmu_hw p') = c CSR_MIE AND BIT IRQ_PMU_OVF"
    "feat HART_FEAT_SSCOFPMF \<Longrightarrow> irq_delegated (pmu_hw p') = c CSR_MIDELEG AND BIT IRQ_PMU_OVF"
    "feat HART_FEAT_SSCOFPMF \<Longrightarrow> irq_pending (pmu_hw p') = c CSR_MIP AND BIT IRQ_PMU_OVF"
    using e sv by (auto simp: h_def h0_def csr_read_def)
qed

lemma switch_out_inv:
  assumes ih: "have_inhibit u" and len: "length (hs_value (pmu_hw p)) = 32" and inv: "pmu_inv u p c"
    and r: "pmu_hart_switch_out legal feat u p c = (p', c')"
  shows "saved_inv u p' \<and> length (hs_value (pmu_hw p')) = 32"
proof -
  have ls: "length (hs_select (pmu_hw p)) = 32" using inv by (simp add: pmu_inv_def)
  note s = switch_out_saved [OF ih len ls r]
  have ev: "pmu_event p' = pmu_event p" using arg_cong [OF s(1), of pmu_event] by simp
  have "hs_select (pmu_hw p') ! n = c (CSR_MHPMEVENT0 + n)" if "3 \<le> n" "n < 32" "bit (hw_counters u) n" for n
    using s(6) [OF that(2,3)] that by (simp add: hw_event_read_def mhpmevent_read_def csr_read_def)
  then show ?thesis using inv s(2-4) ev
    by (auto simp: saved_inv_def pmu_inv_def counter_inhibited_def minh_set_def)
qed

lemma restored_inv:
  assumes hw: "pmu_hw_ok legal u" and s: "saved_inv u p"
    and r: "\<And>n. n < 32 \<Longrightarrow> bit (hw_counters u) n \<Longrightarrow> restored legal feat (pmu_hw p) n c"
    and w: "wrote legal c CSR_MCOUNTINHIBIT (hs_inhibit (pmu_hw p)) \<or> hw_counters u = 0"
  shows "pmu_inv u p c"
proof -
  have "minh_set c n = bit (hs_select (pmu_hw p) ! n) HPMEVENT_MINH_BIT" "counter_inhibited c n = bit (hs_inhibit (pmu_hw p)) n"
    if n: "3 \<le> n" "n < 32" "bit (hw_counters u) n" for n
  proof -
    obtain c1 where "c (CSR_MHPMEVENT0 + n) = legal c1 (CSR_MHPMEVENT0 + n) (hs_select (pmu_hw p) ! n)"
      using r [OF n(2,3)] n by (auto simp: restored_def wrote_def)
    then show "minh_set c n = bit (hs_select (pmu_hw p) ! n) HPMEVENT_MINH_BIT"
      using hw n by (auto simp: minh_set_def pmu_hw_ok_def)
    obtain c2 where "c CSR_MCOUNTINHIBIT = legal c2 CSR_MCOUNTINHIBIT (hs_inhibit (pmu_hw p))"
      using w n by (auto simp: wrote_def)
    then show "counter_inhibited c n = bit (hs_inhibit (pmu_hw p)) n"
      using hw n by (auto simp: counter_inhibited_def pmu_hw_ok_def)
  qed
  then show ?thesis using s by (auto simp: saved_inv_def pmu_inv_def)
qed

lemma fresh_saved_inv:
  assumes "length (hs_value (pmu_hw p)) = 32"
    and "pmu_hart_init legal feat u (p\<lparr>pmu_hw := fresh_saved u\<rparr>) c = (p', c')"
  shows "saved_inv u p' \<and> pmu_hw p' = fresh_saved u"
proof -
  have p': "pmu_event p' = replicate PMU_COUNTERS EVENT_NONE" "pmu_hw p' = fresh_saved u"
    using assms(2) by (auto simp: pmu_hart_init_def Let_def simp del: upt_rec_numeral split: if_splits)
  then show ?thesis
    by (auto simp: saved_inv_def fresh_saved_def bit_and_iff bit_not_iff bit_or_iff bit_BIT bit_ucast_iff nth_replicate)
qed

section \<open>Everything S-mode can do to the counters\<close>

text \<open>
  The slots of the domains on one hart, the ones that have run there, the one that runs,
  and the registers. Whatever else happens on the hart, counters counting included,
  leaves the filters and the inhibit bits alone (S-mode has no access to them).
\<close>

inductive pmu_reach ::
  "monitor \<Rightarrow> pmu \<Rightarrow> (nat \<Rightarrow> pmu_hart) \<Rightarrow> (nat \<Rightarrow> bool) \<Rightarrow> nat \<Rightarrow> csrs \<Rightarrow> bool"
  for m :: monitor and u :: pmu where
  boot: "\<forall>j. length (hs_value (pmu_hw (sl j))) = 32 \<and> length (hs_select (pmu_hw (sl j))) = 32 \<Longrightarrow>
    pmu_hart_init (m_legal m) (m_feat m) u (sl k) c = (p, c') \<Longrightarrow>
    pmu_reach m u (sl(k := p)) ((\<lambda>_. False)(k := True)) k c'"
| restart: "pmu_reach m u sl used k c \<Longrightarrow>
    pmu_hart_init (m_legal m) (m_feat m) u (sl k) c = (p, c') \<Longrightarrow> pmu_reach m u (sl(k := p)) used k c'"
| config: "pmu_reach m u sl used k c \<Longrightarrow>
    pmu_counter_config (m_legal m) (m_feat m) u base msk flags ev data (sl k) c = (rc, i, p, c') \<Longrightarrow>
    pmu_reach m u (sl(k := p)) used k c'"
| start: "pmu_reach m u sl used k c \<Longrightarrow>
    pmu_counter_start m u base msk flags v mem (sl k) c = Inr ((rc, p), c') \<Longrightarrow>
    pmu_reach m u (sl(k := p)) used k c'"
| stop: "pmu_reach m u sl used k c \<Longrightarrow>
    pmu_counter_stop m u base msk flags mem (sl k) c = Inr ((rc, mem', p), c') \<Longrightarrow>
    pmu_reach m u (sl(k := p)) used k c'"
| fw_event: "pmu_reach m u sl used k c \<Longrightarrow> pmu_reach m u (sl(k := pmu_fw_event ev (sl k))) used k c"
| shmem: "pmu_reach m u sl used k c \<Longrightarrow>
    pmu_snapshot_set_shmem (m_regions m) dm lo hi flags (sl k) = (rc, p) \<Longrightarrow>
    pmu_reach m u (sl(k := p)) used k c"
| sse_enable: "pmu_reach m u sl used k c \<Longrightarrow> pmu_sse_enable (m_legal m) en (sl k) c = (p, c') \<Longrightarrow>
    pmu_reach m u (sl(k := p)) used k c'"
| change: "pmu_reach m u sl used k c \<Longrightarrow> j \<noteq> k \<Longrightarrow>
    pmu_hart_switch_out (m_legal m) (m_feat m) u (sl k) c = (p, c1) \<Longrightarrow>
    pmu_hart_switch_in (m_legal m) (m_feat m) u (\<not> used j) (sl j) c1 = (q, c2) \<Longrightarrow>
    pmu_reach m u (sl(k := p, j := q)) (used(j := True)) j c2"
| other: "pmu_reach m u sl used k c \<Longrightarrow> c' CSR_MCOUNTINHIBIT = c CSR_MCOUNTINHIBIT \<Longrightarrow>
    (\<forall>n. 3 \<le> n \<and> n < 32 \<longrightarrow> minh_set c' n = minh_set c n) \<Longrightarrow> pmu_reach m u sl used k c'"

definition reach_inv :: "pmu \<Rightarrow> (nat \<Rightarrow> pmu_hart) \<Rightarrow> (nat \<Rightarrow> bool) \<Rightarrow> nat \<Rightarrow> csrs \<Rightarrow> bool" where
  "reach_inv u sl used k c \<longleftrightarrow>
     pmu_inv u (sl k) c \<and> (\<forall>j. j \<noteq> k \<and> used j \<longrightarrow> saved_inv u (sl j)) \<and>
     (\<forall>j. length (hs_value (pmu_hw (sl j))) = 32 \<and> length (hs_select (pmu_hw (sl j))) = 32)"

lemma reach_inv_upd:
  assumes "reach_inv u sl used k c" "pmu_inv u p c'" "length (hs_value (pmu_hw p)) = 32"
  shows "reach_inv u (sl(k := p)) used k c'"
  using assms by (auto simp: reach_inv_def pmu_inv_def)

lemma reach_inv_keep:
  assumes "reach_inv u sl used k c" "pmu_inv u p c'" "pmu_hw p = pmu_hw (sl k)"
  shows "reach_inv u (sl(k := p)) used k c'"
  using assms by (auto intro: reach_inv_upd simp: reach_inv_def)

text \<open>No call but a switch touches the saved side of the slot.\<close>

lemma config_hw: "pmu_counter_config legal feat u base msk flags ev data p c = (rc, i, p', c') \<Longrightarrow> pmu_hw p' = pmu_hw p"
  by (erule pmu_counter_config_cases)
    (auto simp: config_apply_def counter_start_one_def Let_def split: if_splits)

lemma start_one_hw: "start_one legal feat base msk flags snap i (rc, v, p, c) = (rc', v', p', c') \<Longrightarrow> pmu_hw p' = pmu_hw p"
  by (auto simp: start_one_def counter_start_one_def Let_def split: if_splits prod.splits option.splits)

lemma start_loop_hw:
  assumes "start_loop legal feat base msk flags v snap p c = ((rc, p'), c')"
  shows "pmu_hw p' = pmu_hw p"
proof -
  let ?I = "\<lambda>s. case s of (rc, v, q, c) \<Rightarrow> pmu_hw q = pmu_hw p"
  have "?I (fold (start_one legal feat base msk flags snap) is (rc, v, q, c))" if "pmu_hw q = pmu_hw p" for "is" rc v q c
    using that
  proof (induction "is" arbitrary: rc v q c)
    case (Cons i "is")
    obtain rc1 v1 p1 c1 where s: "start_one legal feat base msk flags snap i (rc, v, q, c) = (rc1, v1, p1, c1)"
      by (metis prod_cases4)
    show ?case using Cons.IH [of p1] start_one_hw [OF s] Cons.prems by (simp add: s)
  qed simp
  from this [OF refl, of "[0..<64]" SBI_SUCCESS v c] assms show ?thesis
    by (auto simp: start_loop_def split: prod.splits)
qed

lemma stop_one_hw:
  "stop_one legal feat base msk flags snap i (rc, ov, mem, p, c) = (rc', ov', mem', p', c') \<Longrightarrow> pmu_hw p' = pmu_hw p"
  by (auto simp: stop_one_def stop_halt_def stop_reset_def Let_def split: if_splits prod.splits)

lemma stop_loop_hw:
  assumes "stop_loop legal feat base msk flags snap mem p c = ((rc, mem', p'), c')"
  shows "pmu_hw p' = pmu_hw p"
proof -
  let ?I = "\<lambda>s. case s of (rc, ov, mem, q, c) \<Rightarrow> pmu_hw q = pmu_hw p"
  have "?I (fold (stop_one legal feat base msk flags snap) is (rc, ov, mem, q, c))"
    if "pmu_hw q = pmu_hw p" for "is" rc ov mem q c
    using that
  proof (induction "is" arbitrary: rc ov mem q c)
    case (Cons i "is")
    obtain rc1 ov1 mem1 p1 c1 where
      s: "stop_one legal feat base msk flags snap i (rc, ov, mem, q, c) = (rc1, ov1, mem1, p1, c1)"
      by (metis prod_cases5)
    show ?case using Cons.IH [of p1] stop_one_hw [OF s] Cons.prems by (simp add: s)
  qed simp
  from this [OF refl, of "[0..<64]" SBI_SUCCESS 0 mem c] assms show ?thesis
    by (auto simp: stop_loop_def split: prod.splits)
qed

lemma pmu_counter_start_hw:
  "pmu_counter_start m u base msk flags v mem p c = Inr ((rc, p'), c') \<Longrightarrow> pmu_hw p' = pmu_hw p"
  by (auto simp: pmu_counter_start_def elim!: with_window_Inr dest: start_loop_hw split: if_splits)

lemma pmu_counter_stop_hw:
  "pmu_counter_stop m u base msk flags mem p c = Inr ((rc, mem', p'), c') \<Longrightarrow> pmu_hw p' = pmu_hw p"
  by (auto simp: pmu_counter_stop_def elim!: with_window_Inr dest: stop_loop_hw split: if_splits)

lemma pmu_fw_event_fold:
  fixes idx :: u32
  defines "F \<equiv> \<lambda>i p. if bit (fw_started p) i \<and> pmu_event p ! (PMU_FW_FIRST + i) = idx
                       then p\<lparr>fw_value := (fw_value p)[i := fw_value p ! i + 1]\<rparr> else p"
  shows "fold F [0..<k] p = p\<lparr>fw_value := fw_value (fold F [0..<k] p)\<rparr> \<and>
    (length (fw_value p) = 16 \<and> k \<le> 16 \<longrightarrow> length (fw_value (fold F [0..<k] p)) = 16 \<and>
      (\<forall>i<16. fw_value (fold F [0..<k] p) ! i =
        fw_value p ! i + (if i < k \<and> bit (fw_started p) i \<and> pmu_event p ! (PMU_FW_FIRST + i) = idx then 1 else 0)))"
proof (induction k)
  case (Suc k)
  define g where "g = fold F [0..<k] p"
  have same: "fw_started g = fw_started p" "pmu_event g = pmu_event p"
    using Suc [folded g_def] by (metis pmu_hart.select_convs(4,5) pmu_hart.surjective pmu_hart.update_convs(6))+
  have g: "g = p\<lparr>fw_value := fw_value g\<rparr>" using Suc [folded g_def] by blast
  have st: "fold F [0..<Suc k] p = F k g" by (simp add: g_def)
  have "F k g = g\<lparr>fw_value := fw_value (F k g)\<rparr>" by (simp add: F_def)
  moreover have "g\<lparr>fw_value := v\<rparr> = p\<lparr>fw_value := v\<rparr>" for v
    using arg_cong [OF g, of "\<lambda>g. g\<lparr>fw_value := v\<rparr>"] by simp
  ultimately have "F k g = p\<lparr>fw_value := fw_value (F k g)\<rparr>" by simp
  then show ?case unfolding st using Suc [folded g_def] same by (auto simp: F_def nth_list_update less_Suc_eq)
qed simp

lemma pmu_fw_event_frame: "pmu_fw_event ev p = p\<lparr>fw_value := fw_value (pmu_fw_event ev p)\<rparr>"
proof (cases "fw_started p = 0")
  case False
  let ?idx = "push_bit 16 SBI_PMU_EVENT_TYPE_FW OR ev"
  show ?thesis
    unfolding pmu_fw_event_def Let_def if_not_P [OF False]
    by (rule conjunct1 [OF pmu_fw_event_fold [where k = 16 and p = p and idx = ?idx]])
qed (simp add: pmu_fw_event_def Let_def)

lemma pmu_fw_event_keeps: "pmu_event (pmu_fw_event ev p) = pmu_event p" "pmu_hw (pmu_fw_event ev p) = pmu_hw p"
  by (subst pmu_fw_event_frame, simp)+

lemma shmem_keeps:
  "pmu_snapshot_set_shmem mrs dm lo hi flags p = (rc, p') \<Longrightarrow> pmu_event p' = pmu_event p \<and> pmu_hw p' = pmu_hw p"
  by (auto simp: pmu_snapshot_set_shmem_def split: if_splits)

lemma sse_enable_keeps:
  assumes "pmu_sse_enable legal en p c = (p', c')"
  shows "pmu_event p' = pmu_event p" "pmu_hw p' = pmu_hw p"
    "CSR_MHPMEVENT0 \<le> k \<Longrightarrow> k < CSR_MHPMEVENT0 + 32 \<Longrightarrow> c' k = c k"
  using assms
  by (auto simp: pmu_sse_enable_def Let_def csr_set_other csr_clear_other split: if_splits)

lemma pmu_inv_slot: "pmu_event p' = pmu_event p \<Longrightarrow> pmu_hw p' = pmu_hw p \<Longrightarrow> pmu_inv u p' c = pmu_inv u p c"
  by (simp add: pmu_inv_def)

lemma switch_in_inv:
  assumes hw: "pmu_hw_ok legal u" and one: "\<not> bit (hw_counters u) 1" and ih: "have_inhibit u"
    and s: "\<not> fresh \<Longrightarrow> saved_inv u q" and len: "length (hs_value (pmu_hw q)) = 32"
    and r: "pmu_hart_switch_in legal feat u fresh q c = (q', c')"
  shows "pmu_inv u q' c' \<and> length (hs_value (pmu_hw q')) = 32"
proof -
  define p1 where "p1 = fst (if fresh then pmu_hart_init legal feat u (q\<lparr>pmu_hw := fresh_saved u\<rparr>) c else (q, c))"
  have regs: "q' = p1 \<and> restored legal feat (pmu_hw p1) n c' \<and> wrote legal c' CSR_MCOUNTINHIBIT (hs_inhibit (pmu_hw p1))"
    if "n < 32" "bit (hw_counters u) n" for n
    by (rule switch_in_regs [OF one ih that p1_def r])
  have s1: "saved_inv u p1" "length (hs_value (pmu_hw p1)) = 32"
    using s len fresh_saved_inv [OF len prod.collapse [symmetric], where legal = legal and feat = feat and u = u and c = c]
    by (cases fresh; simp add: p1_def fresh_saved_def)+
  have q': "q' = p1" using r by (simp add: pmu_hart_switch_in_def Let_def case_prod_beta p1_def del: upt_rec_numeral)
  have "pmu_inv u p1 c'"
    using hw s1(1)
  proof (rule restored_inv)
    show "wrote legal c' CSR_MCOUNTINHIBIT (hs_inhibit (pmu_hw p1)) \<or> hw_counters u = 0"
    proof (cases "\<exists>n<32. bit (hw_counters u) n")
      case False
      then have "hw_counters u = 0" by (auto intro: bit_word_eqI)
      then show ?thesis ..
    qed (use regs in blast)
  qed (use regs in blast)
  then show ?thesis using q' s1(2) by simp
qed

lemma reach_inv:
  assumes hw: "pmu_hw_ok (m_legal m) u" and feat: "m_feat m HART_FEAT_SSCOFPMF"
    and one: "\<not> bit (hw_counters u) 1" and ih: "have_inhibit u" and r: "pmu_reach m u sl used k c"
  shows "reach_inv u sl used k c"
  using r
proof (induction rule: pmu_reach.induct)
  case (boot sl k c p c')
  have p: "pmu_hw p = pmu_hw (sl k)"
    using boot by (auto simp: pmu_hart_init_def Let_def simp del: upt_rec_numeral split: if_splits)
  have "pmu_inv u p c'" using pmu_hart_init_inv [OF hw _ _ boot(2)] ih boot(1) by simp
  then show ?case using boot(1) p by (simp add: reach_inv_def)
next
  case (restart sl used k c p c')
  have p: "pmu_hw p = pmu_hw (sl k)"
    using restart by (auto simp: pmu_hart_init_def Let_def simp del: upt_rec_numeral split: if_splits)
  have "pmu_inv u p c'" using pmu_hart_init_inv [OF hw _ _ restart(2)] ih restart(3) by (simp add: reach_inv_def)
  then show ?case using restart(3) p by (intro reach_inv_keep)
next
  case (config sl used k c base msk flags ev data rc i p c')
  have "pmu_inv u p c'"
    using pmu_counter_config_inv [where feat = "m_feat m", OF hw feat _ config(2)] config(3) by (simp add: reach_inv_def)
  then show ?case using config config_hw [OF config(2)] by (intro reach_inv_keep) auto
next
  case (start sl used k c base msk flags v mem rc p c')
  have "pmu_inv u p c'" using pmu_counter_start_inv [OF hw _ start(2)] start(3) by (simp add: reach_inv_def)
  then show ?case using start pmu_counter_start_hw [OF start(2)] by (intro reach_inv_keep) auto
next
  case (stop sl used k c base msk flags mem rc mem' p c')
  have "pmu_inv u p c'" using pmu_counter_stop_inv [OF hw _ stop(2)] stop(3) by (simp add: reach_inv_def)
  then show ?case using stop pmu_counter_stop_hw [OF stop(2)] by (intro reach_inv_keep) auto
next
  case (fw_event sl used k c ev)
  then show ?case using pmu_inv_slot [OF pmu_fw_event_keeps]
    by (intro reach_inv_keep) (auto simp: reach_inv_def pmu_fw_event_keeps)
next
  case (shmem sl used k c dm lo hi flags rc p)
  then have "pmu_inv u p c" using pmu_inv_slot [of p "sl k" u c] shmem_keeps by (auto simp: reach_inv_def)
  then show ?case using shmem shmem_keeps by (intro reach_inv_keep) auto
next
  case (sse_enable sl used k c en p c')
  note s = sse_enable_keeps [OF sse_enable(2)]
  have "pmu_inv u p c'"
    using sse_enable(3) pmu_inv_slot [OF s(1,2)] pmu_inv_regs [OF s(3)] by (simp add: reach_inv_def)
  then show ?case using sse_enable(3) s(2) by (intro reach_inv_keep)
next
  case (change sl used k c j p c1 q c2)
  note inv = change(5)
  have o: "saved_inv u p \<and> length (hs_value (pmu_hw p)) = 32"
    using switch_out_inv [OF ih _ _ change(3)] inv by (simp add: reach_inv_def)
  have i: "pmu_inv u q c2 \<and> length (hs_value (pmu_hw q)) = 32"
    using inv change(2) by (intro switch_in_inv [OF hw one ih _ _ change(4)]) (auto simp: reach_inv_def)
  show ?case using inv o i change(2) by (auto simp: reach_inv_def saved_inv_def pmu_inv_def)
next
  case (other sl used k c c')
  have "pmu_inv u (sl k) c' = pmu_inv u (sl k) c"
    using other(2,3) by (intro pmu_inv_cong) (auto simp: counter_inhibited_def)
  then show ?case using other(4) by (simp add: reach_inv_def)
qed

lemma probe_keeps_time:
  "\<forall>n\<in>set ns. n \<noteq> 1 \<Longrightarrow> \<not> bit (fst s) 1 \<Longrightarrow> \<not> bit (fst (fold (probe_counter legal traps) ns s)) 1"
proof (induction ns arbitrary: s)
  case (Cons n ns)
  have "\<not> bit (fst (probe_counter legal traps n s)) 1"
    using Cons.prems by (auto simp: probe_counter_def Let_def bit_or_iff bit_exp_iff split: prod.splits)
  then show ?case using Cons by simp
qed simp

lemma pmu_parse_fdt_keeps: "hw_counters (pmu_parse_fdt node u) = hw_counters u" "have_inhibit (pmu_parse_fdt node u) = have_inhibit u"
  by (simp_all add: pmu_parse_fdt_def Let_def split: option.splits prod.splits)

lemma pmu_init_counters:
  assumes "pmu_init legal traps node c = (u, c')"
  shows "\<not> bit (hw_counters u) 1" "have_inhibit u \<or> hw_counters u = 0"
proof -
  have "\<not> bit (fst (fold (probe_counter legal traps) [3..<PMU_HW_COUNTERS] (0x5, c))) 1"
    by (rule probe_keeps_time) auto
  moreover have "hw_counters u = (if \<not> traps CSR_MCOUNTINHIBIT
      then fst (fold (probe_counter legal traps) [3..<PMU_HW_COUNTERS] (0x5, c)) else 0)"
    "have_inhibit u = (\<not> traps CSR_MCOUNTINHIBIT)"
    using assms
    by (auto simp: pmu_init_def Let_def case_prod_beta pmu_parse_fdt_keeps simp del: upt_rec_numeral split: if_splits)
  ultimately show "\<not> bit (hw_counters u) 1" "have_inhibit u \<or> hw_counters u = 0" by auto
qed

text \<open>The overflow interrupt, a bit of three registers.\<close>

definition ovf_hw :: "warl \<Rightarrow> bool" where
  "ovf_hw legal \<longleftrightarrow>
     (\<forall>c v r. r \<in> {CSR_MIE, CSR_MIDELEG, CSR_MIP} \<longrightarrow> bit (legal c r v) IRQ_PMU_OVF = bit v IRQ_PMU_OVF)"

lemma ovf_set:
  assumes "ovf_hw legal" "r \<in> {CSR_MIE, CSR_MIDELEG, CSR_MIP}" "q \<in> {CSR_MIE, CSR_MIDELEG, CSR_MIP}"
  shows "bit (csr_set legal r v c q) IRQ_PMU_OVF =
         (if q = r then bit (c r) IRQ_PMU_OVF \<or> bit v IRQ_PMU_OVF else bit (c q) IRQ_PMU_OVF)"
  using assms by (auto simp: ovf_hw_def csr_set_def csr_write_def csr_read_def bit_or_iff)

lemma ovf_clear:
  assumes "ovf_hw legal" "r \<in> {CSR_MIE, CSR_MIDELEG, CSR_MIP}" "q \<in> {CSR_MIE, CSR_MIDELEG, CSR_MIP}"
  shows "bit (csr_clear legal r v c q) IRQ_PMU_OVF =
         (if q = r then bit (c r) IRQ_PMU_OVF \<and> \<not> bit v IRQ_PMU_OVF else bit (c q) IRQ_PMU_OVF)"
  using assms by (auto simp: ovf_hw_def csr_clear_def csr_write_def csr_read_def bit_and_iff bit_not_iff)

lemma switch_in_ovf:
  assumes ov: "ovf_hw legal" and f: "feat HART_FEAT_SSCOFPMF"
    and r: "pmu_hart_switch_in legal feat u fresh p c = (p', c')"
  shows "bit (c' CSR_MIE) IRQ_PMU_OVF = bit (irq_enabled (pmu_hw p')) IRQ_PMU_OVF"
    "bit (c' CSR_MIDELEG) IRQ_PMU_OVF = bit (irq_delegated (pmu_hw p')) IRQ_PMU_OVF"
    "bit (c' CSR_MIP) IRQ_PMU_OVF = bit (irq_pending (pmu_hw p')) IRQ_PMU_OVF"
proof -
  obtain c2 where "c' = csr_set legal CSR_MIE (irq_enabled (pmu_hw p'))
                      (csr_set legal CSR_MIP (irq_pending (pmu_hw p'))
                       (csr_clear legal CSR_MIP (BIT IRQ_PMU_OVF)
                        (csr_set legal CSR_MIDELEG (irq_delegated (pmu_hw p'))
                         (csr_clear legal CSR_MIDELEG (BIT IRQ_PMU_OVF)
                          (csr_clear legal CSR_MIE (BIT IRQ_PMU_OVF) c2)))))"
    using r f by (auto simp: pmu_hart_switch_in_def Let_def case_prod_beta simp del: upt_rec_numeral)
  then show "bit (c' CSR_MIE) IRQ_PMU_OVF = bit (irq_enabled (pmu_hw p')) IRQ_PMU_OVF"
    "bit (c' CSR_MIDELEG) IRQ_PMU_OVF = bit (irq_delegated (pmu_hw p')) IRQ_PMU_OVF"
    "bit (c' CSR_MIP) IRQ_PMU_OVF = bit (irq_pending (pmu_hw p')) IRQ_PMU_OVF"
    by (simp_all add: ovf_set [OF ov] ovf_clear [OF ov] bit_BIT)
qed

text \<open>Writing back what was read changes nothing: the registers of the PMU are WARL.\<close>

definition pmu_settled :: "warl \<Rightarrow> pmu \<Rightarrow> csrs \<Rightarrow> bool" where
  "pmu_settled legal u c \<longleftrightarrow>
     (\<forall>c1 n. n < 32 \<and> bit (hw_counters u) n \<longrightarrow>
        legal c1 (CSR_MCYCLE + n) (c (CSR_MCYCLE + n)) = c (CSR_MCYCLE + n) \<and>
        (3 \<le> n \<longrightarrow> legal c1 (CSR_MHPMEVENT0 + n) (c (CSR_MHPMEVENT0 + n)) = c (CSR_MHPMEVENT0 + n))) \<and>
     (\<forall>c1 r. r \<in> {CSR_MCOUNTINHIBIT, CSR_MCYCLECFG, CSR_MINSTRETCFG} \<longrightarrow> legal c1 r (c r) = c r) \<and>
     c CSR_MCYCLECFG AND FILTER_BITS = c CSR_MCYCLECFG \<and> c CSR_MINSTRETCFG AND FILTER_BITS = c CSR_MINSTRETCFG"

lemma restored_reads:
  assumes st: "pmu_settled legal u c" and n: "n < 32" "n \<noteq> 1" "bit (hw_counters u) n"
    and h: "hs_value h ! n = hw_counter_read n c" "hs_select h ! n = hw_event_read feat n c"
    and r: "restored legal feat h n c'"
  shows "hw_counter_read n c' = hw_counter_read n c" "hw_event_read feat n c' = hw_event_read feat n c"
proof -
  have cnt: "hw_counter_read n d = d (CSR_MCYCLE + n)" for d
    using n by (auto simp: hw_counter_read_def mcounter_read_def csr_read_def)
  show "hw_counter_read n c' = hw_counter_read n c"
    using r st n h(1) by (auto simp: restored_def wrote_def pmu_settled_def cnt)
  show "hw_event_read feat n c' = hw_event_read feat n c"
  proof (cases "n < 3")
    case True
    then have "n = 0 \<or> n = 2" using n by auto
    then show ?thesis using r st h(2)
      by (auto simp: restored_def wrote_def pmu_settled_def hw_event_read_def fixed_cfg_read_def csr_read_def)
  next
    case False
    then show ?thesis using r st n h(2)
      by (auto simp: restored_def wrote_def pmu_settled_def hw_event_read_def mhpmevent_read_def csr_read_def)
  qed
qed

section \<open>Properties\<close>


text \<open>C19. A domain finds its counters as it left them: when the hart comes back to it, whatever
  ran there meanwhile, every counter has its value, its selector and filters, and runs or stands
  still as before, and the overflow interrupt is enabled, delegated and pending as before.\<close>

theorem pmu_switch_restores:
  assumes "pmu_settled legal u c" and "ovf_hw legal" and "\<not> bit (hw_counters u) 1" and "have_inhibit u"
    and "length (hs_value (pmu_hw p)) = 32" and "length (hs_select (pmu_hw p)) = 32"
    and "pmu_hart_switch_out legal feat u p c = (p1, c1)"
    and "pmu_hart_switch_in legal feat u False p1 c2 = (p2, c3)"
  shows "p2\<lparr>pmu_hw := pmu_hw p\<rparr> = p \<and>
    (\<forall>n<32. bit (hw_counters u) n \<longrightarrow>
       hw_counter_read n c3 = hw_counter_read n c \<and> hw_event_read feat n c3 = hw_event_read feat n c \<and>
       hw_counter_running n c3 = hw_counter_running n c) \<and>
    (feat HART_FEAT_SSCOFPMF \<longrightarrow>
       (\<forall>r\<in>{CSR_MIE, CSR_MIDELEG, CSR_MIP}. bit (c3 r) IRQ_PMU_OVF = bit (c r) IRQ_PMU_OVF))"
proof -
  note s = switch_out_saved [OF assms(4-7)]
  have p2: "p2 = p1" using assms(8) by (simp add: pmu_hart_switch_in_def Let_def case_prod_beta del: upt_rec_numeral)
  have eq: "p2\<lparr>pmu_hw := pmu_hw p\<rparr> = p"
    unfolding p2 using arg_cong [OF s(1), of "\<lambda>q. q\<lparr>pmu_hw := pmu_hw p\<rparr>"] by simp
  have cnt: "hw_counter_read n c3 = hw_counter_read n c \<and> hw_event_read feat n c3 = hw_event_read feat n c \<and>
       hw_counter_running n c3 = hw_counter_running n c" if n: "n < 32" "bit (hw_counters u) n" for n
  proof -
    have one: "n \<noteq> 1" using assms(3) n(2) by metis
    have regs: "restored legal feat (pmu_hw p1) n c3" "wrote legal c3 CSR_MCOUNTINHIBIT (c CSR_MCOUNTINHIBIT)"
      using switch_in_regs [OF assms(3,4) n refl assms(8)] s(4) by simp_all
    have "c3 CSR_MCOUNTINHIBIT = c CSR_MCOUNTINHIBIT"
      using regs(2) assms(1) by (auto simp: wrote_def pmu_settled_def)
    then show ?thesis
      using restored_reads [OF assms(1) n(1) one n(2) s(5,6) [OF n] regs(1)]
      by (simp add: hw_counter_running_def inhibit_read)
  qed
  have "bit (c3 r) IRQ_PMU_OVF = bit (c r) IRQ_PMU_OVF"
    if f: "feat HART_FEAT_SSCOFPMF" and r: "r \<in> {CSR_MIE, CSR_MIDELEG, CSR_MIP}" for r
    using r switch_in_ovf [where feat = feat, OF assms(2) f assms(8)] s(7-9) f
    by (auto simp: p2 bit_and_iff bit_BIT)
  with eq cnt show ?thesis by blast
qed


text \<open>C21. The search for the lowest set bit of a counter mask returns just when there is one, with
  its number; for an empty mask the loop would not end, and the callers have refused that mask
  before they search.\<close>

theorem lowest_bit_returns:
  "lowest_bit v = (if v = 0 then None else Some (LEAST n. bit v n))"
proof (cases "v = 0")
  case True
  then show ?thesis using lowest_bit_loop_bit [of 0 0] by (cases "lowest_bit_loop 0 0") (auto simp: lowest_bit_def)
next
  case False
  then obtain j where j: "bit v j" by (auto simp: bit_eq_iff)
  have "lowest_bit_loop v 0 = Some (0 + (LEAST n. bit v n))"
    by (rule lowest_bit_loop_finds) (use LeastI [of "bit v", OF j] not_less_Least in blast)+
  then show ?thesis using False by (simp add: lowest_bit_def)
qed

text \<open>C22. A configuration call either fails and changes nothing, or hands out one counter of the
  set the caller named, which exists and is of the kind the event needs; unless the caller named
  it as its own, the counter was free and able to count the event, so a counter in use is
  never handed out again. The event is recorded for that counter and for no other.\<close>

theorem pmu_config_claims:
  "case pmu_counter_config legal feat u base msk flags event_idx data p c of (rc, i, p', c') \<Rightarrow>
     if rc \<noteq> SBI_SUCCESS then p' = p \<and> c' = c
     else \<exists>k j. i = of_nat k \<and> bit msk j \<and> k = unat (base + of_nat j) \<and> k < PMU_COUNTERS \<and>
       counter_exists u (of_nat k) \<and>
       (EVENT_TYPE (ucast event_idx) = SBI_PMU_EVENT_TYPE_FW \<longleftrightarrow> PMU_FW_FIRST \<le> k) \<and>
       (if bit flags SBI_PMU_CFG_FLAG_SKIP_MATCH then pmu_event p ! k \<noteq> EVENT_NONE
        else pmu_event p ! k = EVENT_NONE \<and>
          (if k < PMU_FW_FIRST then bit (fst (hw_event_lookup u (ucast event_idx) data)) k else True)) \<and>
       pmu_event p' = (pmu_event p)[k := ucast event_idx]"
proof -
  obtain rc i p' c' where r: "pmu_counter_config legal feat u base msk flags event_idx data p c = (rc, i, p', c')"
    by (metis prod_cases4)
  from r show ?thesis
  proof (cases rule: pmu_counter_config_cases)
    case error
    then show ?thesis by (simp add: r)
  next
    case (success cand k select p1 c1)
    note k = config_pick_Inr [OF success(6,3)]
    have ev: "pmu_event p' = (pmu_event p)[k := ucast event_idx]"
      using success(7,8) by (auto simp: config_apply_def counter_start_one_def Let_def split: if_splits)
    have "unat (of_nat k :: ulong) = k" using k(1) by (simp add: unat_of_nat)
    then have ex: "counter_exists u (of_nat k)"
      using k(1,2) by (cases "k < 32") (auto simp: counter_exists_def word_le_nat_alt)
    have pick: "if bit flags SBI_PMU_CFG_FLAG_SKIP_MATCH then pmu_event p ! k \<noteq> EVENT_NONE
        else pmu_event p ! k = EVENT_NONE \<and>
          (if k < PMU_FW_FIRST then bit (fst (hw_event_lookup u (ucast event_idx) data)) k else True)"
      using k(3,5,6) success(5) by (cases "k < 32") (auto simp: bit_and_iff)
    from k(4) obtain j where "bit msk j" "k = unat (base + of_nat j)" by blast
    with success(1,2) k(1,3) ex pick ev show ?thesis unfolding r prod.case by (metis (full_types))
  qed
qed

text \<open>
  Two places where the code does not do what it says. The fixed counters start with MINH set,
  not to count the monitor's own time, but stopping one with the reset flag clears the filter
  and lets the counter run on; and the table of supported events looks at four bits of the
  event type only, so it claims firmware events that no configuration call takes.
\<close>

theorem pmu_reset_counts_monitor:
  assumes "feat HART_FEAT_SMCNTRPMF" and "\<forall>c n v. legal c n v = v"
    and "stop_reset legal feat 0 p c = (p', c')"
  shows "hw_counter_running 0 c' \<and> \<not> bit (hw_event_read feat 0 c') HPMEVENT_MINH_BIT"
  using assms
  by (auto simp: stop_reset_def hw_event_write_def fixed_cfg_write_def hw_event_read_def fixed_cfg_read_def
      csr_clear_def csr_write_def csr_read_def hw_counter_running_iff counter_inhibited_def
      bit_and_iff bit_not_iff bit_BIT)

theorem pmu_event_info_overclaims:
  "ei_output (event_info_one u \<lparr>ei_event_idx = 0x1f0000, ei_output = 0, ei_event_data = data\<rparr>) = 1 \<and>
   pmu_counter_config legal feat u base msk flags 0x1f0000 data p c = (SBI_ERR_INVALID_PARAM, 0, p, c)"
proof -
  have "EVENT_TYPE 0x1f0000 = SBI_PMU_EVENT_TYPE_FW" "EVENT_CODE 0x1f0000 = 0" by code_simp+
  then show ?thesis by (simp add: event_info_one_def pmu_counter_config_def Let_def)
qed

section \<open>Examples\<close>

text \<open>One programmable counter, number 3, which the tree has an event for.\<close>

definition one_counter_tree :: "fdt \<times> int" where
  "one_counter_tree = (demo_tree\<lparr>fdt_getprop := (\<lambda>n p. if p = ''riscv,event-to-mhpmcounters''
     then Some [0x10, 0x10, 0x8] else None)\<rparr>, 5)"

definition demo_pmu :: pmu where
  "demo_pmu = \<lparr>ranges = [\<lparr>er_first = 0x10, er_last = 0x10, er_counters = 0x8\<rparr>], selects = [], raw_events = [],
     hw_counters = 0xd, have_inhibit = True\<rparr>"

definition demo_slot :: pmu_hart where
  "demo_slot = \<lparr>snapshot = 0, sse_enabled = False, sse_saved_ie = False, pmu_event = replicate 48 0,
     fw_started = 0, fw_value = replicate 16 0,
     pmu_hw = \<lparr>hs_inhibit = 0, irq_enabled = 0, irq_delegated = 0, irq_pending = 0,
       hs_value = replicate 32 0, hs_select = replicate 32 0\<rparr>\<rparr>"

definition demo_monitor :: monitor where
  "demo_monitor = \<lparr>m_cfg = demo_config, m_legal = (\<lambda>c n v. v), m_feat = (\<lambda>f. f = HART_FEAT_SSCOFPMF),
     m_grain = 4, m_regions = demo_regions\<rparr>"

lemma demo_pmu_init:
  "fst (pmu_init (\<lambda>c n v. v) (\<lambda>n. n \<noteq> CSR_MCOUNTINHIBIT \<and> n \<noteq> CSR_MCYCLE + 3) (Some one_counter_tree) (\<lambda>_. 0)) =
   demo_pmu"
  by (simp add: pmu_init_def probe_counter_def Let_def mcounter_write_def mcounter_read_def csr_write_def csr_read_def
      one_counter_tree_def pmu_parse_fdt_def add_range_def demo_pmu_def)

definition demo_init :: "pmu_hart \<times> csrs" where
  "demo_init = pmu_hart_init (m_legal demo_monitor) (m_feat demo_monitor) demo_pmu demo_slot (\<lambda>_. 0)"

definition demo_config_call :: "sbi \<times> ulong \<times> pmu_hart \<times> csrs" where
  "demo_config_call = pmu_counter_config (m_legal demo_monitor) (m_feat demo_monitor) demo_pmu 3 1 4 0x10 0
     (fst demo_init) (snd demo_init)"

lemma demo_hw: "pmu_hw_ok (m_legal demo_monitor) demo_pmu" "ovf_hw (\<lambda>c n v. v)"
  by (simp_all add: pmu_hw_ok_def ovf_hw_def demo_monitor_def)

lemma demo_events: "pmu_event (fst demo_init) = replicate PMU_COUNTERS EVENT_NONE"
  by (auto simp: demo_init_def pmu_hart_init_def Let_def simp del: upt_rec_numeral)

lemma demo_pick: "config_pick (fst demo_init) 3 1 4 False 8 = Inr 3"
proof -
  have "find (\<lambda>i. bit (1 :: ulong) i \<and>
      (let n = unat (3 + of_nat i :: ulong) in replicate PMU_COUNTERS EVENT_NONE ! n = EVENT_NONE \<and>
         n < PMU_FW_FIRST \<and> bit (8 :: u32) n)) [0..<64] = Some 0" by code_simp
  moreover have "\<not> bit (4 :: ulong) SBI_PMU_CFG_FLAG_SKIP_MATCH" by simp
  ultimately show ?thesis unfolding config_pick_def demo_events by simp
qed

lemma demo_call:
  obtains p1 c1 where
    "demo_config_call = (SBI_SUCCESS, 3, counter_start_one (\<lambda>c n v. v) (m_feat demo_monitor) 3 p1 c1)"
proof -
  have "counter_set_ok demo_pmu 3 1" "EVENT_TYPE 0x10 = 0" by code_simp+
  moreover have "hw_event_lookup demo_pmu 0x10 0 = (8, 0x10)"
    by (simp add: hw_event_lookup_def EVENT_TYPE_def demo_pmu_def)
  moreover have "bit (4 :: ulong) SBI_PMU_CFG_FLAG_AUTO_START" by simp
  ultimately have "demo_config_call = (let (p1, c1) = config_apply (\<lambda>c n v. v) (m_feat demo_monitor) 3 4 0x10 False 0x10
      (fst demo_init) (snd demo_init) in (SBI_SUCCESS, 3, counter_start_one (\<lambda>c n v. v) (m_feat demo_monitor) 3 p1 c1))"
    using demo_pick
    by (simp add: demo_config_call_def pmu_counter_config_def Let_def demo_monitor_def demo_pmu_def case_prod_beta)
  then show ?thesis using that by (simp add: case_prod_beta)
qed

lemma demo_reach:
  "pmu_reach demo_monitor demo_pmu ((\<lambda>_. demo_slot)(0 := fst demo_init, 0 := fst (snd (snd demo_config_call))))
     ((\<lambda>_. False)(0 := True)) 0 (snd (snd (snd demo_config_call)))"
proof -
  have "pmu_reach demo_monitor demo_pmu ((\<lambda>_. demo_slot)(0 := fst demo_init)) ((\<lambda>_. False)(0 := True)) 0 (snd demo_init)"
    by (rule boot) (simp_all add: demo_slot_def demo_init_def)
  moreover have "pmu_counter_config (m_legal demo_monitor) (m_feat demo_monitor) demo_pmu 3 1 4 0x10 0
      (((\<lambda>_. demo_slot)(0 := fst demo_init)) 0) (snd demo_init) =
      (fst demo_config_call, fst (snd demo_config_call), fst (snd (snd demo_config_call)), snd (snd (snd demo_config_call)))"
    by (simp add: demo_config_call_def)
  ultimately show ?thesis by (rule config)
qed

lemma demo_running: "hw_counter_running 3 (snd (snd (snd demo_config_call)))"
proof -
  obtain p1 c1 where d: "demo_config_call = (SBI_SUCCESS, 3, counter_start_one (\<lambda>c n v. v) (m_feat demo_monitor) 3 p1 c1)"
    by (rule demo_call)
  show ?thesis unfolding d
    by (simp add: counter_start_one_def hw_counter_running_iff inhibit_clear counter_inhibited_def
        bit_and_iff bit_not_iff bit_BIT)
qed


theorem pmu_switch_restores_witness:
  "\<exists>p1 c1 p2 c3.
     pmu_hart_switch_out (\<lambda>c n v. v) (m_feat demo_monitor) demo_pmu demo_slot ((\<lambda>_. 0)(CSR_MCYCLE + 3 := 42)) = (p1, c1) \<and>
     pmu_hart_switch_in (\<lambda>c n v. v) (m_feat demo_monitor) demo_pmu False p1 (\<lambda>_. 7) = (p2, c3) \<and>
     hw_counter_read 3 c3 = 42"
proof -
  let ?c = "(\<lambda>_. 0)(CSR_MCYCLE + 3 := 42) :: csrs"
  obtain p1 c1 where o: "pmu_hart_switch_out (\<lambda>c n v. v) (m_feat demo_monitor) demo_pmu demo_slot ?c = (p1, c1)"
    by force
  obtain p2 c3 where i: "pmu_hart_switch_in (\<lambda>c n v. v) (m_feat demo_monitor) demo_pmu False p1 (\<lambda>_. 7) = (p2, c3)"
    by force
  have s: "pmu_settled (\<lambda>c n v. v) demo_pmu ?c" by (simp add: pmu_settled_def)
  have b: "\<not> bit (hw_counters demo_pmu) 1" "have_inhibit demo_pmu" "bit (hw_counters demo_pmu) 3"
    by (simp_all add: demo_pmu_def)
  have l: "length (hs_value (pmu_hw demo_slot)) = 32" "length (hs_select (pmu_hw demo_slot)) = 32"
    by (simp_all add: demo_slot_def)
  have "\<forall>n<32. bit (hw_counters demo_pmu) n \<longrightarrow> hw_counter_read n c3 = hw_counter_read n ?c"
    using pmu_switch_restores [OF s demo_hw(2) b(1,2) l o i] by blast
  then have "hw_counter_read 3 c3 = hw_counter_read 3 ?c" using b(3) by (simp del: fun_upd_apply)
  also have "\<dots> = 42" by (simp add: hw_counter_read_def mcounter_read_def csr_read_def)
  finally show ?thesis using o i by blast
qed


end
