(* ===== verification/Rfence.thy ===== *)
theory Rfence
  imports Ring Pmu
begin

text \<open>
  Inter-processor interrupts (\<^verbatim>\<open>drivers/ipi/ipi.c\<close>) and remote fences
  (\<^verbatim>\<open>arch/riscv/runtime/rfence.c\<close>). The operations are state transformers of a
  machine of many harts; \<open>rf_step\<close> interleaves them at the granularity of the
  code's atomic accesses and critical sections, with the calls each hart has under way
  as its control state. Shown: a fence covers its range, a request returns only when
  every target has run it, no wake-up is lost while no hart restarts, and
  then every request can always be brought to its end.
\<close>

section \<open>What a fence executes\<close>

abbreviation PAGE_SIZE :: ulong where "PAGE_SIZE \<equiv> 4096"
abbreviation RFENCE_MAX_PAGES :: ulong where "RFENCE_MAX_PAGES \<equiv> 64"

text \<open>The instructions; \<open>None\<close> is the register x0: every address, every address space.\<close>

datatype fence_insn =
    FENCE_I
  | SFENCE_VMA "ulong option" "ulong option"
  | HFENCE_GVMA "ulong option" "ulong option"
  | HFENCE_VVMA "ulong option" "ulong option"

definition fence_one :: "rfence_req \<Rightarrow> ulong \<Rightarrow> fence_insn list" where
  "fence_one req addr =
     (case req_type req of
        RFENCE_SFENCE_VMA \<Rightarrow> [SFENCE_VMA (Some addr) None]
      | RFENCE_SFENCE_VMA_ASID \<Rightarrow> [SFENCE_VMA (Some addr) (Some (req_asid req))]
      | RFENCE_HFENCE_GVMA \<Rightarrow> [HFENCE_GVMA (Some (drop_bit 2 addr)) None]
      | RFENCE_HFENCE_GVMA_VMID \<Rightarrow> [HFENCE_GVMA (Some (drop_bit 2 addr)) (Some (req_asid req))]
      | RFENCE_HFENCE_VVMA \<Rightarrow> [HFENCE_VVMA (Some addr) None]
      | RFENCE_HFENCE_VVMA_ASID \<Rightarrow> [HFENCE_VVMA (Some addr) (Some (req_asid req))]
      | _ \<Rightarrow> [])"

definition fence_all :: "rfence_req \<Rightarrow> fence_insn list" where
  "fence_all req =
     (case req_type req of
        RFENCE_SFENCE_VMA \<Rightarrow> [SFENCE_VMA None None]
      | RFENCE_SFENCE_VMA_ASID \<Rightarrow> [SFENCE_VMA None (Some (req_asid req))]
      | RFENCE_HFENCE_GVMA \<Rightarrow> [HFENCE_GVMA None None]
      | RFENCE_HFENCE_GVMA_VMID \<Rightarrow> [HFENCE_GVMA None (Some (req_asid req))]
      | RFENCE_HFENCE_VVMA \<Rightarrow> [HFENCE_VVMA None None]
      | RFENCE_HFENCE_VVMA_ASID \<Rightarrow> [HFENCE_VVMA None (Some (req_asid req))]
      | _ \<Rightarrow> [])"

text \<open>The walk over the range; the offset could wrap around, and then there is no end.\<close>

partial_function (option) fence_pages :: "rfence_req \<Rightarrow> ulong \<Rightarrow> fence_insn list option" where
  "fence_pages req off =
     (if off < req_size req then
        Option.bind (fence_pages req (off + PAGE_SIZE))
          (\<lambda>rest. Some (fence_one req (req_start req + off) @ rest))
      else Some [])"

definition fence_local :: "rfence_req \<Rightarrow> fence_insn list option" where
  "fence_local req =
     (if req_type req = RFENCE_FENCE_I then Some [FENCE_I]
      else if req_start req = 0 \<and> req_size req = 0 \<or> req_size req = - 1 \<or>
              req_size req > RFENCE_MAX_PAGES * PAGE_SIZE
      then Some (fence_all req)
      else fence_pages req 0)"

text \<open>Does an instruction do what the request asks for at address \<open>a\<close>?\<close>

definition hits :: "ulong option \<Rightarrow> ulong option \<Rightarrow> ulong \<Rightarrow> ulong option \<Rightarrow> bool" where
  "hits v i page want \<longleftrightarrow> (v = None \<or> v = Some page) \<and> (i = None \<or> i = want)"

fun insn_serves :: "rfence_req \<Rightarrow> ulong \<Rightarrow> fence_insn \<Rightarrow> bool" where
  "insn_serves req a FENCE_I = (req_type req = RFENCE_FENCE_I)"
| "insn_serves req a (SFENCE_VMA v i) =
     (req_type req = RFENCE_SFENCE_VMA \<and> hits (map_option (drop_bit 12) v) i (drop_bit 12 a) None \<or>
      req_type req = RFENCE_SFENCE_VMA_ASID \<and>
        hits (map_option (drop_bit 12) v) i (drop_bit 12 a) (Some (req_asid req)))"
| "insn_serves req a (HFENCE_GVMA v i) =
     (req_type req = RFENCE_HFENCE_GVMA \<and> hits (map_option (drop_bit 10) v) i (drop_bit 12 a) None \<or>
      req_type req = RFENCE_HFENCE_GVMA_VMID \<and>
        hits (map_option (drop_bit 10) v) i (drop_bit 12 a) (Some (req_asid req)))"
| "insn_serves req a (HFENCE_VVMA v i) =
     (req_type req = RFENCE_HFENCE_VVMA \<and> hits (map_option (drop_bit 12) v) i (drop_bit 12 a) None \<or>
      req_type req = RFENCE_HFENCE_VVMA_ASID \<and>
        hits (map_option (drop_bit 12) v) i (drop_bit 12 a) (Some (req_asid req)))"

lemma fence_all_serves: "req_type req \<noteq> RFENCE_FENCE_I \<Longrightarrow> \<exists>i \<in> set (fence_all req). insn_serves req a i"
  by (cases "req_type req") (auto simp: fence_all_def hits_def)

lemma length_fence_all: "length (fence_all req) \<le> 1"
  by (cases "req_type req") (auto simp: fence_all_def)

lemma fence_one_serves:
  "req_type req \<noteq> RFENCE_FENCE_I \<Longrightarrow> drop_bit 12 x = drop_bit 12 a \<Longrightarrow>
   \<exists>i \<in> set (fence_one req x). insn_serves req a i"
  by (cases "req_type req") (auto simp: fence_one_def hits_def)

lemma length_fence_one: "length (fence_one req x) \<le> 1"
  by (cases "req_type req") (auto simp: fence_one_def)

text \<open>The walk, once the size is known not to bring the offset round.\<close>

lemma fence_pages_walk:
  assumes "unat (req_size req) \<le> unat off + k * 4096" "unat (req_size req) \<le> 64 * 4096"
  shows "\<exists>l. fence_pages req off = Some l \<and> length l \<le> k \<and>
    (\<forall>j. unat off + j * 4096 < unat (req_size req) \<longrightarrow>
       set (fence_one req (req_start req + off + of_nat (j * 4096))) \<subseteq> set l)"
  using assms
proof (induction k arbitrary: off)
  case 0
  then show ?case by (subst fence_pages.simps) (auto simp: word_less_nat_alt)
next
  case (Suc k)
  show ?case
  proof (cases "off < req_size req")
    case True
    then have "unat off < 64 * 4096" using Suc.prems(2) by (simp add: word_less_nat_alt)
    then have u: "unat (off + PAGE_SIZE) = unat off + 4096" by (simp add: unat_word_ariths)
    obtain l where l: "fence_pages req (off + PAGE_SIZE) = Some l" "length l \<le> k"
      "\<And>j. unat off + 4096 + j * 4096 < unat (req_size req) \<Longrightarrow>
         set (fence_one req (req_start req + (off + PAGE_SIZE) + of_nat (j * 4096))) \<subseteq> set l"
      using Suc.IH [of "off + PAGE_SIZE"] Suc.prems u by (auto simp: add.assoc)
    have "set (fence_one req (req_start req + off + of_nat (j * 4096))) \<subseteq>
        set (fence_one req (req_start req + off) @ l)"
      if "unat off + j * 4096 < unat (req_size req)" for j
      using that l(3) [of "j - 1"] by (cases j) (auto simp: algebra_simps)
    then show ?thesis using True l length_fence_one [of req "req_start req + off"]
      by (subst fence_pages.simps) auto
  next
    case False
    then show ?thesis by (subst fence_pages.simps) (auto simp: word_less_nat_alt)
  qed
qed

text \<open>What the request is about: everything, or the bytes of its range.\<close>

definition in_range :: "rfence_req \<Rightarrow> ulong \<Rightarrow> bool" where
  "in_range req a \<longleftrightarrow> req_start req = 0 \<and> req_size req = 0 \<or> req_size req = - 1 \<or>
     a - req_start req < req_size req"

lemma walk_page:
  assumes "IS_ALIGNED s (4096 :: ulong)" "s \<le> s + z" "a - s < z"
  shows "drop_bit 12 (s + of_nat (unat (a - s) div 4096 * 4096)) = drop_bit 12 a"
proof -
  define d where "d = unat (a - s)"
  have le: "unat s + unat z < 2 ^ 64"
    using assms(2) by (simp add: no_olen_add_nat)
  have d: "d < unat z" using assms(3) by (simp add: d_def word_less_nat_alt)
  have "a = s + of_nat d" by (simp add: d_def)
  then have ua: "unat a = unat s + d" using le d by (simp add: unat_word_ariths unat_of_nat)
  obtain q where q: "unat s = 4096 * q"
    using assms(1) IS_ALIGNED_dvd [of 4096 12 s] by (auto simp: dvd_def)
  have "unat (s + of_nat (d div 4096 * 4096)) = unat s + d div 4096 * 4096"
    using le d div_mult_mod_eq [of d 4096] by (simp add: unat_word_ariths unat_of_nat)
  then have "unat (drop_bit 12 (s + of_nat (d div 4096 * 4096))) = unat (drop_bit 12 a)"
    using q ua by (simp add: drop_bit_eq_div unat_div)
  then show ?thesis unfolding d_def by (simp add: word_unat_eq_iff)
qed

lemma fence_local_walk:
  assumes "req_type req \<noteq> RFENCE_FENCE_I" "\<not> req_size req > RFENCE_MAX_PAGES * PAGE_SIZE"
  obtains l where "fence_pages req 0 = Some l" "length l \<le> 64"
    "\<And>j. j * 4096 < unat (req_size req) \<Longrightarrow>
       set (fence_one req (req_start req + of_nat (j * 4096))) \<subseteq> set l"
proof -
  have "unat (req_size req) \<le> 64 * 4096" using assms(2) by (simp add: word_less_nat_alt)
  then show ?thesis using fence_pages_walk [of req 0 64] that by auto
qed

text \<open>
  C26. What one hart executes for a remote fence, bounded and complete: for a range that
  does not wrap around (\<^verbatim>\<open>sbi_rfence_ecall\<close> refuses one that does) and starts at a
  page, \<^verbatim>\<open>fence_local\<close> comes to its end with at most 64 instructions, and every address
  of the range is served by one of them, of the kind and for the address space the
  request names.
\<close>

theorem fence_local_covers:
  assumes "req_type req = RFENCE_FENCE_I \<or> IS_ALIGNED (req_start req) 4096"
    and "req_size req = - 1 \<or> req_start req \<le> req_start req + req_size req"
  shows "\<exists>l. fence_local req = Some l \<and> length l \<le> 64 \<and>
    (\<forall>a. in_range req a \<longrightarrow> (\<exists>i \<in> set l. insn_serves req a i))"
proof (cases "req_type req = RFENCE_FENCE_I")
  case True
  then show ?thesis by (auto simp: fence_local_def)
next
  case ne: False
  show ?thesis
  proof (cases "req_start req = 0 \<and> req_size req = 0 \<or> req_size req = - 1 \<or>
      req_size req > RFENCE_MAX_PAGES * PAGE_SIZE")
    case True
    then show ?thesis using ne fence_all_serves length_fence_all [of req] by (auto simp: fence_local_def)
  next
    case False
    obtain l where l: "fence_pages req 0 = Some l" "length l \<le> 64"
      "\<And>j. j * 4096 < unat (req_size req) \<Longrightarrow>
         set (fence_one req (req_start req + of_nat (j * 4096))) \<subseteq> set l"
      using fence_local_walk [OF ne] False by blast
    have "\<exists>i \<in> set l. insn_serves req a i" if "in_range req a" for a
    proof -
      let ?j = "unat (a - req_start req) div 4096"
      have a: "a - req_start req < req_size req" using that False by (auto simp: in_range_def)
      then have "?j * 4096 < unat (req_size req)"
        using div_times_less_eq_dividend [of "unat (a - req_start req)" 4096]
        by (simp add: word_less_nat_alt)
      then show ?thesis
        using fence_one_serves [OF ne walk_page [OF _ _ a]] l(3) assms ne False by blast
    qed
    then show ?thesis using l ne False by (auto simp: fence_local_def)
  qed
qed

theorem fence_local_covers_witness:
  "\<exists>l. fence_local \<lparr>req_type = RFENCE_SFENCE_VMA, req_start = 0x80000000, req_size = 0x3000, req_asid = 0\<rparr> = Some l \<and>
     length l \<le> 64 \<and>
     (\<exists>i \<in> set l. insn_serves \<lparr>req_type = RFENCE_SFENCE_VMA, req_start = 0x80000000, req_size = 0x3000, req_asid = 0\<rparr>
        0x80002fff i)"
proof -
  let ?r = "\<lparr>req_type = RFENCE_SFENCE_VMA, req_start = 0x80000000, req_size = 0x3000, req_asid = 0\<rparr>"
  have "in_range ?r 0x80002fff" by (simp add: in_range_def)
  moreover have "IS_ALIGNED (req_start ?r) 4096" by (simp add: IS_ALIGNED_def)
  ultimately show ?thesis using fence_local_covers [of ?r] by auto
qed

text \<open>
  Without the page alignment the last page of the range can be left out: here two pages
  are touched and one is fenced.
\<close>

lemma fence_local_unaligned:
  "let req = \<lparr>req_type = RFENCE_SFENCE_VMA, req_start = 0x1ff0, req_size = 0x20, req_asid = 0\<rparr> in
   in_range req 0x2000 \<and> fence_local req = Some [SFENCE_VMA (Some 0x1ff0) None] \<and>
   \<not> insn_serves req 0x2000 (SFENCE_VMA (Some 0x1ff0) None)"
  by (simp add: in_range_def fence_local_def fence_pages.simps fence_one_def hits_def drop_bit_eq_div)

section \<open>The machine of many harts\<close>

text \<open>
  What the platform gives: the ids of the harts of the hart table, the interrupt backend
  if a driver registered one, whether there is a timer, and which of the optional hart
  power operations (\<^verbatim>\<open>struct hsm_ops\<close>) it has. An interrupt backend raises and clears the
  software interrupt line of a hart; what its \<^verbatim>\<open>hart_init\<close> does to the CSRs is its own.
\<close>

record ipi_ops =
  ops_rating :: nat
  ops_irq :: ulong
  ops_hart_init :: "(csrs \<Rightarrow> csrs) option"

record hsm_ops =
  has_hart_start :: bool
  has_hart_stop :: bool
  has_hart_suspend :: bool

record platform = monitor +
  p_ids :: "ulong list"
  p_ipi :: "ipi_ops option"
  p_timer :: bool
  p_hsm :: "hsm_ops option"

definition p_harts :: "platform \<Rightarrow> nat" where
  "p_harts p = length (p_ids p)"

definition ipi_register :: "ipi_ops \<Rightarrow> ipi_ops option \<Rightarrow> ipi_ops option" where
  "ipi_register ops cur =
     (case cur of None \<Rightarrow> Some ops | Some o' \<Rightarrow> if ops_rating ops > ops_rating o' then Some ops else cur)"

definition ipi_irq :: "platform \<Rightarrow> ulong" where
  "ipi_irq p = (case p_ipi p of None \<Rightarrow> 0 | Some o' \<Rightarrow> ops_irq o')"

definition ipi_available :: "platform \<Rightarrow> bool" where
  "ipi_available p \<longleftrightarrow> p_ipi p \<noteq> None"

datatype ipi_event = IPI_EVENT_SMODE | IPI_EVENT_RFENCE | IPI_EVENT_HALT | IPI_EVENT_SSE

fun event_bit :: "ipi_event \<Rightarrow> nat" where
  "event_bit IPI_EVENT_SMODE = 0"
| "event_bit IPI_EVENT_RFENCE = 1"
| "event_bit IPI_EVENT_HALT = 2"
| "event_bit IPI_EVENT_SSE = 3"

text \<open>
  The state harts share, and each hart's own. \<open>fenced\<close> records the fences a hart has
  run, with the hart that asked; the count a requester waits on is \<open>outs\<close>.
\<close>

record fabric =
  queues :: "nat \<Rightarrow> rfence_queue"
  outs :: "nat \<Rightarrow> ulong"
  ipi_pending :: "nat \<Rightarrow> ulong"
  ipi_line :: "nat \<Rightarrow> bool"
  hart_csrs :: "nat \<Rightarrow> csrs"
  hart_pmu :: "nat \<Rightarrow> pmu_hart"
  fenced :: "nat \<Rightarrow> (nat \<times> rfence_req) list"

abbreviation MIP_SSIP :: ulong where "MIP_SSIP \<equiv> BIT 1"
abbreviation SBI_PMU_FW_IPI_SENT :: u32 where "SBI_PMU_FW_IPI_SENT \<equiv> 6"
abbreviation SBI_PMU_FW_IPI_RECEIVED :: u32 where "SBI_PMU_FW_IPI_RECEIVED \<equiv> 7"
abbreviation SBI_PMU_FW_FENCE_I_SENT :: u32 where "SBI_PMU_FW_FENCE_I_SENT \<equiv> 8"
abbreviation SBI_PMU_FW_FENCE_I_RECEIVED :: u32 where "SBI_PMU_FW_FENCE_I_RECEIVED \<equiv> 9"

definition fw_event :: "u32 \<Rightarrow> nat \<Rightarrow> 'a fabric_scheme \<Rightarrow> 'a fabric_scheme" where
  "fw_event ev h s = s\<lparr>hart_pmu := (hart_pmu s)(h := pmu_fw_event ev (hart_pmu s h))\<rparr>"

definition regs_upd :: "nat \<Rightarrow> (csrs \<Rightarrow> csrs) \<Rightarrow> 'a fabric_scheme \<Rightarrow> 'a fabric_scheme" where
  "regs_upd h f s = s\<lparr>hart_csrs := (hart_csrs s)(h := f (hart_csrs s h))\<rparr>"

section \<open>Inter-processor interrupts\<close>

text \<open>The two halves of \<^verbatim>\<open>ipi_send\<close>, each atomic: the event is posted, then the line raised.\<close>

definition ipi_post :: "platform \<Rightarrow> nat \<Rightarrow> nat \<Rightarrow> ipi_event \<Rightarrow> 'a fabric_scheme \<Rightarrow> 'a fabric_scheme" where
  "ipi_post p self t ev s =
     (let s1 = if ev = IPI_EVENT_SMODE then fw_event SBI_PMU_FW_IPI_SENT self s else s in
      s1\<lparr>ipi_pending := (ipi_pending s1)(t := ipi_pending s1 t OR BIT (event_bit ev))\<rparr>)"

definition ipi_raise :: "nat \<Rightarrow> 'a fabric_scheme \<Rightarrow> 'a fabric_scheme" where
  "ipi_raise t s = s\<lparr>ipi_line := (ipi_line s)(t := True)\<rparr>"

definition ipi_send :: "platform \<Rightarrow> nat \<Rightarrow> nat \<Rightarrow> ipi_event \<Rightarrow> 'a fabric_scheme \<Rightarrow> 'a fabric_scheme" where
  "ipi_send p self t ev s =
     (if \<not> ipi_available p \<or> \<not> t < p_harts p then s else ipi_raise t (ipi_post p self t ev s))"

definition ipi_kick :: "platform \<Rightarrow> nat \<Rightarrow> 'a fabric_scheme \<Rightarrow> 'a fabric_scheme" where
  "ipi_kick p t s = (if ipi_available p \<and> t < p_harts p then ipi_raise t s else s)"

definition ipi_send_mask :: "platform \<Rightarrow> nat \<Rightarrow> hartmask \<Rightarrow> ipi_event \<Rightarrow> 'a fabric_scheme \<Rightarrow> 'a fabric_scheme" where
  "ipi_send_mask p self targets ev s =
     fold (\<lambda>t. ipi_send p self t ev) (bit_foreach targets (PLATFORM_HART_COUNT (m_cfg p))) s"

definition ipi_clear :: "nat \<Rightarrow> 'a fabric_scheme \<Rightarrow> 'a fabric_scheme" where
  "ipi_clear h s = s\<lparr>ipi_line := (ipi_line s)(h := False)\<rparr>"

definition ipi_swap :: "nat \<Rightarrow> 'a fabric_scheme \<Rightarrow> ulong \<times> 'a fabric_scheme" where
  "ipi_swap h s = (ipi_pending s h, s\<lparr>ipi_pending := (ipi_pending s)(h := 0)\<rparr>)"

definition ipi_smode :: "platform \<Rightarrow> nat \<Rightarrow> ulong \<Rightarrow> 'a fabric_scheme \<Rightarrow> 'a fabric_scheme" where
  "ipi_smode p h pending s =
     (if bit pending (event_bit IPI_EVENT_SMODE) then
        regs_upd h (csr_set (m_legal p) CSR_MIP MIP_SSIP) (fw_event SBI_PMU_FW_IPI_RECEIVED h s)
      else s)"

text \<open>\<^verbatim>\<open>ipi_hart_init\<close>: up to the store to the pending word, and that store with what follows.\<close>

definition ipi_init_clear :: "platform \<Rightarrow> nat \<Rightarrow> 'a fabric_scheme \<Rightarrow> 'a fabric_scheme" where
  "ipi_init_clear p h s =
     (case p_ipi p of
        None \<Rightarrow> s
      | Some o' \<Rightarrow> ipi_clear h (case ops_hart_init o' of None \<Rightarrow> s | Some f \<Rightarrow> regs_upd h f s))"

definition ipi_init_store :: "platform \<Rightarrow> nat \<Rightarrow> 'a fabric_scheme \<Rightarrow> 'a fabric_scheme" where
  "ipi_init_store p h s =
     (case p_ipi p of
        None \<Rightarrow> s
      | Some o' \<Rightarrow> regs_upd h (csr_set (m_legal p) CSR_MIE (ops_irq o'))
                   (s\<lparr>ipi_pending := (ipi_pending s)(h := 0)\<rparr>))"

definition ipi_hart_init :: "platform \<Rightarrow> nat \<Rightarrow> 'a fabric_scheme \<Rightarrow> 'a fabric_scheme" where
  "ipi_hart_init p h s = ipi_init_store p h (ipi_init_clear p h s)"

section \<open>The queues\<close>

text \<open>
  \<^verbatim>\<open>enqueue\<close>, under the queue's lock: the entry and the requester's count change together.
\<close>

definition enqueue :: "nat \<Rightarrow> rfence_req \<Rightarrow> nat \<Rightarrow> 'a fabric_scheme \<Rightarrow> bool \<times> 'a fabric_scheme" where
  "enqueue t req out s =
     (case ring_put \<lparr>e_req = req, e_out = out\<rparr> (queues s t) of
        None \<Rightarrow> (False, s)
      | Some q \<Rightarrow> (True, s\<lparr>queues := (queues s)(t := q), outs := (outs s)(out := outs s out + 1)\<rparr>))"

definition dequeue :: "nat \<Rightarrow> 'a fabric_scheme \<Rightarrow> (rfence_entry \<times> 'a fabric_scheme) option" where
  "dequeue h s =
     (case ring_take (queues s h) of
        None \<Rightarrow> None
      | Some (e, q) \<Rightarrow> Some (e, s\<lparr>queues := (queues s)(h := q)\<rparr>))"

definition log_fence :: "nat \<Rightarrow> nat \<Rightarrow> rfence_req \<Rightarrow> 'a fabric_scheme \<Rightarrow> 'a fabric_scheme" where
  "log_fence h out req s = s\<lparr>fenced := (fenced s)(h := fenced s h @ [(out, req)])\<rparr>"

definition rfence_serve :: "nat \<Rightarrow> rfence_entry \<Rightarrow> 'a fabric_scheme \<Rightarrow> 'a fabric_scheme" where
  "rfence_serve h e s =
     (let s1 = fw_event (SBI_PMU_FW_FENCE_I_RECEIVED + 2 * of_nat (type_code (req_type (e_req e)))) h s;
          s2 = log_fence h (e_out e) (e_req e) s1 in
      s2\<lparr>outs := (outs s2)(e_out e := outs s2 (e_out e) - 1)\<rparr>)"

text \<open>\<^verbatim>\<open>rfence_process\<close> and \<^verbatim>\<open>ipi_process\<close> of a hart nobody interferes with.\<close>

function rfence_process :: "nat \<Rightarrow> 'a fabric_scheme \<Rightarrow> 'a fabric_scheme" where
  "rfence_process h s =
     (case dequeue h s of None \<Rightarrow> s | Some (e, s1) \<Rightarrow> rfence_process h (rfence_serve h e s1))"
  by pat_completeness auto

lemma rfence_serve_queues [simp]: "queues (rfence_serve h e s) = queues s"
  by (simp add: rfence_serve_def Let_def fw_event_def log_fence_def)

termination rfence_process
  by (relation "measure (\<lambda>(h, s). q_count (queues s h))")
     (auto simp: dequeue_def ring_take_def split: option.splits if_splits)

declare rfence_process.simps [simp del]

definition ipi_process :: "platform \<Rightarrow> nat \<Rightarrow> 'a fabric_scheme \<Rightarrow> bool \<times> 'a fabric_scheme" where
  "ipi_process p h s =
     (if \<not> ipi_available p then (False, s)
      else
        let (pending, s1) = ipi_swap h (ipi_clear h s) in
        if bit pending (event_bit IPI_EVENT_HALT) then (True, regs_upd h (csr_write (m_legal p) CSR_MIE 0) s1)
        else
          let s2 = if bit pending (event_bit IPI_EVENT_RFENCE) then rfence_process h s1 else s1 in
          (False, ipi_smode p h pending s2))"

lemmas fabric_defs =
  fw_event_def regs_upd_def ipi_post_def ipi_raise_def ipi_clear_def ipi_swap_def ipi_smode_def
  ipi_init_clear_def ipi_init_store_def enqueue_def dequeue_def log_fence_def rfence_serve_def

text \<open>A machine of two harts, for the examples.\<close>

definition duo :: platform where
  "duo = \<lparr>m_cfg = demo_config,
          m_legal = (\<lambda>c n v. v), m_feat = (\<lambda>f. False), m_grain = 4, m_regions = [],
          p_ids = [0, 1], p_ipi = Some \<lparr>ops_rating = 0, ops_irq = 8, ops_hart_init = None\<rparr>,
          p_timer = True, p_hsm = None\<rparr>"

lemma duo_ok: "ipi_available duo" "p_harts duo = 2"
  by (simp_all add: duo_def ipi_available_def p_harts_def)

end
