(* ===== verification/Shootdown.thy ===== *)
theory Shootdown
  imports Rfence "HOL-Library.Multiset"
begin

text \<open>
  Harts that fence each other (\<^verbatim>\<open>rfence_request\<close>), interleaved. A hart runs S-mode or
  is in a request; on top of that it has monitor calls under way, the next one first.
  One step of a hart is one atomic access or critical section of the code.
\<close>

section \<open>Control state\<close>

datatype act =
    Post nat ipi_event \<comment> \<open>in \<open>ipi_send\<close>, before the event is posted\<close>
  | Raise nat \<comment> \<open>before the line is raised\<close>
  | Clear \<comment> \<open>in \<open>ipi_process\<close>, before the line is cleared\<close>
  | Swap \<comment> \<open>before the pending word is taken\<close>
  | Handle ulong \<comment> \<open>with the pending word taken\<close>
  | Smode ulong \<comment> \<open>past the remote fences\<close>
  | Drain \<comment> \<open>in \<open>rfence_process\<close>, at the head of the loop\<close>
  | Serve rfence_entry \<comment> \<open>with an entry taken off the queue\<close>
  | InitClear \<comment> \<open>in \<open>ipi_hart_init\<close>\<close>
  | InitStore \<comment> \<open>before the pending word is zeroed\<close>

text \<open>
  A request holds its targets and those still to be asked. The last component is not the
  program's: how many fences each hart had run when the request began.
\<close>

datatype base =
    Running
  | Halted
  | Request rfence_req "nat list" "nat \<Rightarrow> nat" "nat list"
  | Wait rfence_req "nat list" "nat \<Rightarrow> nat"

record rf_sys = fabric +
  calls :: "nat \<Rightarrow> act list"
  base :: "nat \<Rightarrow> base"

definition push :: "nat \<Rightarrow> act list \<Rightarrow> rf_sys \<Rightarrow> rf_sys" where
  "push h as s = s\<lparr>calls := (calls s)(h := as @ calls s h)\<rparr>"

definition set_base :: "nat \<Rightarrow> base \<Rightarrow> rf_sys \<Rightarrow> rf_sys" where
  "set_base h b s = s\<lparr>base := (base s)(h := b)\<rparr>"

section \<open>Steps of one hart\<close>

text \<open>The call \<open>a\<close> of hart \<open>h\<close>, taken off its stack already.\<close>

fun act_step :: "platform \<Rightarrow> nat \<Rightarrow> act \<Rightarrow> rf_sys \<Rightarrow> rf_sys" where
  "act_step p h (Post t ev) s = push h [Raise t] (ipi_post p h t ev s)"
| "act_step p h (Raise t) s = ipi_raise t s"
| "act_step p h Clear s = push h [Swap] (ipi_clear h s)"
| "act_step p h Swap s = (let (pending, s1) = ipi_swap h s in push h [Handle pending] s1)"
| "act_step p h (Handle pending) s =
     (if bit pending (event_bit IPI_EVENT_HALT)
      then set_base h Halted (regs_upd h (csr_write (m_legal p) CSR_MIE 0) s)\<lparr>calls := (calls s)(h := [])\<rparr>
      else push h ((if bit pending (event_bit IPI_EVENT_RFENCE) then [Drain] else []) @ [Smode pending]) s)"
| "act_step p h (Smode pending) s = ipi_smode p h pending s"
| "act_step p h Drain s =
     (case dequeue h s of None \<Rightarrow> s | Some (e, s1) \<Rightarrow> push h [Serve e, Drain] s1)"
| "act_step p h (Serve e) s = rfence_serve h e s"
| "act_step p h InitClear s = push h [InitStore] (ipi_init_clear p h s)"
| "act_step p h InitStore s = ipi_init_store p h s"

text \<open>
  The request itself: the loop over the targets with its retry while a queue is full, the
  hart's own fence, the wait for the count to come down.
\<close>

definition request_step :: "nat \<Rightarrow> rfence_req \<Rightarrow> nat list \<Rightarrow> (nat \<Rightarrow> nat) \<Rightarrow> nat list \<Rightarrow> rf_sys \<Rightarrow> rf_sys" where
  "request_step h req ts mk todo s =
     (case todo of
        [] \<Rightarrow> set_base h (Wait req ts mk) (if h \<in> set ts then log_fence h h req s else s)
      | t # rest \<Rightarrow>
          if t = h then set_base h (Request req ts mk rest) s
          else
            let (room, s1) = enqueue t req h s in
            if room then
              push h [Post t IPI_EVENT_RFENCE]
                (set_base h (Request req ts mk rest)
                   (fw_event (SBI_PMU_FW_FENCE_I_SENT + 2 * of_nat (type_code (req_type req))) h s1))
            else push h [Post t IPI_EVENT_RFENCE, Clear] s1)"

definition wait_step :: "nat \<Rightarrow> rf_sys \<Rightarrow> rf_sys" where
  "wait_step h s = (if outs s h = 0 then set_base h Running s else push h [Drain, Clear] s)"

definition exec :: "platform \<Rightarrow> nat \<Rightarrow> rf_sys \<Rightarrow> rf_sys" where
  "exec p h s =
     (case calls s h of
        a # k \<Rightarrow> act_step p h a (s\<lparr>calls := (calls s)(h := k)\<rparr>)
      | [] \<Rightarrow> (case base s h of
                 Request req ts mk todo \<Rightarrow> request_step h req ts mk todo s
               | Wait req ts mk \<Rightarrow> wait_step h s
               | _ \<Rightarrow> s))"

text \<open>A hart that has something to execute in the monitor.\<close>

definition busy :: "rf_sys \<Rightarrow> nat \<Rightarrow> bool" where
  "busy s h \<longleftrightarrow> calls s h \<noteq> [] \<or> (case base s h of Running \<Rightarrow> False | Halted \<Rightarrow> False | _ \<Rightarrow> True)"

definition idle :: "rf_sys \<Rightarrow> nat \<Rightarrow> bool" where
  "idle s h \<longleftrightarrow> calls s h = [] \<and> (case base s h of Running \<Rightarrow> True | _ \<Rightarrow> False)"

lemma idle_iff: "idle s h \<longleftrightarrow> calls s h = [] \<and> base s h = Running"
  by (simp add: idle_def split: base.splits)

text \<open>\<^verbatim>\<open>rfence_request\<close>, as S-mode's call gets there.\<close>

definition request_start :: "platform \<Rightarrow> nat \<Rightarrow> rfence_req \<Rightarrow> nat list \<Rightarrow> rf_sys \<Rightarrow> sbi \<times> rf_sys" where
  "request_start p h req ts s =
     (if type_code (req_type req) \<ge> type_code RFENCE_HFENCE_GVMA \<and> \<not> m_feat p HART_FEAT_H
      then (SBI_ERR_NOT_SUPPORTED, s)
      else (SBI_SUCCESS, set_base h (Request req ts (\<lambda>t. length (fenced s t)) ts)
              (s\<lparr>outs := (outs s)(h := 0)\<rparr>)))"

section \<open>The system\<close>

text \<open>What goes on without a new request: a hart in the monitor moves, or takes an interrupt.\<close>

inductive rf_run :: "platform \<Rightarrow> rf_sys \<Rightarrow> rf_sys \<Rightarrow> bool" for p where
  run_exec: "h < p_harts p \<Longrightarrow> busy s h \<Longrightarrow> rf_run p s (exec p h s)"
| run_irq: "h < p_harts p \<Longrightarrow> idle s h \<Longrightarrow> ipi_line s h \<Longrightarrow> rf_run p s (push h [Clear] s)"

text \<open>
  And what S-mode and the rest of the monitor add: a fence request to distinct harts of
  the table, an event or a bare kick for another hart, a hart that stops
  (\<^verbatim>\<open>hsm_wait_loop\<close>: \<^verbatim>\<open>ipi_hart_init\<close>, then \<^verbatim>\<open>rfence_process\<close>). With \<open>restart\<close> also a
  hart that starts again (\<^verbatim>\<open>hart_runtime_init\<close> ends with \<^verbatim>\<open>ipi_hart_init\<close> alone).
\<close>

inductive rf_step :: "bool \<Rightarrow> platform \<Rightarrow> rf_sys \<Rightarrow> rf_sys \<Rightarrow> bool" for restart p where
  step_run: "rf_run p s s' \<Longrightarrow> rf_step restart p s s'"
| step_request: "h < p_harts p \<Longrightarrow> idle s h \<Longrightarrow> distinct ts \<Longrightarrow> \<forall>t \<in> set ts. t < p_harts p \<Longrightarrow>
    rf_step restart p s (snd (request_start p h req ts s))"
| step_event: "h < p_harts p \<Longrightarrow> idle s h \<Longrightarrow> t < p_harts p \<Longrightarrow> ev \<noteq> IPI_EVENT_HALT \<Longrightarrow>
    rf_step restart p s (push h [Post t ev] s)"
| step_kick: "h < p_harts p \<Longrightarrow> idle s h \<Longrightarrow> t < p_harts p \<Longrightarrow> rf_step restart p s (push h [Raise t] s)"
| step_stop: "h < p_harts p \<Longrightarrow> idle s h \<Longrightarrow> rf_step restart p s (push h [InitClear, Drain] s)"
| step_start: "restart \<Longrightarrow> h < p_harts p \<Longrightarrow> idle s h \<Longrightarrow> rf_step restart p s (push h [InitClear] s)"

text \<open>Out of boot: empty queues, nothing posted, every hart in S-mode.\<close>

definition rf_boot :: "rf_sys \<Rightarrow> bool" where
  "rf_boot s \<longleftrightarrow> (\<forall>h. queues s h = ring_init \<and> ipi_pending s h = 0 \<and> \<not> ipi_line s h \<and>
     calls s h = [] \<and> base s h = Running)"

inductive rf_reach :: "bool \<Rightarrow> platform \<Rightarrow> rf_sys \<Rightarrow> bool" for restart p where
  reach_boot: "rf_boot s \<Longrightarrow> rf_reach restart p s"
| reach_step: "rf_reach restart p s \<Longrightarrow> rf_step restart p s s' \<Longrightarrow> rf_reach restart p s'"

section \<open>No wake-up is lost\<close>

abbreviation RF :: nat where "RF \<equiv> event_bit IPI_EVENT_RFENCE"
abbreviation HT :: nat where "HT \<equiv> event_bit IPI_EVENT_HALT"

text \<open>A call a hart has under way that will take it through its queue.\<close>

definition draining :: "act list \<Rightarrow> bool" where
  "draining as \<longleftrightarrow> Drain \<in> set as \<or> (\<exists>pd. Handle pd \<in> set as \<and> bit pd RF)"

text \<open>
  The harts of a system that may restart (\<open>rs\<close>) keep the rest of the invariant only.
  A queue with something in it: the event is posted, about to be posted, or seen. A posted
  event: the line is up, about to be raised, or the hart is about to take the word.
\<close>

definition wake_at :: "rf_sys \<Rightarrow> nat \<Rightarrow> bool" where
  "wake_at s t \<longleftrightarrow>
     (ring_list (queues s t) \<noteq> [] \<longrightarrow>
        bit (ipi_pending s t) RF \<or> (\<exists>g. Post t IPI_EVENT_RFENCE \<in> set (calls s g)) \<or> draining (calls s t)) \<and>
     (ipi_pending s t \<noteq> 0 \<longrightarrow>
        ipi_line s t \<or> (\<exists>g. Raise t \<in> set (calls s g)) \<or> Swap \<in> set (calls s t) \<or> InitStore \<in> set (calls s t))"

text \<open>Calls under way are in order: no halt, and a hart that stops looks at its queue after.\<close>

definition call_ok :: "platform \<Rightarrow> act \<Rightarrow> bool" where
  "call_ok p a \<longleftrightarrow> (case a of
       Post t ev \<Rightarrow> t < p_harts p \<and> ev \<noteq> IPI_EVENT_HALT
     | Raise t \<Rightarrow> t < p_harts p
     | Handle pd \<Rightarrow> \<not> bit pd HT
     | _ \<Rightarrow> True)"

fun init_ok :: "act list \<Rightarrow> bool" where
  "init_ok [] = True"
| "init_ok (a # as) = ((a = InitClear \<or> a = InitStore \<longrightarrow> Drain \<in> set as) \<and> init_ok as)"

definition calls_ok :: "bool \<Rightarrow> platform \<Rightarrow> act list \<Rightarrow> bool" where
  "calls_ok rs p as \<longleftrightarrow> (\<forall>a \<in> set as. call_ok p a) \<and> (rs \<or> init_ok as)"

definition base_ok :: "platform \<Rightarrow> base \<Rightarrow> bool" where
  "base_ok p b \<longleftrightarrow> (case b of
       Running \<Rightarrow> True
     | Halted \<Rightarrow> False
     | Request req ts mk todo \<Rightarrow> \<forall>t \<in> set todo. t < p_harts p
     | Wait req ts mk \<Rightarrow> True)"

definition wake_inv :: "bool \<Rightarrow> platform \<Rightarrow> rf_sys \<Rightarrow> bool" where
  "wake_inv rs p s \<longleftrightarrow> (\<forall>h. (rs \<or> wake_at s h) \<and> ring_wf (queues s h) \<and> \<not> bit (ipi_pending s h) HT \<and>
     calls_ok rs p (calls s h) \<and> base_ok p (base s h) \<and>
     (p_harts p \<le> h \<longrightarrow> calls s h = [] \<and> base s h = Running))"

lemma wake_invD:
  assumes "wake_inv rs p s"
  shows "rs \<or> wake_at s h" "ring_wf (queues s h)" "\<not> bit (ipi_pending s h) HT" "calls_ok rs p (calls s h)"
    "base_ok p (base s h)" "p_harts p \<le> h \<Longrightarrow> calls s h = [] \<and> base s h = Running"
  using assms by (auto simp: wake_inv_def)

declare event_bit.simps [simp del]

lemma call_ok_simps [simp]:
  "call_ok p (Post t ev) = (t < p_harts p \<and> ev \<noteq> IPI_EVENT_HALT)"
  "call_ok p (Raise t) = (t < p_harts p)"
  "call_ok p (Handle pd) = (\<not> bit pd HT)"
  "call_ok p Clear" "call_ok p Swap" "call_ok p (Smode pd)" "call_ok p Drain" "call_ok p (Serve e)"
  "call_ok p InitClear" "call_ok p InitStore"
  by (simp_all add: call_ok_def)

lemma bit_or_event: "bit (w OR BIT (event_bit ev)) n \<longleftrightarrow> bit w n \<or> n = event_bit ev"
  by (cases ev) (auto simp: bit_or_iff bit_BIT event_bit.simps)

lemma or_event_nonzero: "w OR BIT (event_bit ev) \<noteq> 0"
  using bit_or_event [of w ev "event_bit ev"] by auto

lemma event_bit_inject: "event_bit a = event_bit b \<longleftrightarrow> a = b"
  by (cases a; cases b) (auto simp: event_bit.simps)

text \<open>Calls a hart makes on its own queue.\<close>

lemma ring_take_cases:
  assumes "ring_wf q"
  obtains "ring_take q = None" "ring_list q = []"
  | e q' where "ring_take q = Some (e, q')" "ring_wf q'" "ring_list q = e # ring_list q'"
proof (cases "ring_take q")
  case None
  then show ?thesis using ring.take_None [OF assms] that(1) by auto
next
  case (Some x)
  then obtain e q' where "ring_take q = Some (e, q')" by (cases x) auto
  then show ?thesis using ring.take_Some [OF assms] that(2) by blast
qed

definition elsewhere :: "rf_sys \<Rightarrow> nat \<Rightarrow> act \<Rightarrow> bool" where
  "elsewhere s h x \<longleftrightarrow> (\<exists>g. g \<noteq> h \<and> x \<in> set (calls s g))"

lemma ex_call: "(\<exists>g. x \<in> set (calls s g)) \<longleftrightarrow> x \<in> set (calls s h) \<or> elsewhere s h x"
  by (auto simp: elsewhere_def)

lemma wake_at_iff:
  "wake_at s t \<longleftrightarrow>
     (ring_list (queues s t) \<noteq> [] \<longrightarrow>
        bit (ipi_pending s t) RF \<or> Post t IPI_EVENT_RFENCE \<in> set (calls s h) \<or>
        elsewhere s h (Post t IPI_EVENT_RFENCE) \<or> draining (calls s t)) \<and>
     (ipi_pending s t \<noteq> 0 \<longrightarrow>
        ipi_line s t \<or> Raise t \<in> set (calls s h) \<or> elsewhere s h (Raise t) \<or>
        Swap \<in> set (calls s t) \<or> InitStore \<in> set (calls s t))"
  by (simp only: wake_at_def ex_call [of _ s h] disj_assoc)

text \<open>A step of hart \<open>h\<close> changes the calls of no other hart.\<close>

lemma wake_inv_step:
  assumes inv: "wake_inv rs p s" and h: "h < p_harts p"
    and calls: "calls s' = (calls s)(h := as)" and base: "base s' = (base s)(h := b)"
    and ok: "calls_ok rs p as" "base_ok p b" "\<And>t. ring_wf (queues s' t)" "\<And>t. \<not> bit (ipi_pending s' t) HT"
    and wake: "\<And>t. \<not> rs \<Longrightarrow> wake_at s t \<Longrightarrow> elsewhere s' h = elsewhere s h \<Longrightarrow> wake_at s' t"
  shows "wake_inv rs p s'"
proof -
  have "elsewhere s' h = elsewhere s h" by (auto simp: elsewhere_def calls fun_eq_iff)
  then have "rs \<or> wake_at s' t" for t using wake inv by (auto simp: wake_inv_def)
  then show ?thesis using inv h ok calls base by (auto simp: wake_inv_def)
qed

lemma draining_simps [simp]:
  "draining [] = False"
  "draining (Drain # as) = True"
  "draining (Handle pd # as) = (bit pd RF \<or> draining as)"
  "draining (Post t ev # as) = draining as"
  "draining (Raise t # as) = draining as"
  "draining (Clear # as) = draining as"
  "draining (Swap # as) = draining as"
  "draining (Smode pd # as) = draining as"
  "draining (Serve e # as) = draining as"
  "draining (InitClear # as) = draining as"
  "draining (InitStore # as) = draining as"
  by (auto simp: draining_def)

lemma act_step_wake:
  assumes inv: "wake_inv rs p s" and h: "h < p_harts p" and c: "calls s h = a # k"
    and ipi: "ipi_available p"
  shows "wake_inv rs p (act_step p h a (s\<lparr>calls := (calls s)(h := k)\<rparr>))"
proof -
  note D = wake_invD [OF inv]
  have ok: "calls_ok rs p (a # k)" using D(4) [of h] c by simp
  have b: "base_ok p (base s h)" using D(5) .
  obtain o' where o': "p_ipi p = Some o'" using ipi by (auto simp: ipi_available_def)
  note S = fabric_defs push_def Let_def calls_ok_def wake_at_iff [of _ _ h] D(2,3) b c
    bit_or_event or_event_nonzero event_bit_inject
  show ?thesis
  proof (cases a)
    case (Post t ev)
    show ?thesis unfolding Post
      by (rule wake_inv_step [where as = "Raise t # k" and b = "base s h", OF inv h])
         (use ok Post in \<open>auto simp: S\<close>)
  next
    case (Raise t)
    show ?thesis unfolding Raise
      by (rule wake_inv_step [where as = k and b = "base s h", OF inv h])
         (use ok Raise in \<open>auto simp: S\<close>)
  next
    case Clear
    show ?thesis unfolding Clear
      by (rule wake_inv_step [where as = "Swap # k" and b = "base s h", OF inv h])
         (use ok Clear in \<open>auto simp: S\<close>)
  next
    case Swap
    show ?thesis unfolding Swap
      by (rule wake_inv_step [where as = "Handle (ipi_pending s h) # k" and b = "base s h", OF inv h])
         (use ok Swap in \<open>auto simp: S\<close>)
  next
    case (Handle pd)
    show ?thesis unfolding Handle
      by (rule wake_inv_step [where as = "(if bit pd RF then [Drain] else []) @ Smode pd # k" and b = "base s h", OF inv h])
         (use ok Handle in \<open>auto simp: S\<close>)
  next
    case (Smode pd)
    show ?thesis unfolding Smode
      by (rule wake_inv_step [where as = k and b = "base s h", OF inv h])
         (use ok Smode in \<open>auto simp: S\<close>)
  next
    case Drain
    show ?thesis
    proof (cases rule: ring_take_cases [OF D(2) [of h]])
      case 1
      show ?thesis unfolding Drain
        by (rule wake_inv_step [where as = k and b = "base s h", OF inv h])
           (use ok Drain 1 in \<open>auto simp: S\<close>)
    next
      case (2 e q)
      show ?thesis unfolding Drain
        by (rule wake_inv_step [where as = "Serve e # Drain # k" and b = "base s h", OF inv h])
           (use ok Drain 2 in \<open>auto simp: S\<close>)
    qed
  next
    case (Serve e)
    show ?thesis unfolding Serve
      by (rule wake_inv_step [where as = k and b = "base s h", OF inv h])
         (use ok Serve in \<open>auto simp: S\<close>)
  next
    case InitClear
    show ?thesis unfolding InitClear
      by (rule wake_inv_step [where as = "InitStore # k" and b = "base s h", OF inv h])
         (use ok InitClear o' in \<open>auto simp: S split: option.splits\<close>)
  next
    case InitStore
    show ?thesis unfolding InitStore
      by (rule wake_inv_step [where as = k and b = "base s h", OF inv h])
         (use ok InitStore o' in \<open>auto simp: S draining_def split: option.splits\<close>)
  qed
qed

lemma ring_put_cases:
  assumes "ring_wf q"
  obtains "ring_put e q = None" "length (ring_list q) = RFENCE_QUEUE_LEN"
  | q' where "ring_put e q = Some q'" "ring_wf q'" "ring_list q' = ring_list q @ [e]"
proof (cases "ring_put e q")
  case None
  then show ?thesis using ring.put_None [OF assms] that(1) by auto
next
  case (Some q')
  then show ?thesis using ring.put_Some [OF assms] that(2) by blast
qed

lemma request_step_wake:
  assumes inv: "wake_inv rs p s" and h: "h < p_harts p" and c: "calls s h = []"
    and r: "base s h = Request req ts mk todo"
  shows "wake_inv rs p (request_step h req ts mk todo s)"
proof -
  note D = wake_invD [OF inv]
  have ok: "\<forall>t \<in> set todo. t < p_harts p" using D(5) [of h] r by (simp add: base_ok_def)
  note S = request_step_def fabric_defs push_def set_base_def Let_def calls_ok_def base_ok_def
    wake_at_iff [of _ _ h] D(2,3) c bit_or_event or_event_nonzero event_bit_inject
  show ?thesis
  proof (cases todo)
    case Nil
    show ?thesis
      by (rule wake_inv_step [where as = "[]" and b = "Wait req ts mk", OF inv h])
         (use Nil in \<open>auto simp: S\<close>)
  next
    case (Cons t rest)
    show ?thesis
    proof (cases "t = h")
      case True
      show ?thesis
        by (rule wake_inv_step [where as = "[]" and b = "Request req ts mk rest", OF inv h])
           (use Cons True ok in \<open>auto simp: S\<close>)
    next
      case False
      show ?thesis
      proof (cases rule: ring_put_cases [OF D(2) [of t], where e = "\<lparr>e_req = req, e_out = h\<rparr>"])
        case 1
        show ?thesis
          by (rule wake_inv_step [where as = "[Post t IPI_EVENT_RFENCE, Clear]" and b = "base s h", OF inv h])
             (use Cons False ok 1 r in \<open>auto simp: S\<close>)
      next
        case (2 q)
        show ?thesis
          by (rule wake_inv_step [where as = "[Post t IPI_EVENT_RFENCE]" and b = "Request req ts mk rest", OF inv h])
             (use Cons False ok 2 in \<open>auto simp: S\<close>)
      qed
    qed
  qed
qed

lemma wait_step_wake:
  assumes inv: "wake_inv rs p s" and h: "h < p_harts p" and c: "calls s h = []"
  shows "wake_inv rs p (wait_step h s)"
proof -
  note D = wake_invD [OF inv]
  show ?thesis
    by (rule wake_inv_step [where as = "if outs s h = 0 then [] else [Drain, Clear]"
          and b = "if outs s h = 0 then Running else base s h", OF inv h])
       (use D(5) [of h] in \<open>auto simp: wait_step_def push_def set_base_def calls_ok_def base_ok_def
          wake_at_iff [of _ _ h] D(2,3) c\<close>)
qed

lemma exec_wake:
  "wake_inv rs p s \<Longrightarrow> h < p_harts p \<Longrightarrow> ipi_available p \<Longrightarrow> wake_inv rs p (exec p h s)"
  by (auto simp: exec_def act_step_wake request_step_wake wait_step_wake split: list.split base.split)

lemma push_wake:
  assumes inv: "wake_inv rs p s" and h: "h < p_harts p" and i: "idle s h" and ok: "calls_ok rs p as"
  shows "wake_inv rs p (push h as s)"
proof -
  note D = wake_invD [OF inv]
  show ?thesis
    by (rule wake_inv_step [where as = as and b = Running, OF inv h])
       (use i ok in \<open>auto simp: push_def base_ok_def idle_iff wake_at_iff [of _ _ h] D(2,3)\<close>)
qed

lemma rf_run_wake:
  "rf_run p s s' \<Longrightarrow> wake_inv rs p s \<Longrightarrow> ipi_available p \<Longrightarrow> wake_inv rs p s'"
  by (induction rule: rf_run.induct) (auto simp: exec_wake push_wake calls_ok_def)

lemma request_start_wake:
  assumes inv: "wake_inv rs p s" and h: "h < p_harts p" and i: "idle s h" and ts: "\<forall>t \<in> set ts. t < p_harts p"
  shows "wake_inv rs p (snd (request_start p h req ts s))"
proof -
  note D = wake_invD [OF inv]
  have "wake_inv rs p (set_base h (Request req ts (\<lambda>t. length (fenced s t)) ts) (s\<lparr>outs := (outs s)(h := 0)\<rparr>))"
    by (rule wake_inv_step [where as = "[]" and b = "Request req ts (\<lambda>t. length (fenced s t)) ts", OF inv h])
       (use i ts in \<open>auto simp: set_base_def calls_ok_def base_ok_def idle_iff wake_at_iff [of _ _ h] D(2,3)\<close>)
  then show ?thesis using inv by (simp add: request_start_def)
qed

lemma rf_step_wake:
  "rf_step rs p s s' \<Longrightarrow> wake_inv rs p s \<Longrightarrow> ipi_available p \<Longrightarrow> wake_inv rs p s'"
  by (induction rule: rf_step.induct)
     (auto simp: rf_run_wake request_start_wake push_wake calls_ok_def)

lemma rf_reach_wake: "rf_reach rs p s \<Longrightarrow> ipi_available p \<Longrightarrow> wake_inv rs p s"
proof (induction rule: rf_reach.induct)
  case (reach_boot s)
  then show ?case by (auto simp: wake_inv_def rf_boot_def wake_at_def calls_ok_def base_ok_def)
qed (blast intro: rf_step_wake)

section \<open>What is out, and what has been done\<close>

text \<open>The entries a hart holds: in its queue, or taken off it and not served yet.\<close>

fun serves :: "act list \<Rightarrow> rfence_entry list" where
  "serves [] = []"
| "serves (Serve e # as) = e # serves as"
| "serves (_ # as) = serves as"

definition held :: "rf_sys \<Rightarrow> nat \<Rightarrow> rfence_entry multiset" where
  "held s t = mset (serves (calls s t)) + mset (ring_list (queues s t))"

definition mine :: "rf_sys \<Rightarrow> nat \<Rightarrow> nat \<Rightarrow> rfence_entry multiset" where
  "mine s h t = filter_mset (\<lambda>e. e_out e = h) (held s t)"

text \<open>
  A request of hart \<open>h\<close> that has asked the harts \<open>D\<close>: each of them holds its one entry or
  has run the fence since the request began, and the count is the number of entries held.
\<close>

definition out_inv :: "nat \<Rightarrow> rf_sys \<Rightarrow> nat \<Rightarrow> rfence_req \<Rightarrow> (nat \<Rightarrow> nat) \<Rightarrow> nat set \<Rightarrow> bool" where
  "out_inv n s h req mk D \<longleftrightarrow>
     outs s h = of_nat (\<Sum>t<n. size (mine s h t)) \<and>
     (\<forall>t<n. mk t \<le> length (fenced s t) \<and>
        (mine s h t = {#} \<or> mine s h t = {#\<lparr>e_req = req, e_out = h\<rparr>#} \<and> t \<in> D - {h}) \<and>
        (t \<in> D - {h} \<and> mine s h t = {#} \<longrightarrow> (h, req) \<in> set (drop (mk t) (fenced s t))))"

definition req_inv :: "nat \<Rightarrow> rf_sys \<Rightarrow> nat \<Rightarrow> bool" where
  "req_inv n s h \<longleftrightarrow> (case base s h of
       Running \<Rightarrow> \<forall>t<n. mine s h t = {#}
     | Halted \<Rightarrow> False
     | Request req ts mk todo \<Rightarrow> distinct ts \<and> set ts \<subseteq> {..<n} \<and>
         (\<exists>dn. ts = dn @ todo \<and> out_inv n s h req mk (set dn))
     | Wait req ts mk \<Rightarrow> distinct ts \<and> set ts \<subseteq> {..<n} \<and> out_inv n s h req mk (set ts) \<and>
         (h \<in> set ts \<longrightarrow> (h, req) \<in> set (drop (mk h) (fenced s h))))"

text \<open>Steps that touch none of it.\<close>

lemma out_inv_cong:
  "(\<And>t. t < n \<Longrightarrow> held s' t = held s t) \<Longrightarrow> outs s' h = outs s h \<Longrightarrow> fenced s' = fenced s \<Longrightarrow>
   out_inv n s h req mk D \<Longrightarrow> out_inv n s' h req mk D"
  by (simp add: out_inv_def mine_def)

lemma req_inv_cong:
  assumes "\<And>t. t < n \<Longrightarrow> held s' t = held s t" "outs s' h = outs s h" "fenced s' = fenced s"
    "base s' h = base s h" "req_inv n s h"
  shows "req_inv n s' h"
  using assms(4,5) out_inv_cong [OF assms(1,2,3)]
  by (auto simp: req_inv_def mine_def assms(1,3) split: base.splits)

lemma req_inv_mine:
  assumes "\<And>t. mine s' h t = mine s h t" "outs s' h = outs s h" "fenced s' = fenced s" "base s' h = base s h"
  shows "req_inv n s' h = req_inv n s h"
  by (cases "base s h") (simp_all add: req_inv_def out_inv_def assms)

lemma drop_grow: "x \<in> set (drop n xs) \<Longrightarrow> x \<in> set (drop n (xs @ ys))"
  by simp

lemma set_drop_last: "n \<le> length xs \<Longrightarrow> x \<in> set (drop n (xs @ [x]))"
  by simp

text \<open>A hart runs one more fence.\<close>

lemma req_inv_log:
  assumes "\<And>t. t < n \<Longrightarrow> held s' t = held s t" "outs s' h = outs s h"
    "fenced s' = (fenced s)(g := fenced s g @ xs)" "base s' h = base s h" "req_inv n s h"
  shows "req_inv n s' h"
proof -
  have f: "length (fenced s t) \<le> length (fenced s' t)" "set (drop k (fenced s t)) \<subseteq> set (drop k (fenced s' t))" for t k
    by (auto simp: assms(3))
  have "out_inv n s' h req mk D" if "out_inv n s h req mk D" for req mk D
    using that f assms(1,2) by (fastforce simp: out_inv_def mine_def intro: le_trans)
  then show ?thesis using assms(4,5) f(2) by (auto simp: req_inv_def mine_def assms(1) split: base.splits)
qed

text \<open>Hart \<open>g\<close> serves an entry it holds.\<close>

lemma sum_one_less:
  fixes f :: "nat \<Rightarrow> nat"
  assumes "g < n" "f g = 1" "f' g = 0" "\<And>t. t \<noteq> g \<Longrightarrow> f' t = f t"
  shows "(\<Sum>t<n. f t) = Suc (\<Sum>t<n. f' t)"
proof -
  have "(\<Sum>t<n. f t) = f g + (\<Sum>t \<in> {..<n} - {g}. f t)" using assms(1) by (intro sum.remove) auto
  moreover have "(\<Sum>t<n. f' t) = f' g + (\<Sum>t \<in> {..<n} - {g}. f' t)" using assms(1) by (intro sum.remove) auto
  ultimately show ?thesis using assms by simp
qed

lemma req_inv_serve:
  assumes h: "\<And>t. held s' t = (if t = g then held s g - {#e#} else held s t)" and e: "e \<in># held s g"
    and o: "outs s' = (outs s)(e_out e := outs s (e_out e) - 1)"
    and f: "fenced s' = (fenced s)(g := fenced s g @ [(e_out e, e_req e)])"
    and b: "base s' = base s" and g: "g < n" and inv: "req_inv n s h"
  shows "req_inv n s' h"
proof (cases "e_out e = h")
  case False
  then have m: "mine s' h t = mine s h t" for t using e by (auto simp: mine_def h)
  have fl: "length (fenced s t) \<le> length (fenced s' t)" "set (drop k (fenced s t)) \<subseteq> set (drop k (fenced s' t))" for t k
    by (auto simp: f)
  have "out_inv n s' h req mk D" if "out_inv n s h req mk D" for req mk D
    using that fl False by (fastforce simp: out_inv_def m o intro: le_trans)
  then show ?thesis using inv fl(2) by (auto simp: req_inv_def m b split: base.splits)
next
  case True
  have in_mine: "e \<in># mine s h g" using e True by (simp add: mine_def)
  have m: "mine s' h t = (if t = g then mine s h g - {#e#} else mine s h t)" for t
    using True by (simp add: mine_def h)
  have step: "out_inv n s' h req mk D" if i: "out_inv n s h req mk D" for req mk D
  proof -
    have one: "mine s h g = {#e#}" and D: "g \<in> D - {h}" and er: "e_req e = req"
      using i g in_mine by (auto simp: out_inv_def)
    have z: "mine s' h g = {#}" by (simp add: m one)
    have "(\<Sum>t<n. size (mine s h t)) = Suc (\<Sum>t<n. size (mine s' h t))"
      by (rule sum_one_less [OF g]) (auto simp: one z m)
    moreover have "(h, req) \<in> set (drop (mk g) (fenced s' g))"
      using i g er True by (simp add: out_inv_def f set_drop_last)
    ultimately show ?thesis using i unfolding out_inv_def by (auto simp: m one o f True)
  qed
  have "(x \<in> set (drop k (fenced s h)) \<longrightarrow> x \<in> set (drop k (fenced s' h)))" for x k by (simp add: f)
  then show ?thesis using inv step in_mine g by (auto simp: req_inv_def b split: base.splits)
qed

lemma held_eqI:
  "serves (calls s' t) = serves (calls s t) \<Longrightarrow> queues s' t = queues s t \<Longrightarrow> held s' t = held s t"
  by (simp add: held_def)

lemma act_step_req:
  assumes wake: "wake_inv rs p s" and h: "h < p_harts p" and c: "calls s h = a # k"
    and inv: "req_inv (p_harts p) s g"
  shows "req_inv (p_harts p) (act_step p h a (s\<lparr>calls := (calls s)(h := k)\<rparr>)) g"
    (is "req_inv _ ?s g")
proof (cases "\<exists>e. a = Serve e")
  case True
  then obtain e where a: "a = Serve e" ..
  show ?thesis
    by (rule req_inv_serve [where s = s and g = h and e = e])
       (use c h inv in \<open>auto simp: a held_def fabric_defs Let_def\<close>)
next
  case ns: False
  note D = wake_invD [OF wake]
  note S = fabric_defs push_def Let_def held_def c
  have ok: "call_ok p a" using D(4) [of h] c by (simp add: calls_ok_def)
  have "held ?s t = held s t" for t
  proof (cases "a = Drain")
    case True
    show ?thesis by (cases rule: ring_take_cases [OF D(2) [of h]]) (use True c in \<open>auto simp: S\<close>)
  next
    case False
    then show ?thesis using ns ok by (cases a) (auto simp: S split: option.splits)
  qed
  moreover have "outs ?s = outs s \<and> fenced ?s = fenced s \<and> base ?s = base s"
    using ns ok by (cases a) (auto simp: fabric_defs push_def Let_def split: option.split prod.split)
  ultimately show ?thesis using inv by - (rule req_inv_cong [where s = s], auto)
qed

text \<open>A request asks one more hart.\<close>

lemma req_inv_enqueue:
  assumes h: "\<And>t. held s' t = (if t = u then add_mset \<lparr>e_req = req, e_out = h\<rparr> (held s t) else held s t)"
    and o: "outs s' = (outs s)(h := outs s h + 1)" and f: "fenced s' = fenced s"
    and b: "base s' = (base s)(h := Request req ts mk rest)"
    and r: "base s h = Request req ts mk (u # rest)" and u: "u < n" "u \<noteq> h" and inv: "req_inv n s g"
  shows "req_inv n s' g"
proof (cases "g = h")
  case False
  then have "mine s' g t = mine s g t" for t by (auto simp: mine_def h)
  then show ?thesis using req_inv_mine [of s' g s] inv False by (simp add: o f b)
next
  case True
  then obtain dn where ts: "distinct ts" "set ts \<subseteq> {..<n}" "ts = dn @ u # rest"
    and i: "out_inv n s h req mk (set dn)"
    using inv r by (auto simp: req_inv_def)
  have "u \<notin> set dn" using ts(1,3) by auto
  then have z: "mine s h u = {#}" using i u by (auto simp: out_inv_def)
  have m: "mine s' h t = (if t = u then {#\<lparr>e_req = req, e_out = h\<rparr>#} else mine s h t)" for t
    using z by (auto simp: mine_def h)
  have "(\<Sum>t<n. size (mine s' h t)) = Suc (\<Sum>t<n. size (mine s h t))"
    by (rule sum_one_less [OF u(1)]) (auto simp: m z)
  then have "out_inv n s' h req mk (set (dn @ [u]))"
    using i u unfolding out_inv_def by (auto simp: m o f)
  moreover have "ts = (dn @ [u]) @ rest" using ts(3) by simp
  ultimately show ?thesis using ts True by (auto simp: req_inv_def b simp del: set_append)
qed

lemma request_step_req:
  assumes wake: "wake_inv rs p s" and h: "h < p_harts p" and c: "calls s h = []"
    and r: "base s h = Request req ts mk todo" and inv: "\<And>g. req_inv (p_harts p) s g"
  shows "req_inv (p_harts p) (request_step h req ts mk todo s) g"
proof -
  note D = wake_invD [OF wake]
  note S = request_step_def fabric_defs push_def set_base_def Let_def held_def c
  obtain dn where ts: "distinct ts" "set ts \<subseteq> {..<p_harts p}" "ts = dn @ todo"
    and i: "out_inv (p_harts p) s h req mk (set dn)"
    using inv [of h] r by (auto simp: req_inv_def)
  show ?thesis
  proof (cases todo)
    case Nil
    let ?s = "if h \<in> set ts then log_fence h h req s else s"
    have l: "req_inv (p_harts p) ?s g" for g
      by (rule req_inv_log [where s = s and g = h and xs = "if h \<in> set ts then [(h, req)] else []"])
         (use inv in \<open>auto simp: S\<close>)
    have "h \<in> set ts \<Longrightarrow> (h, req) \<in> set (drop (mk h) (fenced ?s h))"
      using i h by (simp add: out_inv_def log_fence_def)
    moreover have "base ?s h = base s h" by (simp add: log_fence_def)
    ultimately show ?thesis using l [of g] l [of h] Nil r ts
      by (cases "g = h") (auto simp: req_inv_def request_step_def set_base_def out_inv_def mine_def held_def
          cong: base.case_cong)
  next
    case (Cons t rest)
    have t: "t < p_harts p" using ts Cons by auto
    show ?thesis
    proof (cases "t = h")
      case True
      have "out_inv (p_harts p) s h req mk (set (dn @ [h]))" using i by (auto simp: out_inv_def)
      moreover have "ts = (dn @ [h]) @ rest" using ts Cons True by simp
      ultimately show ?thesis using inv [of g] ts Cons True
        by (cases "g = h") (auto simp: req_inv_def request_step_def set_base_def out_inv_def mine_def held_def
            simp del: set_append cong: base.case_cong)
    next
      case False
      show ?thesis
      proof (cases rule: ring_put_cases [OF D(2) [of t], where e = "\<lparr>e_req = req, e_out = h\<rparr>"])
        case 1
        show ?thesis
          by (rule req_inv_cong [where s = s]) (use inv 1 Cons False in \<open>auto simp: S\<close>)
      next
        case (2 q)
        show ?thesis
          by (rule req_inv_enqueue [where s = s and u = t and h = h and req = req and ts = ts and mk = mk and rest = rest])
             (use inv 2 Cons False r t in \<open>auto simp: S\<close>)
      qed
    qed
  qed
qed

text \<open>A count of zero means that nothing is out: the number of entries fits the count.\<close>

lemma out_zero:
  assumes "out_inv n s h req mk D" "outs s h = 0" "n < 2 ^ 64" "t < n"
  shows "mine s h t = {#}"
proof -
  have le: "size (mine s h t) \<le> 1" if "t < n" for t
    using assms(1) that by (fastforce simp: out_inv_def)
  have "(\<Sum>t<n. size (mine s h t)) \<le> n" using sum_bounded_above [of "{..<n}" "\<lambda>t. size (mine s h t)" 1] le by simp
  moreover have "(of_nat (\<Sum>t<n. size (mine s h t)) :: ulong) = 0" using assms(1,2) unfolding out_inv_def by simp
  ultimately have "(\<Sum>t<n. size (mine s h t)) = 0"
    using assms(3) unat_of_nat [of "\<Sum>t<n. size (mine s h t)", where ?'a = 64]
    by (simp del: of_nat_sum sum_eq_0_iff unsigned_of_nat)
  then show ?thesis using assms(4) by simp
qed

lemma wait_step_req:
  assumes r: "base s h = Wait req ts mk" and n: "p_harts p < 2 ^ 64" and inv: "\<And>g. req_inv (p_harts p) s g"
    and c: "calls s h = []"
  shows "req_inv (p_harts p) (wait_step h s) g"
proof (cases "outs s h = 0")
  case True
  have "out_inv (p_harts p) s h req mk (set ts)" using inv [of h] r by (simp add: req_inv_def)
  then have z: "\<forall>t<p_harts p. mine s h t = {#}" using out_zero True n by blast
  have m: "mine (wait_step h s) g t = mine s g t" for g t
    by (simp add: wait_step_def True set_base_def mine_def held_def)
  show ?thesis
  proof (cases "g = h")
    case True
    then show ?thesis using z \<open>outs s h = 0\<close> m by (simp add: req_inv_def wait_step_def set_base_def)
  next
    case False
    then show ?thesis using req_inv_mine [of "wait_step h s" g s] inv m
      by (simp add: wait_step_def True set_base_def)
  qed
next
  case False
  show ?thesis by (rule req_inv_cong [where s = s])
      (use inv in \<open>auto simp: wait_step_def False push_def held_def c\<close>)
qed

lemma exec_req:
  "wake_inv rs p s \<Longrightarrow> h < p_harts p \<Longrightarrow> p_harts p < 2 ^ 64 \<Longrightarrow> (\<And>g. req_inv (p_harts p) s g) \<Longrightarrow>
   req_inv (p_harts p) (exec p h s) g"
  by (auto simp: exec_def act_step_req request_step_req wait_step_req split: list.split base.split)

lemma push_req:
  assumes "serves as = []" "idle s h" "req_inv n s g"
  shows "req_inv n (push h as s) g"
  by (rule req_inv_cong [where s = s]) (use assms in \<open>auto simp: push_def held_def idle_iff\<close>)

lemma rf_run_req:
  "rf_run p s s' \<Longrightarrow> wake_inv rs p s \<Longrightarrow> p_harts p < 2 ^ 64 \<Longrightarrow> \<forall>g. req_inv (p_harts p) s g \<Longrightarrow>
   \<forall>g. req_inv (p_harts p) s' g"
  by (induction rule: rf_run.induct) (auto simp: exec_req push_req)

lemma request_start_req:
  assumes i: "idle s h" and ts: "distinct ts" "\<forall>t \<in> set ts. t < n" and inv: "\<And>g. req_inv n s g"
  shows "req_inv n (snd (request_start p h req ts s)) g"
proof -
  let ?s = "set_base h (Request req ts (\<lambda>t. length (fenced s t)) ts) (s\<lparr>outs := (outs s)(h := 0)\<rparr>)"
  have m: "mine ?s g t = mine s g t" for g t by (simp add: mine_def held_def set_base_def)
  have z: "\<forall>t<n. mine s h t = {#}" using inv [of h] i by (simp add: req_inv_def idle_iff)
  have "req_inv n ?s g"
  proof (cases "g = h")
    case True
    have "out_inv n ?s h req (\<lambda>t. length (fenced s t)) (set [])"
      using z by (simp add: out_inv_def m) (simp add: set_base_def)
    then show ?thesis using ts True by (auto simp: req_inv_def set_base_def)
  next
    case False
    then show ?thesis using req_inv_mine [of ?s g s] inv m by (simp add: set_base_def)
  qed
  then show ?thesis using inv by (simp add: request_start_def)
qed

lemma rf_step_req:
  assumes "rf_step rs p s s'" "wake_inv rs p s" "p_harts p < 2 ^ 64" "\<forall>g. req_inv (p_harts p) s g"
  shows "\<forall>g. req_inv (p_harts p) s' g"
  using assms by (induction rule: rf_step.induct) (auto simp: rf_run_req request_start_req push_req)

lemma rf_reach_req:
  "rf_reach rs p s \<Longrightarrow> ipi_available p \<Longrightarrow> p_harts p < 2 ^ 64 \<Longrightarrow> req_inv (p_harts p) s g"
proof -
  assume r: "rf_reach rs p s" and a: "ipi_available p" "p_harts p < 2 ^ 64"
  from r have "\<forall>g. req_inv (p_harts p) s g"
  proof (induction rule: rf_reach.induct)
    case (reach_boot s)
    then show ?case by (auto simp: rf_boot_def req_inv_def mine_def held_def)
  next
    case (reach_step s s')
    then show ?case using rf_step_req rf_reach_wake a by blast
  qed
  then show ?thesis by blast
qed

section \<open>Every request can be brought to its end\<close>

text \<open>
  A hart left to itself gets through the monitor calls it has under way. \<open>act_weight\<close> is
  what is left of a call, an entry in the hart's queue counts twice.
\<close>

fun act_weight :: "act \<Rightarrow> nat" where
  "act_weight (Post t ev) = 2"
| "act_weight (Raise t) = 1"
| "act_weight Clear = 6"
| "act_weight Swap = 5"
| "act_weight (Handle pd) = 4"
| "act_weight (Smode pd) = 1"
| "act_weight Drain = 1"
| "act_weight (Serve e) = 1"
| "act_weight InitClear = 2"
| "act_weight InitStore = 1"

definition left_to_do :: "rf_sys \<Rightarrow> nat \<Rightarrow> nat" where
  "left_to_do s h = sum_list (map act_weight (calls s h)) + 2 * q_count (queues s h)"

definition will_drain :: "rf_sys \<Rightarrow> nat \<Rightarrow> bool" where
  "will_drain s h \<longleftrightarrow> draining (calls s h) \<or>
     (Clear \<in> set (calls s h) \<or> Swap \<in> set (calls s h)) \<and> bit (ipi_pending s h) RF"

lemma settle_step:
  assumes wake: "wake_inv False p s" and c: "calls s h = a # k" and ipi: "ipi_available p"
  defines "s' \<equiv> exec p h s"
  shows "left_to_do s' h < left_to_do s h" "base s' = base s"
    "\<And>g. g \<noteq> h \<Longrightarrow> calls s' g = calls s g \<and> queues s' g = queues s g"
    "q_count (queues s' h) \<le> q_count (queues s h)"
    "will_drain s h \<Longrightarrow> will_drain s' h \<or> q_count (queues s' h) = 0"
proof -
  note D = wake_invD [OF wake]
  obtain o' where o': "p_ipi p = Some o'" using ipi by (auto simp: ipi_available_def)
  have ok: "calls_ok False p (a # k)" using D(4) [of h] c by simp
  have e: "s' = act_step p h a (s\<lparr>calls := (calls s)(h := k)\<rparr>)" by (simp add: s'_def exec_def c)
  have "left_to_do s' h < left_to_do s h \<and> base s' = base s \<and>
    (\<forall>g. g \<noteq> h \<longrightarrow> calls s' g = calls s g \<and> queues s' g = queues s g) \<and>
    q_count (queues s' h) \<le> q_count (queues s h) \<and>
    (will_drain s h \<longrightarrow> will_drain s' h \<or> q_count (queues s' h) = 0)"
  proof (cases "a = Drain")
    case True
    show ?thesis
      by (cases rule: ring_take_cases [OF D(2) [of h]])
         (use True c length_ring_list [of "queues s h"] in
           \<open>auto simp: e left_to_do_def will_drain_def fabric_defs push_def ring_take_def split: if_splits\<close>)
  next
    case False
    then show ?thesis using ok o'
      by (cases a)
         (auto simp: e c left_to_do_def will_drain_def fabric_defs push_def Let_def calls_ok_def bit_or_event
            draining_def split: option.splits)
  qed
  then show "left_to_do s' h < left_to_do s h" "base s' = base s"
    "\<And>g. g \<noteq> h \<Longrightarrow> calls s' g = calls s g \<and> queues s' g = queues s g"
    "q_count (queues s' h) \<le> q_count (queues s h)"
    "will_drain s h \<Longrightarrow> will_drain s' h \<or> q_count (queues s' h) = 0" by auto
qed

text \<open>The invariants of the system together.\<close>

definition rf_inv :: "platform \<Rightarrow> rf_sys \<Rightarrow> bool" where
  "rf_inv p s \<longleftrightarrow> wake_inv False p s \<and> (\<forall>g. req_inv (p_harts p) s g) \<and> ipi_available p \<and> p_harts p < 2 ^ 64"

lemma rf_run_inv: "rf_run p s s' \<Longrightarrow> rf_inv p s \<Longrightarrow> rf_inv p s'"
  using rf_run_wake rf_run_req by (simp add: rf_inv_def) blast

lemma rf_runs_inv: "(rf_run p)\<^sup>*\<^sup>* s s' \<Longrightarrow> rf_inv p s \<Longrightarrow> rf_inv p s'"
  by (induction rule: rtranclp_induct) (auto intro: rf_run_inv)

lemma settle:
  assumes "rf_inv p s" "h < p_harts p"
  shows "\<exists>s'. (rf_run p)\<^sup>*\<^sup>* s s' \<and> calls s' h = [] \<and> base s' = base s \<and>
    (\<forall>g. g \<noteq> h \<longrightarrow> calls s' g = calls s g \<and> queues s' g = queues s g) \<and>
    q_count (queues s' h) \<le> q_count (queues s h) \<and>
    (will_drain s h \<longrightarrow> q_count (queues s' h) = 0)"
  using assms(1)
proof (induction "left_to_do s h" arbitrary: s rule: less_induct)
  case less
  show ?case
  proof (cases "calls s h")
    case Nil
    then show ?thesis by (intro exI [of _ s]) (auto simp: will_drain_def)
  next
    case (Cons a k)
    let ?s = "exec p h s"
    have w: "wake_inv False p s" "ipi_available p" using less.prems by (auto simp: rf_inv_def)
    note st = settle_step [OF w(1) Cons w(2)]
    have run: "rf_run p s ?s" using assms(2) Cons by (intro run_exec) (auto simp: busy_def)
    from less.hyps [OF st(1) rf_run_inv [OF run less.prems]] obtain s' where
      s': "(rf_run p)\<^sup>*\<^sup>* ?s s'" "calls s' h = []" "base s' = base ?s"
        "\<forall>g. g \<noteq> h \<longrightarrow> calls s' g = calls ?s g \<and> queues s' g = queues ?s g"
        "q_count (queues s' h) \<le> q_count (queues ?s h)"
        "will_drain ?s h \<longrightarrow> q_count (queues s' h) = 0" by blast
    have "(rf_run p)\<^sup>*\<^sup>* s s'" using run s'(1) by (rule converse_rtranclp_into_rtranclp)
    then show ?thesis using s' st(2-5) by (intro exI [of _ s']) auto
  qed
qed

text \<open>What is left of the requests: targets to ask, entries to serve.\<close>

fun base_weight :: "base \<Rightarrow> nat" where
  "base_weight (Request req ts mk todo) = 2 + 3 * length todo"
| "base_weight (Wait req ts mk) = 1"
| "base_weight _ = 0"

definition work :: "platform \<Rightarrow> rf_sys \<Rightarrow> nat" where
  "work p s = (\<Sum>h<p_harts p. base_weight (base s h) + q_count (queues s h))"

definition settled :: "platform \<Rightarrow> rf_sys \<Rightarrow> bool" where
  "settled p s \<longleftrightarrow> (\<forall>h<p_harts p. calls s h = [])"

lemma settle_upto:
  assumes "rf_inv p s" "n \<le> p_harts p"
  shows "\<exists>s'. (rf_run p)\<^sup>*\<^sup>* s s' \<and> (\<forall>h<n. calls s' h = []) \<and> base s' = base s \<and>
    (\<forall>h. q_count (queues s' h) \<le> q_count (queues s h))"
  using assms(2)
proof (induction n)
  case 0
  then show ?case by auto
next
  case (Suc n)
  then obtain s1 where s1: "(rf_run p)\<^sup>*\<^sup>* s s1" "\<forall>h<n. calls s1 h = []" "base s1 = base s"
    "\<forall>h. q_count (queues s1 h) \<le> q_count (queues s h)" by auto
  obtain s2 where s2: "(rf_run p)\<^sup>*\<^sup>* s1 s2" "calls s2 n = []" "base s2 = base s1"
    "\<forall>g. g \<noteq> n \<longrightarrow> calls s2 g = calls s1 g \<and> queues s2 g = queues s1 g"
    "q_count (queues s2 n) \<le> q_count (queues s1 n)"
    using settle [OF rf_runs_inv [OF s1(1) assms(1)], of n] Suc.prems by auto
  have "(rf_run p)\<^sup>*\<^sup>* s s2" using s1(1) s2(1) by (rule rtranclp_trans)
  moreover have "q_count (queues s2 h) \<le> q_count (queues s h)" for h
    using s1(4) s2(4,5) by (cases "h = n") (auto intro: le_trans)
  moreover have "calls s2 h = []" if "h < Suc n" for h
    using that s1(2) s2(2,4) by (cases "h = n") auto
  ultimately show ?case using s1(3) s2(3) by auto
qed

lemma settle_all:
  assumes "rf_inv p s"
  obtains s' where "(rf_run p)\<^sup>*\<^sup>* s s'" "settled p s'" "rf_inv p s'" "work p s' \<le> work p s"
proof -
  obtain s' where s': "(rf_run p)\<^sup>*\<^sup>* s s'" "\<forall>h<p_harts p. calls s' h = []" "base s' = base s"
    "\<forall>h. q_count (queues s' h) \<le> q_count (queues s h)"
    using settle_upto [OF assms, of "p_harts p"] by auto
  have "work p s' \<le> work p s" unfolding work_def using s'(3,4) by (intro sum_mono) auto
  then show ?thesis using that s'(1,2) rf_runs_inv [OF s'(1) assms] by (simp add: settled_def)
qed

lemma sum_change:
  fixes f :: "nat \<Rightarrow> nat"
  assumes "h < n" "\<And>g. g \<noteq> h \<Longrightarrow> f' g = f g"
  shows "(\<Sum>g<n. f' g) + f h = (\<Sum>g<n. f g) + f' h"
proof -
  have "(\<Sum>g<n. f' g) = f' h + (\<Sum>g \<in> {..<n} - {h}. f' g)" using assms(1) by (intro sum.remove) auto
  moreover have "(\<Sum>g<n. f g) = f h + (\<Sum>g \<in> {..<n} - {h}. f g)" using assms(1) by (intro sum.remove) auto
  ultimately show ?thesis using assms(2) by simp
qed

lemma work_change:
  assumes "h < p_harts p" "\<And>g. g \<noteq> h \<Longrightarrow> base s' g = base s g"
    and "t < p_harts p" "\<And>g. g \<noteq> t \<Longrightarrow> q_count (queues s' g) = q_count (queues s g)"
  shows "work p s' + base_weight (base s h) + q_count (queues s t) =
    work p s + base_weight (base s' h) + q_count (queues s' t)"
  using sum_change [OF assms(1), of "\<lambda>g. base_weight (base s' g)" "\<lambda>g. base_weight (base s g)"]
    sum_change [OF assms(3), of "\<lambda>g. q_count (queues s' g)" "\<lambda>g. q_count (queues s g)"] assms(2,4)
  by (simp add: work_def sum.distrib)

lemma work_less:
  assumes "h < p_harts p" "\<And>g. g \<noteq> h \<Longrightarrow> base s' g = base s g \<and> q_count (queues s' g) = q_count (queues s g)"
    "base_weight (base s' h) + q_count (queues s' h) < base_weight (base s h) + q_count (queues s h)"
  shows "work p s' < work p s"
  using work_change [of h p s' s h] assms by simp

text \<open>A hart about to look at its queue empties it.\<close>

lemma drain_progress:
  assumes inv: "rf_inv p s" and h: "h < p_harts p" and w: "will_drain s h" and q: "q_count (queues s h) \<noteq> 0"
  obtains s' where "(rf_run p)\<^sup>*\<^sup>* s s'" "rf_inv p s'" "work p s' < work p s"
proof -
  obtain s' where s': "(rf_run p)\<^sup>*\<^sup>* s s'" "base s' = base s"
    "\<forall>g. g \<noteq> h \<longrightarrow> calls s' g = calls s g \<and> queues s' g = queues s g" "q_count (queues s' h) = 0"
    using settle [OF inv h] w by auto
  have "work p s' < work p s" by (rule work_less [OF h]) (use s' q in auto)
  then show ?thesis using that s'(1) rf_runs_inv [OF s'(1) inv] by blast
qed

text \<open>With nothing under way, a hart with entries in its queue has been told.\<close>

lemma settled_told:
  assumes inv: "rf_inv p s" and st: "settled p s" and q: "q_count (queues s h) \<noteq> 0"
  shows "bit (ipi_pending s h) RF" "ipi_line s h"
proof -
  have none: "calls s g = []" for g
    using st inv by (cases "g < p_harts p") (auto simp: settled_def rf_inv_def wake_inv_def)
  have w: "wake_at s h" using inv by (auto simp: rf_inv_def wake_inv_def)
  have "ring_list (queues s h) \<noteq> []" using q by (metis length_ring_list list.size(3))
  then show p: "bit (ipi_pending s h) RF" using w none by (simp add: wake_at_def)
  then have "ipi_pending s h \<noteq> 0" by auto
  then show "ipi_line s h" using w none by (simp add: wake_at_def)
qed

text \<open>A request moves on, unless the queue it wants is full.\<close>

lemma request_progress:
  assumes inv: "wake_inv False p s" and h: "h < p_harts p" and c: "calls s h = []"
    and r: "base s h = Request req ts mk todo"
  shows "work p (exec p h s) < work p s \<or>
    (\<exists>t. q_count (queues s t) \<noteq> 0 \<and> exec p h s = push h [Post t IPI_EVENT_RFENCE, Clear] s)"
proof -
  note D = wake_invD [OF inv]
  have ok: "\<forall>t \<in> set todo. t < p_harts p" using D(5) [of h] r by (simp add: base_ok_def)
  have e: "exec p h s = request_step h req ts mk todo s" by (simp add: exec_def c r)
  show ?thesis
  proof (cases todo)
    case Nil
    have "work p (exec p h s) < work p s"
      by (rule work_less [OF h]) (auto simp: e Nil r request_step_def set_base_def log_fence_def)
    then show ?thesis ..
  next
    case (Cons t rest)
    show ?thesis
    proof (cases "t = h")
      case True
      have "work p (exec p h s) < work p s"
        by (rule work_less [OF h]) (auto simp: e Cons True r request_step_def set_base_def)
      then show ?thesis ..
    next
      case False
      show ?thesis
      proof (cases rule: ring_put_cases [OF D(2) [of t], where e = "\<lparr>e_req = req, e_out = h\<rparr>"])
        case 1
        then show ?thesis by (intro disjI2 exI [of _ t]) (auto simp: e Cons False request_step_def enqueue_def)
      next
        case (2 q)
        let ?s = "exec p h s"
        have s': "?s = push h [Post t IPI_EVENT_RFENCE] (set_base h (Request req ts mk rest)
            (fw_event (SBI_PMU_FW_FENCE_I_SENT + 2 * of_nat (type_code (req_type req))) h
               (s\<lparr>queues := (queues s)(t := q), outs := (outs s)(h := outs s h + 1)\<rparr>)))"
          using 2(1) False by (simp add: e Cons request_step_def enqueue_def)
        have "work p ?s + base_weight (base s h) + q_count (queues s t) =
            work p s + base_weight (base ?s h) + q_count (queues ?s t)"
          by (rule work_change [OF h]) (use ok Cons in \<open>auto simp: s' push_def set_base_def fw_event_def\<close>)
        moreover have "q_count q = Suc (q_count (queues s t))" using 2(3) by (metis length_append_singleton length_ring_list)
        ultimately show ?thesis using r Cons by (simp add: s' push_def set_base_def fw_event_def)
      qed
    qed
  qed
qed

text \<open>All of it done: every hart is back in S-mode, every queue empty.\<close>

definition all_done :: "platform \<Rightarrow> rf_sys \<Rightarrow> bool" where
  "all_done p s \<longleftrightarrow> (\<forall>h<p_harts p. idle s h \<and> q_count (queues s h) = 0)"

lemma queue_progress:
  assumes inv: "rf_inv p s" and st: "settled p s" and h: "h < p_harts p" and q: "q_count (queues s h) \<noteq> 0"
  shows "\<exists>s'. (rf_run p)\<^sup>*\<^sup>* s s' \<and> rf_inv p s' \<and> work p s' < work p s"
proof -
  note told = settled_told [OF inv st q]
  have wake: "wake_inv False p s" using inv by (simp add: rf_inv_def)
  have c: "calls s h = []" using st h by (simp add: settled_def)
  have push: ?thesis if run: "rf_run p s (push h as s)" and w: "will_drain (push h as s) h" for as
  proof -
    have "work p (push h as s) = work p s" by (simp add: work_def push_def)
    moreover obtain s' where "(rf_run p)\<^sup>*\<^sup>* (push h as s) s'" "rf_inv p s'" "work p s' < work p (push h as s)"
      using drain_progress [OF rf_run_inv [OF run inv] h w] q by (auto simp: push_def)
    ultimately show ?thesis using run by (metis converse_rtranclp_into_rtranclp)
  qed
  have step: ?thesis if "busy s h" "work p (exec p h s) < work p s"
    using that run_exec [OF h that(1)] rf_run_inv [OF run_exec [OF h that(1)] inv] by blast
  show ?thesis
  proof (cases "base s h")
    case Running
    show ?thesis using told c Running
      by (intro push [of "[Clear]"] run_irq) (auto simp: h idle_iff will_drain_def push_def)
  next
    case Halted
    then show ?thesis using wake by (auto simp: wake_inv_def base_ok_def dest: spec [of _ h])
  next
    case (Request req ts mk todo)
    then have b: "busy s h" by (simp add: busy_def)
    from request_progress [OF wake h c Request] show ?thesis
    proof
      assume "work p (exec p h s) < work p s"
      then show ?thesis using step b by blast
    next
      assume "\<exists>t. q_count (queues s t) \<noteq> 0 \<and> exec p h s = push h [Post t IPI_EVENT_RFENCE, Clear] s"
      then obtain t where t: "exec p h s = push h [Post t IPI_EVENT_RFENCE, Clear] s" by blast
      show ?thesis using run_exec [OF h b] told(1)
        by (intro push [of "[Post t IPI_EVENT_RFENCE, Clear]"]) (auto simp: t will_drain_def push_def)
    qed
  next
    case (Wait req ts mk)
    then have b: "busy s h" by (simp add: busy_def)
    have e: "exec p h s = wait_step h s" by (simp add: exec_def c Wait)
    show ?thesis
    proof (cases "outs s h = 0")
      case True
      have "work p (exec p h s) < work p s"
        by (rule work_less [OF h]) (auto simp: e wait_step_def True set_base_def Wait)
      then show ?thesis using step b by blast
    next
      case False
      then have "exec p h s = push h [Drain, Clear] s" by (simp add: e wait_step_def)
      then show ?thesis using run_exec [OF h b] by (intro push [of "[Drain, Clear]"]) (auto simp: will_drain_def push_def)
    qed
  qed
qed

lemma idle_queue_progress:
  assumes inv: "rf_inv p s" and st: "settled p s" and q: "\<And>h. h < p_harts p \<Longrightarrow> q_count (queues s h) = 0"
    and h: "h < p_harts p" and b: "base s h \<noteq> Running"
  shows "\<exists>s'. (rf_run p)\<^sup>*\<^sup>* s s' \<and> rf_inv p s' \<and> work p s' < work p s"
proof -
  have wake: "wake_inv False p s" and req: "req_inv (p_harts p) s h" using inv by (auto simp: rf_inv_def)
  have c: "calls s g = []" if "g < p_harts p" for g using st that by (simp add: settled_def)
  have busy: "busy s h" using b wake by (cases "base s h") (auto simp: busy_def wake_inv_def base_ok_def dest: spec [of _ h])
  have "work p (exec p h s) < work p s"
  proof (cases "base s h")
    case (Request r ts mk todo)
    have "exec p h s \<noteq> push h [Post t IPI_EVENT_RFENCE, Clear] s" if "q_count (queues s t) \<noteq> 0" for t
    proof
      assume e: "exec p h s = push h [Post t IPI_EVENT_RFENCE, Clear] s"
      have "wake_inv False p (exec p h s)" using exec_wake wake h inv by (simp add: rf_inv_def)
      then have "t < p_harts p" using wake_invD(4) [of False p "exec p h s" h] by (simp add: e push_def calls_ok_def)
      then show False using q that by simp
    qed
    then show ?thesis using request_progress [OF wake h c [OF h] Request] by blast
  next
    case (Wait r ts mk)
    have "mine s h t = {#}" if "t < p_harts p" for t
    proof -
      have "ring_list (queues s t) = []" using q [OF that] by (metis length_0_conv length_ring_list)
      then show ?thesis using c [OF that] by (simp add: mine_def held_def)
    qed
    then have "outs s h = 0" using req Wait by (simp add: req_inv_def out_inv_def)
    then have "exec p h s = set_base h Running s" by (simp add: exec_def c [OF h] Wait wait_step_def)
    then show ?thesis by (intro work_less [OF h]) (auto simp: set_base_def Wait)
  qed (use b busy c [OF h] in \<open>auto simp: busy_def\<close>)
  then show ?thesis using run_exec [OF h busy] rf_run_inv [OF run_exec [OF h busy] inv] by blast
qed

lemma can_finish:
  assumes "rf_inv p s"
  shows "\<exists>s'. (rf_run p)\<^sup>*\<^sup>* s s' \<and> all_done p s'"
  using assms
proof (induction "work p s" arbitrary: s rule: less_induct)
  case less
  obtain s1 where s1: "(rf_run p)\<^sup>*\<^sup>* s s1" "settled p s1" "rf_inv p s1" "work p s1 \<le> work p s"
    using settle_all [OF less.prems] .
  show ?case
  proof (cases "all_done p s1")
    case True
    then show ?thesis using s1(1) by blast
  next
    case False
    then obtain h where h: "h < p_harts p" "\<not> idle s1 h \<or> q_count (queues s1 h) \<noteq> 0" by (auto simp: all_done_def)
    have "\<exists>s2. (rf_run p)\<^sup>*\<^sup>* s1 s2 \<and> rf_inv p s2 \<and> work p s2 < work p s1"
    proof (cases "\<exists>g<p_harts p. q_count (queues s1 g) \<noteq> 0")
      case True
      then show ?thesis using queue_progress [OF s1(3,2)] by blast
    next
      case False
      then show ?thesis using idle_queue_progress [OF s1(3,2)] h s1(2) by (auto simp: idle_iff settled_def)
    qed
    then obtain s2 where s2: "(rf_run p)\<^sup>*\<^sup>* s1 s2" "rf_inv p s2" "work p s2 < work p s1" by blast
    then obtain s3 where "(rf_run p)\<^sup>*\<^sup>* s2 s3" "all_done p s3" using less.hyps [of s2] s1(4) by auto
    then show ?thesis using s1(1) s2(1) by (meson rtranclp_trans)
  qed
qed

text \<open>
  C23. No deadlock among harts that fence each other: in every state the system can reach
  while no hart restarts, with any number of requests under way, full queues and harts
  that stop included, there is a continuation, without a new request, in which
  every request returns, every queue is empty and every hart is back. It rests on no
  wake-up being lost: an entry in a queue always has its event posted, about to be
  posted or seen, whatever the interleaving.
\<close>

theorem rfence_can_finish:
  assumes "rf_reach False p s" and "ipi_available p" and "p_harts p < 2 ^ 64"
  shows "\<exists>s'. (rf_run p)\<^sup>*\<^sup>* s s' \<and> all_done p s'"
  using can_finish rf_reach_wake rf_reach_req assms by (simp add: rf_inv_def)

text \<open>
  C24. A remote fence is complete when it returns: in every reachable state, restarts
  included, a request that is about to return has been run by every one of its targets,
  since it was made (\<open>mk\<close> holds how many fences each hart had run by then).
\<close>

theorem rfence_return_complete:
  assumes "rf_reach restart p s" and "ipi_available p" and "p_harts p < 2 ^ 64"
    and "base s h = Wait req ts mk" and "base (exec p h s) h = Running"
  shows "\<forall>t \<in> set ts. (h, req) \<in> set (drop (mk t) (fenced s t))"
proof -
  have inv: "req_inv (p_harts p) s h" using rf_reach_req assms(1-3) .
  have wake: "wake_inv restart p s" using rf_reach_wake assms(1,2) .
  have c: "calls s h = []"
  proof (rule ccontr)
    assume "calls s h \<noteq> []"
    then obtain a k where ak: "calls s h = a # k" by (cases "calls s h") auto
    have "call_ok p a" using wake_invD(4) [OF wake, of h] ak by (simp add: calls_ok_def)
    then have "base (exec p h s) h = base s h"
      by (cases a) (auto simp: exec_def ak fabric_defs push_def Let_def split: option.split prod.split)
    then show False using assms(4,5) by simp
  qed
  have o: "outs s h = 0"
    using assms(5) by (simp add: exec_def c assms(4) wait_step_def push_def split: if_splits)
  have i: "out_inv (p_harts p) s h req mk (set ts)" "set ts \<subseteq> {..<p_harts p}"
    "h \<in> set ts \<longrightarrow> (h, req) \<in> set (drop (mk h) (fenced s h))"
    using inv assms(4) by (auto simp: req_inv_def)
  show ?thesis
  proof
    fix t
    assume t: "t \<in> set ts"
    then have "t < p_harts p" using i(2) by auto
    moreover from this have "mine s h t = {#}" using out_zero [OF i(1) o assms(3)] by blast
    ultimately show "(h, req) \<in> set (drop (mk t) (fenced s t))"
      using i(1,3) t by (cases "t = h") (auto simp: out_inv_def)
  qed
qed

section \<open>A machine of two harts\<close>

text \<open>A schedule: the harts in the order they move.\<close>

fun play :: "platform \<Rightarrow> nat list \<Rightarrow> rf_sys \<Rightarrow> rf_sys option" where
  "play p [] s = Some s"
| "play p (h # hs) s =
     (if h < p_harts p \<and> busy s h then play p hs (exec p h s)
      else if h < p_harts p \<and> idle s h \<and> ipi_line s h then play p hs (push h [Clear] s)
      else None)"

lemma play_runs: "play p hs s = Some s' \<Longrightarrow> (rf_run p)\<^sup>*\<^sup>* s s'"
proof (induction hs arbitrary: s)
  case (Cons h hs)
  then obtain s1 where "rf_run p s s1" "play p hs s1 = Some s'"
    by (auto split: if_splits intro: rf_run.intros)
  then show ?case using Cons.IH by (blast intro: converse_rtranclp_into_rtranclp)
qed simp

lemma reach_runs: "(rf_run p)\<^sup>*\<^sup>* s s' \<Longrightarrow> rf_reach rs p s \<Longrightarrow> rf_reach rs p s'"
  by (induction rule: rtranclp_induct) (auto intro: reach_step step_run)

definition duo_boot :: rf_sys where
  "duo_boot = \<lparr>queues = (\<lambda>h. ring_init), outs = (\<lambda>h. 0), ipi_pending = (\<lambda>h. 0), ipi_line = (\<lambda>h. False),
     hart_csrs = (\<lambda>h n. 0),
     hart_pmu = (\<lambda>h. demo_slot),
     fenced = (\<lambda>h. []), calls = (\<lambda>h. []), base = (\<lambda>h. Running)\<rparr>"

definition duo_req :: rfence_req where
  "duo_req = \<lparr>req_type = RFENCE_FENCE_I, req_start = 0, req_size = 0, req_asid = 0\<rparr>"

text \<open>Hart 0 asks hart 1.\<close>

definition duo_start :: rf_sys where
  "duo_start = snd (request_start duo 0 duo_req [1] duo_boot)"

lemma duo_reach: "rf_reach rs duo duo_start"
proof -
  have "rf_reach rs duo duo_boot" by (rule reach_boot) (simp add: rf_boot_def duo_boot_def)
  moreover have "rf_step rs duo duo_boot duo_start"
    unfolding duo_start_def by (rule step_request) (simp_all add: duo_ok idle_iff duo_boot_def)
  ultimately show ?thesis by (rule reach_step)
qed

theorem rfence_can_finish_witness:
  "rf_reach False duo duo_start \<and> \<not> all_done duo duo_start \<and>
   (\<exists>s'. (rf_run duo)\<^sup>*\<^sup>* duo_start s' \<and> all_done duo s')"
proof -
  have "\<not> idle duo_start 0"
    by (simp add: duo_start_def request_start_def duo_req_def duo_def idle_iff set_base_def type_code.simps)
  then have "\<not> all_done duo duo_start" by (auto simp: all_done_def duo_ok intro!: exI [of _ 0])
  then show ?thesis using rfence_can_finish [OF duo_reach] duo_ok duo_reach by simp
qed

lemma duo_round:
  "case play duo [0, 0, 0, 1, 1, 1, 1, 1, 1, 1, 1, 0] duo_start of
     None \<Rightarrow> False
   | Some s \<Rightarrow> (case base s 0 of Wait r ts mk \<Rightarrow> r = duo_req \<and> ts = [1] | _ \<Rightarrow> False) \<and>
       (case base (exec duo 0 s) 0 of Running \<Rightarrow> True | _ \<Rightarrow> False)"
  by code_simp

theorem rfence_return_complete_witness:
  "\<exists>s mk. rf_reach True duo s \<and> base s 0 = Wait duo_req [1] mk \<and> base (exec duo 0 s) 0 = Running \<and>
     (\<forall>t \<in> set [1]. (0, duo_req) \<in> set (drop (mk t) (fenced s t)))"
proof -
  obtain s where s: "play duo [0, 0, 0, 1, 1, 1, 1, 1, 1, 1, 1, 0] duo_start = Some s"
    using duo_round by (cases "play duo [0, 0, 0, 1, 1, 1, 1, 1, 1, 1, 1, 0] duo_start") auto
  then obtain mk where b: "base s 0 = Wait duo_req [1] mk" "base (exec duo 0 s) 0 = Running"
    using duo_round by (auto split: base.splits)
  have "rf_reach True duo s" using play_runs [OF s] duo_reach by (rule reach_runs)
  moreover have "\<forall>t \<in> set [1]. (0, duo_req) \<in> set (drop (mk t) (fenced s t))"
    using rfence_return_complete [OF calculation _ _ b] duo_ok by simp
  ultimately show ?thesis using b by blast
qed

section \<open>A hart that restarts\<close>

text \<open>
  Hart 0 has picked hart 1 as a target; hart 1 stops, gets the request and its interrupt
  while it waits to be started, and is started before it has looked.
\<close>

definition duo_lost :: "rf_sys option" where
  "duo_lost =
     Option.bind (play duo [1, 1, 1, 0, 0, 0] (push 1 [InitClear, Drain] duo_start))
       (\<lambda>s. play duo [1, 1, 0] (push 1 [InitClear] s))"

definition stuck :: "rf_sys \<Rightarrow> bool" where
  "stuck s \<longleftrightarrow> (case base s 0 of Wait r ts mk \<Rightarrow> True | _ \<Rightarrow> False) \<and> outs s 0 \<noteq> 0 \<and>
     list_all (\<lambda>a. a \<in> {Drain, Clear, Swap, Handle 0, Smode 0}) (calls s 0) \<and>
     ipi_pending s 0 = 0 \<and> q_count (queues s 0) = 0 \<and>
     idle s 1 \<and> \<not> ipi_line s 1"

lemma stuck_exec:
  assumes "stuck s"
  shows "stuck (exec duo 0 s) \<and> base (exec duo 0 s) 0 = base s 0 \<and> queues (exec duo 0 s) 1 = queues s 1"
proof (cases "calls s 0")
  case Nil
  then show ?thesis using assms
    by (auto simp: stuck_def exec_def wait_step_def push_def idle_iff split: base.splits)
next
  case (Cons a k)
  then show ?thesis using assms
    by (auto simp: stuck_def exec_def push_def idle_iff fabric_defs ring_take_def Let_def)
qed

lemma stuck_forever:
  "(rf_run duo)\<^sup>*\<^sup>* s s' \<Longrightarrow> stuck s \<Longrightarrow> stuck s' \<and> base s' 0 = base s 0 \<and> queues s' 1 = queues s 1"
proof (induction rule: rtranclp_induct)
  case (step s' s'')
  then have st: "stuck s'" by blast
  from step(2) show ?case
  proof cases
    case (run_exec h)
    then have "h = 0" using st by (auto simp: duo_ok less_2_cases_iff busy_def stuck_def idle_iff)
    then show ?thesis using stuck_exec [OF st] run_exec step by simp
  next
    case (run_irq h)
    then have False using st by (auto simp: duo_ok less_2_cases_iff stuck_def idle_iff split: base.splits)
    then show ?thesis ..
  qed
qed simp

lemma duo_lost_stuck:
  "case duo_lost of None \<Rightarrow> False | Some s \<Rightarrow> stuck s \<and> q_count (queues s 1) = 1"
  by code_simp

lemma duo_stop_start:
  assumes "duo_lost = Some s"
  shows "rf_reach True duo s"
proof -
  let ?s0 = "push 1 [InitClear, Drain] duo_start"
  from assms obtain s1 where s1: "play duo [1, 1, 1, 0, 0, 0] ?s0 = Some s1"
    and s2: "play duo [1, 1, 0] (push 1 [InitClear] s1) = Some s"
    by (auto simp: duo_lost_def bind_eq_Some_conv simp del: play.simps)
  have "case play duo [1, 1, 1, 0, 0, 0] ?s0 of None \<Rightarrow> False | Some s \<Rightarrow> idle s 1" by code_simp
  then have i1: "idle s1 1" unfolding s1 by (simp only: option.case)
  have i0: "idle duo_start 1" by code_simp
  have "rf_reach True duo ?s0" using duo_reach by (rule reach_step) (rule step_stop; simp add: duo_ok i0 del: One_nat_def)
  then have "rf_reach True duo s1" using play_runs [OF s1] by (rule reach_runs [rotated])
  then have "rf_reach True duo (push 1 [InitClear] s1)"
    by (rule reach_step) (rule step_start; simp add: duo_ok i1 del: One_nat_def)
  then show ?thesis using play_runs [OF s2] by (rule reach_runs [rotated])
qed


end
