(* ===== verification/Timer.thy ===== *)
theory Timer
  imports Pmu
begin

text \<open>
  The S-mode timer of a hart (\<^verbatim>\<open>drivers/timer/timer.c\<close>): with Sstc the deadline is in
  \<^verbatim>\<open>stimecmp\<close>, without it the monitor keeps the deadline, programs the backend's compare
  register and turns its interrupt into S-mode's. Shown: a deadline read, put aside and put
  back is the deadline again, and the loop of the busy wait ends.
\<close>

abbreviation MIP_STIP :: ulong where "MIP_STIP \<equiv> BIT 5"
abbreviation MIP_MTIP :: ulong where "MIP_MTIP \<equiv> BIT 7"
abbreviation SBI_PMU_FW_SET_TIMER :: u32 where "SBI_PMU_FW_SET_TIMER \<equiv> 5"

text \<open>The deadline kept for S-mode, and the compare register of the backend: \<open>None\<close> is stopped.\<close>

record timer_hart =
  deadline :: ulong
  compare :: "ulong option"

text \<open>Is there a backend: the parameter \<open>avail\<close>. \<open>path_offset\<close> finds a node by its path.\<close>

definition timer_frequency_from_fdt :: "fdt \<Rightarrow> (string \<Rightarrow> int option) \<Rightarrow> ulong \<Rightarrow> ulong" where
  "timer_frequency_from_fdt t path_offset freq =
     (case path_offset ''/cpus'' of
        None \<Rightarrow> freq
      | Some cpus \<Rightarrow>
          let hz = fdt_prop_u32 t cpus ''timebase-frequency'' 0 in if hz \<noteq> 0 then ucast hz else freq)"

definition timer_usecs_to_ticks :: "ulong \<Rightarrow> ulong \<Rightarrow> ulong" where
  "timer_usecs_to_ticks freq us = us * freq div 1000000"

definition timer_now :: "bool \<Rightarrow> ulong \<Rightarrow> ulong" where
  "timer_now avail t = (if avail then t else 0)"

text \<open>The busy wait: \<open>clock k\<close> is what the k-th reading of the timer gives.\<close>

partial_function (option) udelay_loop :: "bool \<Rightarrow> (nat \<Rightarrow> ulong) \<Rightarrow> ulong \<Rightarrow> nat \<Rightarrow> nat option" where
  "udelay_loop avail clock until k =
     (if avail \<and> timer_now avail (clock k) < until then udelay_loop avail clock until (k + 1) else Some k)"

definition timer_udelay :: "bool \<Rightarrow> ulong \<Rightarrow> (nat \<Rightarrow> ulong) \<Rightarrow> ulong \<Rightarrow> nat option" where
  "timer_udelay avail freq clock us =
     udelay_loop avail clock (timer_now avail (clock 0) + timer_usecs_to_ticks freq us) 1"

definition timer_hart_init :: "warl \<Rightarrow> bool \<Rightarrow> timer_hart \<times> csrs \<Rightarrow> timer_hart \<times> csrs" where
  "timer_hart_init legal avail = (\<lambda>(t, c).
     (t\<lparr>deadline := - 1, compare := if avail then None else compare t\<rparr>, csr_clear legal CSR_MIE MIP_MTIP c))"

definition timer_smode_get :: "features \<Rightarrow> timer_hart \<times> csrs \<Rightarrow> ulong" where
  "timer_smode_get feat = (\<lambda>(t, c). if \<not> feat HART_FEAT_SSTC then deadline t else csr_read CSR_STIMECMP c)"

definition timer_smode_restore :: "warl \<Rightarrow> features \<Rightarrow> bool \<Rightarrow> ulong \<Rightarrow> timer_hart \<times> csrs \<Rightarrow> timer_hart \<times> csrs" where
  "timer_smode_restore legal feat avail w = (\<lambda>(t, c).
     if feat HART_FEAT_SSTC then (t, csr_write legal CSR_STIMECMP w c)
     else if \<not> avail then (t, c)
     else (t\<lparr>deadline := w, compare := Some w\<rparr>,
           csr_set legal CSR_MIE MIP_MTIP (csr_clear legal CSR_MIP MIP_STIP c)))"

definition timer_smode_set ::
  "warl \<Rightarrow> features \<Rightarrow> bool \<Rightarrow> ulong \<Rightarrow> pmu_hart \<Rightarrow> timer_hart \<times> csrs \<Rightarrow> pmu_hart \<times> timer_hart \<times> csrs" where
  "timer_smode_set legal feat avail w p s =
     (pmu_fw_event SBI_PMU_FW_SET_TIMER p, timer_smode_restore legal feat avail w s)"

definition timer_process :: "warl \<Rightarrow> csrs \<Rightarrow> csrs" where
  "timer_process legal c = csr_set legal CSR_MIP MIP_STIP (csr_clear legal CSR_MIE MIP_MTIP c)"

lemmas timer_defs =
  timer_hart_init_def timer_smode_get_def timer_smode_restore_def timer_smode_set_def timer_process_def

section \<open>What the hardware keeps\<close>

text \<open>\<^verbatim>\<open>stimecmp\<close> is a plain register; STIP and MTIE can be written.\<close>

definition timer_hw :: "warl \<Rightarrow> bool" where
  "timer_hw legal \<longleftrightarrow>
     (\<forall>c v. legal c CSR_STIMECMP v = v \<and>
        (bit (legal c CSR_MIP v) 5 \<longleftrightarrow> bit v 5) \<and> (bit (legal c CSR_MIE v) 7 \<longleftrightarrow> bit v 7))"

text \<open>
  C28. The timer of a context survives the switch to another one: what \<^verbatim>\<open>timer_smode_get\<close>
  gives, put back with \<^verbatim>\<open>timer_smode_restore\<close> after the other context has used the timer
  in any way, is the deadline again. Without Sstc the backend is armed with it, the M-mode
  timer interrupt is enabled, and no interrupt of the other context's deadline is left
  pending for S-mode.
\<close>

theorem timer_switch_restores:
  assumes "timer_hw legal" and "feat HART_FEAT_SSTC \<or> avail"
  shows "timer_smode_get feat (timer_smode_restore legal feat avail (timer_smode_get feat s) s') =
      timer_smode_get feat s \<and>
    (feat HART_FEAT_SSTC \<or>
      (let (t, c) = timer_smode_restore legal feat avail (timer_smode_get feat s) s' in
       compare t = Some (timer_smode_get feat s) \<and> bit (c CSR_MIE) 7 \<and> \<not> bit (c CSR_MIP) 5))"
proof -
  obtain t c where s': "s' = (t, c)" by (cases s')
  have st: "legal c CSR_STIMECMP v = v" "bit (legal c CSR_MIP v) 5 \<longleftrightarrow> bit v 5"
    "bit (legal c CSR_MIE v) 7 \<longleftrightarrow> bit v 7" for c v
    using assms(1) by (auto simp: timer_hw_def)
  show ?thesis
  proof (cases "feat HART_FEAT_SSTC")
    case True
    then show ?thesis using st by (simp add: timer_smode_get_def timer_smode_restore_def s' csr_defs split: prod.split)
  next
    case False
    define w where "w = timer_smode_get feat s"
    have "timer_smode_restore legal feat avail w s' =
        (t\<lparr>deadline := w, compare := Some w\<rparr>, csr_set legal CSR_MIE MIP_MTIP (csr_clear legal CSR_MIP MIP_STIP c))"
      using False assms(2) by (simp add: timer_smode_restore_def s')
    then show ?thesis unfolding w_def [symmetric]
      using st False by (simp add: timer_smode_get_def csr_defs bit_or_iff bit_and_iff bit_not_iff bit_BIT)
  qed
qed

theorem timer_switch_restores_witness:
  "timer_hw (\<lambda>c n v. v) \<and>
   timer_smode_get (\<lambda>_. False) (timer_smode_restore (\<lambda>c n v. v) (\<lambda>_. False) True
      (timer_smode_get (\<lambda>_. False) (\<lparr>deadline = 70, compare = Some 70\<rparr>, \<lambda>_. 0))
      (\<lparr>deadline = 5, compare = None\<rparr>, \<lambda>_. - 1)) = 70"
proof -
  have hw: "timer_hw (\<lambda>c n v. v)" by (simp add: timer_hw_def)
  moreover have "timer_smode_get (\<lambda>_. False) (\<lparr>deadline = 70, compare = Some 70\<rparr>, \<lambda>_. 0) = 70"
    by (simp add: timer_smode_get_def)
  ultimately show ?thesis
    using timer_switch_restores [of "\<lambda>c n v. v" "\<lambda>_. False" True
        "(\<lparr>deadline = 70, compare = Some 70\<rparr>, \<lambda>_. 0)" "(\<lparr>deadline = 5, compare = None\<rparr>, \<lambda>_. - 1)"]
    by simp
qed

text \<open>The busy wait is over once the clock shows the time, whatever it showed before.\<close>

lemma udelay_loop_ends:
  assumes "k \<le> j" "until \<le> clock j"
  shows "\<exists>n. udelay_loop avail clock until k = Some n \<and> n \<le> j"
  using assms(1)
proof (induction "j - k" arbitrary: k)
  case 0
  then show ?case using assms(2) by (subst udelay_loop.simps) (auto simp: timer_now_def)
next
  case (Suc n)
  show ?case
  proof (cases "avail \<and> clock k < until")
    case True
    have "\<exists>n. udelay_loop avail clock until (k + 1) = Some n \<and> n \<le> j"
      using Suc by (intro Suc(1)) auto
    then show ?thesis using True by (subst udelay_loop.simps) (simp add: timer_now_def)
  next
    case False
    then show ?thesis using Suc.prems by (subst udelay_loop.simps) (auto simp: timer_now_def)
  qed
qed

end
