(* ===== verification/Hsm.thy ===== *)
theory Hsm
  imports Rfence Timer
begin

text \<open>
  Hart state management (\<^verbatim>\<open>arch/riscv/runtime/hsm.c\<close>) over the hart table of
  \<^verbatim>\<open>arch/riscv/runtime/hart.c\<close>: starting, stopping and suspending harts. The operations are
  split where the code has its atomic accesses, so that harts interleave there. Shown: the
  state of a hart the table has is what the hart does, it moves along the edges of the SBI's
  state machine, and every start that is accepted is served once with its own arguments, as
  long as the platform does not refuse a start; what can happen when it does is shown too.
\<close>

section \<open>The hart table\<close>

datatype hsm_state =
    SBI_HSM_STATE_STARTED
  | SBI_HSM_STATE_STOPPED
  | SBI_HSM_STATE_START_PENDING
  | SBI_HSM_STATE_STOP_PENDING
  | SBI_HSM_STATE_SUSPENDED
  | SBI_HSM_STATE_SUSPEND_PENDING
  | SBI_HSM_STATE_RESUME_PENDING

fun hsm_code :: "hsm_state \<Rightarrow> int" where
  "hsm_code SBI_HSM_STATE_STARTED = 0"
| "hsm_code SBI_HSM_STATE_STOPPED = 1"
| "hsm_code SBI_HSM_STATE_START_PENDING = 2"
| "hsm_code SBI_HSM_STATE_STOP_PENDING = 3"
| "hsm_code SBI_HSM_STATE_SUSPENDED = 4"
| "hsm_code SBI_HSM_STATE_SUSPEND_PENDING = 5"
| "hsm_code SBI_HSM_STATE_RESUME_PENDING = 6"

abbreviation SBI_HSM_SUSPEND_RET_DEFAULT :: ulong where "SBI_HSM_SUSPEND_RET_DEFAULT \<equiv> 0"
abbreviation SBI_HSM_SUSPEND_RET_PLATFORM :: ulong where "SBI_HSM_SUSPEND_RET_PLATFORM \<equiv> 0x10000000"
abbreviation SBI_HSM_SUSPEND_NON_RET_DEFAULT :: ulong where "SBI_HSM_SUSPEND_NON_RET_DEFAULT \<equiv> 0x80000000"
abbreviation SBI_HSM_SUSPEND_NON_RET_PLATFORM :: ulong where "SBI_HSM_SUSPEND_NON_RET_PLATFORM \<equiv> 0x90000000"

text \<open>\<^verbatim>\<open>struct hart\<close>; the domain it runs is the domain's index, the pending IPIs are in the fabric.\<close>

record hart =
  hartid :: ulong
  present :: bool
  no_smode :: bool
  hsm_state :: hsm_state
  start_addr :: ulong
  start_arg :: ulong
  start_mode :: ulong
  hart_domain :: nat

record world = fabric +
  harts :: "nat \<Rightarrow> hart"
  doms :: "domain list"
  timers :: "nat \<Rightarrow> timer_hart"

definition hart_upd :: "nat \<Rightarrow> (hart \<Rightarrow> hart) \<Rightarrow> 'a world_scheme \<Rightarrow> 'a world_scheme" where
  "hart_upd h f s = s\<lparr>harts := (harts s)(h := f (harts s h))\<rparr>"

definition hart_by_index :: "platform \<Rightarrow> 'a world_scheme \<Rightarrow> nat \<Rightarrow> hart option" where
  "hart_by_index p s index = (if index < p_harts p then Some (harts s index) else None)"

definition hart_index :: "platform \<Rightarrow> ulong \<Rightarrow> int" where
  "hart_index p hid = boot_hart_index (p_ids p) hid"

definition hart_get :: "platform \<Rightarrow> ulong \<Rightarrow> nat option" where
  "hart_get p hid =
     (let index = boot_hart_index (p_ids p) hid in if index < 0 then None else Some (nat index))"

definition hart_id_of :: "platform \<Rightarrow> nat \<Rightarrow> ulong" where
  "hart_id_of p index = (if index < p_harts p then p_ids p ! index else - 1)"

definition hart_index_valid :: "platform \<Rightarrow> 'a world_scheme \<Rightarrow> nat \<Rightarrow> bool" where
  "hart_index_valid p s index \<longleftrightarrow>
     index < p_harts p \<and> present (harts s index) \<and> \<not> no_smode (harts s index)"

definition hart_valid :: "platform \<Rightarrow> 'a world_scheme \<Rightarrow> ulong \<Rightarrow> bool" where
  "hart_valid p s hid =
     (case hart_get p hid of None \<Rightarrow> False | Some h \<Rightarrow> present (harts s h) \<and> \<not> no_smode (harts s h))"

definition hart_count :: "platform \<Rightarrow> 'a world_scheme \<Rightarrow> nat" where
  "hart_count p s = length (filter (\<lambda>i. present (harts s i)) [0..<p_harts p])"

definition this_domain :: "'a world_scheme \<Rightarrow> nat \<Rightarrow> domain" where
  "this_domain s self = doms s ! hart_domain (harts s self)"

definition domain_stop_pending_on :: "'a world_scheme \<Rightarrow> nat \<Rightarrow> bool" where
  "domain_stop_pending_on s index \<longleftrightarrow> stopping (doms s ! hart_domain (harts s index))"

definition domain_stop_pending :: "'a world_scheme \<Rightarrow> nat \<Rightarrow> bool" where
  "domain_stop_pending s self \<longleftrightarrow> stopping (this_domain s self)"

text \<open>What a hart does first in the monitor; \<open>misa\<close> all zero is a hart that does not say.\<close>

definition hart_init :: "platform \<Rightarrow> ulong \<Rightarrow> 'a world_scheme \<Rightarrow> 'a world_scheme" where
  "hart_init p hid s =
     (let index = nat (boot_hart_index (p_ids p) hid); misa = csr_read CSR_MISA (hart_csrs s index) in
      hart_upd index (\<lambda>h. h\<lparr>hartid := hid, no_smode := misa \<noteq> 0 \<and> \<not> bit misa 18,
          hsm_state := if present h then hsm_state h else SBI_HSM_STATE_STOPPED, present := True\<rparr>) s)"

section \<open>The operations\<close>

definition hsm_store :: "nat \<Rightarrow> hsm_state \<Rightarrow> 'a world_scheme \<Rightarrow> 'a world_scheme" where
  "hsm_store h st s = hart_upd h (hsm_state_update (\<lambda>_. st)) s"

definition hsm_transition :: "nat \<Rightarrow> hsm_state \<Rightarrow> hsm_state \<Rightarrow> 'a world_scheme \<Rightarrow> bool \<times> 'a world_scheme" where
  "hsm_transition h from to s =
     (if hsm_state (harts s h) = from then (True, hsm_store h to s) else (False, s))"

definition start_args :: "nat \<Rightarrow> ulong \<Rightarrow> ulong \<Rightarrow> ulong \<Rightarrow> 'a world_scheme \<Rightarrow> 'a world_scheme" where
  "start_args h entry arg mode s =
     hart_upd h (\<lambda>x. x\<lparr>start_addr := entry, start_arg := arg, start_mode := mode\<rparr>) s"

definition hsm_boot_hart_start :: "nat \<Rightarrow> ulong \<Rightarrow> ulong \<Rightarrow> ulong \<Rightarrow> 'a world_scheme \<Rightarrow> 'a world_scheme" where
  "hsm_boot_hart_start self entry arg mode s =
     hsm_store self SBI_HSM_STATE_START_PENDING (start_args self entry arg mode s)"

text \<open>The part of \<^verbatim>\<open>hsm_hart_boot\<close> under the lock, with the returns that follow from it.\<close>

definition hsm_claim ::
  "nat \<Rightarrow> ulong \<Rightarrow> ulong \<Rightarrow> ulong \<Rightarrow> 'a world_scheme \<Rightarrow> sbi option \<times> 'a world_scheme" where
  "hsm_claim index entry arg mode s =
     (let state = hsm_state (harts s index) in
      if domain_stop_pending_on s index then (Some SBI_ERR_DENIED, s)
      else if state = SBI_HSM_STATE_STOPPED then
        (None, hsm_store index SBI_HSM_STATE_START_PENDING (start_args index entry arg mode s))
      else if state = SBI_HSM_STATE_STARTED \<or> state = SBI_HSM_STATE_START_PENDING
      then (Some SBI_ERR_ALREADY_AVAILABLE, s)
      else (Some SBI_ERR_INVALID_STATE, s))"

text \<open>
  The part after it; \<open>fails\<close> is the platform's answer to \<^verbatim>\<open>hart_start\<close>: does it fail for
  the hart with this id.
\<close>

definition start_refused :: "platform \<Rightarrow> (ulong \<Rightarrow> bool) \<Rightarrow> nat \<Rightarrow> bool" where
  "start_refused p fails index =
     (case p_hsm p of None \<Rightarrow> False | Some ops \<Rightarrow> has_hart_start ops \<and> fails (hart_id_of p index))"

definition hsm_launch ::
  "platform \<Rightarrow> (ulong \<Rightarrow> bool) \<Rightarrow> nat \<Rightarrow> 'a world_scheme \<Rightarrow> sbi \<times> 'a world_scheme" where
  "hsm_launch p fails index s =
     (if start_refused p fails index
      then (SBI_ERR_FAILED, snd (hsm_transition index SBI_HSM_STATE_START_PENDING SBI_HSM_STATE_STOPPED s))
      else (SBI_SUCCESS, ipi_kick p index s))"

definition hsm_hart_boot ::
  "platform \<Rightarrow> (ulong \<Rightarrow> bool) \<Rightarrow> nat \<Rightarrow> ulong \<Rightarrow> ulong \<Rightarrow> ulong \<Rightarrow> 'a world_scheme \<Rightarrow> sbi \<times> 'a world_scheme" where
  "hsm_hart_boot p fails index entry arg mode s =
     (if \<not> hart_index_valid p s index then (SBI_ERR_INVALID_PARAM, s)
      else if \<not> ipi_available p then (SBI_ERR_FAILED, s)
      else case hsm_claim index entry arg mode s of
             (Some rc, s') \<Rightarrow> (rc, s')
           | (None, s') \<Rightarrow> hsm_launch p fails index s')"

definition hsm_hart_start ::
  "platform \<Rightarrow> (ulong \<Rightarrow> bool) \<Rightarrow> nat \<Rightarrow> ulong \<Rightarrow> ulong \<Rightarrow> ulong \<Rightarrow> 'a world_scheme \<Rightarrow> sbi \<times> 'a world_scheme" where
  "hsm_hart_start p fails self hid entry arg s =
     (case hart_get p hid of
        None \<Rightarrow> (SBI_ERR_INVALID_PARAM, s)
      | Some h \<Rightarrow>
          if \<not> hart_valid p s hid \<or> \<not> domain_hart_member (this_domain s self) h then (SBI_ERR_INVALID_PARAM, s)
          else if \<not> domain_hart_assigned (this_domain s self) h then (SBI_ERR_ALREADY_AVAILABLE, s)
          else if \<not> smode_entry_ok (m_regions p) (Some (this_domain s self)) entry then (SBI_ERR_INVALID_ADDRESS, s)
          else hsm_hart_boot p fails h entry arg PRV_S s)"

text \<open>
  A call that does not come back leaves the hart in one of the monitor's loops: stopped in
  \<^verbatim>\<open>hsm_wait_loop\<close>, asleep in \<^verbatim>\<open>hsm_wait_for_wakeup\<close> with or without its S-mode state, or on its
  way to \<^verbatim>\<open>hsm_hart_enter(false)\<close> out of a suspend the platform made a reset of.
\<close>

datatype hsm_exit = Returns sbi | Waits | Sleeps bool | Reenters

definition timer_stop :: "platform \<Rightarrow> nat \<Rightarrow> 'a world_scheme \<Rightarrow> 'a world_scheme" where
  "timer_stop p self s =
     (let (t, c) = timer_hart_init (m_legal p) (p_timer p) (timers s self, hart_csrs s self) in
      s\<lparr>timers := (timers s)(self := t), hart_csrs := (hart_csrs s)(self := c)\<rparr>)"

text \<open>The way into the wait loop, and one round of it for a hart nobody has started yet.\<close>

definition hsm_wait_enter :: "platform \<Rightarrow> nat \<Rightarrow> 'a world_scheme \<Rightarrow> 'a world_scheme" where
  "hsm_wait_enter p self s =
     rfence_process self (ipi_hart_init p self (regs_upd self (csr_write (m_legal p) CSR_MIE 0) s))"

definition hsm_wait_round ::
  "platform \<Rightarrow> ('a world_scheme \<Rightarrow> 'a world_scheme) \<Rightarrow> nat \<Rightarrow> 'a world_scheme \<Rightarrow> bool \<times> 'a world_scheme" where
  "hsm_wait_round p indicate self s =
     (if hsm_state (harts s self) = SBI_HSM_STATE_START_PENDING then (True, s)
      else (False, indicate (snd (ipi_process p self s))))"

definition hsm_hart_wait :: "platform \<Rightarrow> nat \<Rightarrow> 'a world_scheme \<Rightarrow> hsm_exit \<times> 'a world_scheme" where
  "hsm_hart_wait p self s =
     (if hsm_state (harts s self) = SBI_HSM_STATE_SUSPENDED
      then (Reenters, hsm_store self SBI_HSM_STATE_RESUME_PENDING s)
      else (Waits, hsm_wait_enter p self (hsm_store self SBI_HSM_STATE_STOPPED s)))"

text \<open>The platform's \<^verbatim>\<open>hart_stop\<close> gets no say in what the hart does, so it has no part here.\<close>

definition hsm_hart_stop :: "platform \<Rightarrow> nat \<Rightarrow> 'a world_scheme \<Rightarrow> hsm_exit \<times> 'a world_scheme" where
  "hsm_hart_stop p self s =
     (let (ok, s1) = hsm_transition self SBI_HSM_STATE_STARTED SBI_HSM_STATE_STOP_PENDING s in
      if \<not> ok then (Returns SBI_ERR_FAILED, s1) else hsm_hart_wait p self (timer_stop p self s1))"

definition hsm_hart_force_stop :: "platform \<Rightarrow> nat \<Rightarrow> 'a world_scheme \<Rightarrow> hsm_exit \<times> 'a world_scheme" where
  "hsm_hart_force_stop p self s =
     hsm_hart_wait p self (timer_stop p self (hsm_store self SBI_HSM_STATE_STOP_PENDING s))"

text \<open>One round of the wait for an interrupt S-mode has enabled; \<open>sse_due\<close> is \<^verbatim>\<open>sse_pending\<close>.\<close>

definition wakeup_round ::
  "platform \<Rightarrow> ('a world_scheme \<Rightarrow> 'a world_scheme) \<Rightarrow> ('a world_scheme \<Rightarrow> bool) \<Rightarrow> nat \<Rightarrow>
     'a world_scheme \<Rightarrow> bool \<times> 'a world_scheme" where
  "wakeup_round p indicate sse_due self s =
     (let pending = csr_read CSR_MIP (hart_csrs s self) AND csr_read CSR_MIE (hart_csrs s self);
          s1 = if pending AND ipi_irq p \<noteq> 0 then snd (ipi_process p self s) else s;
          s2 = if pending AND MIP_MTIP \<noteq> 0 then regs_upd self (timer_process (m_legal p)) s1 else s1;
          s3 = indicate s2; c = hart_csrs s3 self in
      (csr_read CSR_MIP c AND csr_read CSR_MIE c AND csr_read CSR_MIDELEG c \<noteq> 0 \<or> sse_due s3 \<or>
         domain_stop_pending s3 self, s3))"

definition has_suspend :: "platform \<Rightarrow> bool" where
  "has_suspend p = (case p_hsm p of None \<Rightarrow> False | Some ops \<Rightarrow> has_hart_suspend ops)"

definition hsm_suspend_type_check :: "platform \<Rightarrow> ulong \<Rightarrow> sbi" where
  "hsm_suspend_type_check p type =
     (if type > 0xffffffff \<or>
         (type > SBI_HSM_SUSPEND_RET_DEFAULT \<and> type < SBI_HSM_SUSPEND_RET_PLATFORM) \<or>
         (type > SBI_HSM_SUSPEND_NON_RET_DEFAULT \<and> type < SBI_HSM_SUSPEND_NON_RET_PLATFORM)
      then SBI_ERR_INVALID_PARAM
      else if type \<noteq> SBI_HSM_SUSPEND_RET_DEFAULT \<and> type \<noteq> SBI_HSM_SUSPEND_NON_RET_DEFAULT \<and> \<not> has_suspend p
      then SBI_ERR_NOT_SUPPORTED
      else SBI_SUCCESS)"

text \<open>
  A suspend up to the point where the hart sleeps; \<open>answer\<close> is what the platform's
  \<^verbatim>\<open>hart_suspend\<close> returns for this type. What it does on wakeup is \<open>resumed\<close>.
\<close>

definition hart_suspend ::
  "platform \<Rightarrow> (ulong \<Rightarrow> sbi) \<Rightarrow> nat \<Rightarrow> ulong \<Rightarrow> ulong \<Rightarrow> ulong \<Rightarrow> bool \<Rightarrow> 'a world_scheme \<Rightarrow> hsm_exit \<times> 'a world_scheme" where
  "hart_suspend p answer self type resume_addr arg tell s =
     (let rc = hsm_suspend_type_check p type;
          retentive = type < SBI_HSM_SUSPEND_NON_RET_DEFAULT;
          plat = type \<noteq> SBI_HSM_SUSPEND_RET_DEFAULT \<and> type \<noteq> SBI_HSM_SUSPEND_NON_RET_DEFAULT in
      if rc \<noteq> SBI_SUCCESS then (Returns rc, s)
      else if \<not> retentive \<and> \<not> smode_entry_ok (m_regions p) (Some (this_domain s self)) resume_addr
      then (Returns SBI_ERR_INVALID_ADDRESS, s)
      else
        let (ok, s1) = hsm_transition self SBI_HSM_STATE_STARTED SBI_HSM_STATE_SUSPEND_PENDING s;
            rc = if tell \<and> has_suspend p then answer type else SBI_SUCCESS in
        if \<not> ok then (Returns SBI_ERR_FAILED, s1)
        else if rc \<noteq> SBI_SUCCESS \<and> plat then (Returns rc, hsm_store self SBI_HSM_STATE_STARTED s1)
        else (Sleeps retentive, hsm_store self SBI_HSM_STATE_SUSPENDED
               (if retentive then s1 else start_args self resume_addr arg PRV_S s1)))"

definition hsm_hart_suspend ::
  "platform \<Rightarrow> (ulong \<Rightarrow> sbi) \<Rightarrow> nat \<Rightarrow> ulong \<Rightarrow> ulong \<Rightarrow> ulong \<Rightarrow> 'a world_scheme \<Rightarrow> hsm_exit \<times> 'a world_scheme" where
  "hsm_hart_suspend p answer self type resume_addr arg s = hart_suspend p answer self type resume_addr arg True s"

text \<open>
  The suspend of the whole system, by a hart that is the last one of its domain. The
  platform's part is a parameter: does it support the sleep type, and what does it answer.
\<close>

definition others_running :: "platform \<Rightarrow> nat \<Rightarrow> 'a world_scheme \<Rightarrow> nat list" where
  "others_running p self s =
     filter (\<lambda>i. i \<noteq> self \<and> hart_index_valid p s i \<and> hsm_state (harts s i) \<noteq> SBI_HSM_STATE_STOPPED)
       [0..<PLATFORM_HART_COUNT (m_cfg p)]"

definition hsm_system_suspend ::
  "platform \<Rightarrow> (u32 \<Rightarrow> (ulong \<Rightarrow> sbi) option) \<Rightarrow> (ulong \<Rightarrow> sbi) \<Rightarrow> nat \<Rightarrow> u32 \<Rightarrow> ulong \<Rightarrow> ulong \<Rightarrow>
     'a world_scheme \<Rightarrow> hsm_exit \<times> 'a world_scheme" where
  "hsm_system_suspend p sleeper answer self sleep_type resume_addr arg s =
     (let dm = this_domain s self; others = others_running p self s in
      if \<not> suspend_allowed dm then (Returns SBI_ERR_DENIED, s)
      else if \<not> smode_entry_ok (m_regions p) (Some dm) resume_addr then (Returns SBI_ERR_INVALID_ADDRESS, s)
      else if list_ex (domain_hart_assigned dm) others then (Returns SBI_ERR_DENIED, s)
      else if domain_has_parked (PLATFORM_HART_COUNT (m_cfg p)) dm then (Returns SBI_ERR_DENIED, s)
      else
        let rc = (case sleeper sleep_type of
                    Some prepare \<Rightarrow> if others = [] then prepare resume_addr else SBI_SUCCESS
                  | None \<Rightarrow> SBI_SUCCESS) in
        if rc \<noteq> SBI_SUCCESS then (Returns rc, s)
        else hart_suspend p answer self SBI_HSM_SUSPEND_NON_RET_DEFAULT resume_addr arg False s)"

text \<open>What a hart that slept with its S-mode state does on wakeup.\<close>

definition resumed :: "nat \<Rightarrow> 'a world_scheme \<Rightarrow> hsm_exit \<times> 'a world_scheme" where
  "resumed self s =
     (Returns SBI_SUCCESS, hsm_store self SBI_HSM_STATE_STARTED (hsm_store self SBI_HSM_STATE_RESUME_PENDING s))"

definition hsm_hart_state :: "platform \<Rightarrow> nat \<Rightarrow> ulong \<Rightarrow> 'a world_scheme \<Rightarrow> sbi + hsm_state" where
  "hsm_hart_state p self hid s =
     (case hart_get p hid of
        None \<Rightarrow> Inl SBI_ERR_INVALID_PARAM
      | Some h \<Rightarrow>
          if \<not> hart_valid p s hid \<or> \<not> domain_hart_member (this_domain s self) h then Inl SBI_ERR_INVALID_PARAM
          else if \<not> domain_hart_assigned (this_domain s self) h then Inr SBI_HSM_STATE_STARTED
          else Inr (hsm_state (harts s h)))"

definition interruptible :: "platform \<Rightarrow> domain \<Rightarrow> 'a world_scheme \<Rightarrow> nat \<Rightarrow> bool" where
  "interruptible p dm s i \<longleftrightarrow>
     hart_index_valid p s i \<and> domain_hart_assigned dm i \<and>
     (hsm_state (harts s i) = SBI_HSM_STATE_STARTED \<or> hsm_state (harts s i) = SBI_HSM_STATE_SUSPENDED)"

definition hsm_interruptible_mask_of :: "platform \<Rightarrow> domain \<Rightarrow> 'a world_scheme \<Rightarrow> hartmask" where
  "hsm_interruptible_mask_of p dm s =
     foldl (\<lambda>m i. if interruptible p dm s i then hartmask_set m i else m) (no_harts (m_cfg p))
       [0..<PLATFORM_HART_COUNT (m_cfg p)]"

definition hsm_interruptible_mask :: "platform \<Rightarrow> nat \<Rightarrow> 'a world_scheme \<Rightarrow> hartmask" where
  "hsm_interruptible_mask p self s = hsm_interruptible_mask_of p (this_domain s self) s"

lemmas hsm_defs =
  hart_upd_def hsm_store_def hsm_transition_def start_args_def hsm_boot_hart_start_def hsm_claim_def

text \<open>The harts a domain can be interrupted on: its mask is exact.\<close>

lemma foldl_if_filter: "foldl (\<lambda>m i. if P i then f m i else m) m is = foldl f m (filter P is)"
  by (induction "is" arbitrary: m) auto

lemma hsm_interruptible_mask_of_exact:
  assumes "i < PLATFORM_HART_COUNT (m_cfg p)"
  shows "hartmask_test (hsm_interruptible_mask_of p dm s) i \<longleftrightarrow> interruptible p dm s i"
  using assms unfolding hsm_interruptible_mask_of_def foldl_if_filter no_harts_def
  by (subst hm.member_foldl_add [where count = "PLATFORM_HART_COUNT (m_cfg p)"])
     (auto simp: hartmask_wf_def hartmask_test_def bit_test_none)

section \<open>Harts side by side\<close>

text \<open>
  Where a hart is in the code of this component, as far as other harts can come in between.
  \<open>Smode\<close> is anywhere outside it: in S-mode or in another of the monitor's services.
\<close>

type_synonym start = "ulong \<times> ulong \<times> ulong"

datatype hsm_pc =
    Smode
  | Claiming nat start
  | Launching nat
  | Undoing nat
  | Stopping
  | Polling
  | Entering
  | Suspending bool ulong ulong
  | Sleeping bool
  | Resuming bool

text \<open>What is recorded of a run: a start accepted, a hart entering S-mode on a
  start or on a resume, a start dropped because the domain is being stopped.\<close>

datatype hsm_event = Started nat start | Entered nat start | Dropped nat start | Resumed nat start

record hsm_sys = world +
  pcs :: "nat \<Rightarrow> hsm_pc"
  trace :: "hsm_event list"

definition goto :: "nat \<Rightarrow> hsm_pc \<Rightarrow> hsm_sys \<Rightarrow> hsm_sys" where
  "goto h pc s = s\<lparr>pcs := (pcs s)(h := pc)\<rparr>"

definition note_event :: "hsm_event \<Rightarrow> hsm_sys \<Rightarrow> hsm_sys" where
  "note_event e s = s\<lparr>trace := trace s @ [e]\<rparr>"

definition args_of :: "hart \<Rightarrow> start" where
  "args_of x = (start_addr x, start_arg x, start_mode x)"

text \<open>The part of a hart's entry only this component writes.\<close>

definition hsm_view :: "'a world_scheme \<Rightarrow> nat \<Rightarrow> hsm_state \<times> start" where
  "hsm_view s h = (hsm_state (harts s h), args_of (harts s h))"

text \<open>
  The steps. \<open>fails\<close>: can the platform refuse a start. \<open>nested\<close>: can a domain that another one
  has called on this hart be stopped while the hart is suspended or being started; then
  \<^verbatim>\<open>domain_stop_self\<close> goes back to the caller (rule \<open>unwind\<close>), otherwise it stops the hart
  (\<open>sleep_stop\<close>, \<open>enter_stop\<close>, \<open>resume_stop\<close>). The rule \<open>other\<close> is everything the rest of the monitor
  does: it may change all of the world but \<open>hsm_view\<close>.
\<close>

inductive hsm_step :: "platform \<Rightarrow> bool \<Rightarrow> bool \<Rightarrow> hsm_sys \<Rightarrow> hsm_sys \<Rightarrow> bool" for p fails nested where
  call: "pcs s h = Smode \<Longrightarrow> hart_index_valid p s t \<Longrightarrow> hsm_step p fails nested s (goto h (Claiming t a) s)"
| claim: "pcs s h = Claiming t (entry, arg, mode) \<Longrightarrow> hsm_claim t entry arg mode s = (None, s') \<Longrightarrow>
    hsm_step p fails nested s (note_event (Started t (entry, arg, mode)) (goto h (Launching t) s'))"
| denied: "pcs s h = Claiming t (entry, arg, mode) \<Longrightarrow> hsm_claim t entry arg mode s = (Some rc, s') \<Longrightarrow>
    hsm_step p fails nested s (goto h Smode s')"
| launch: "pcs s h = Launching t \<Longrightarrow> hsm_step p fails nested s (goto h Smode (ipi_kick p t s))"
| refuse: "pcs s h = Launching t \<Longrightarrow> fails \<Longrightarrow> hsm_step p fails nested s (goto h (Undoing t) s)"
| undo: "pcs s h = Undoing t \<Longrightarrow> hsm_step p fails nested s
    (goto h Smode (snd (hsm_transition t SBI_HSM_STATE_START_PENDING SBI_HSM_STATE_STOPPED s)))"
| stop: "pcs s h = Smode \<Longrightarrow> hsm_transition h SBI_HSM_STATE_STARTED SBI_HSM_STATE_STOP_PENDING s = (True, s') \<Longrightarrow>
    hsm_step p fails nested s (goto h Stopping (timer_stop p h s'))"
| force_stop: "pcs s h = Smode \<Longrightarrow> hsm_step p fails nested s
    (goto h Stopping (timer_stop p h (hsm_store h SBI_HSM_STATE_STOP_PENDING s)))"
| park: "pcs s h = Stopping \<Longrightarrow> hsm_hart_wait p h s = (Waits, s') \<Longrightarrow> hsm_step p fails nested s (goto h Polling s')"
| poll: "pcs s h = Polling \<Longrightarrow> hsm_wait_round p indicate h s = (True, s') \<Longrightarrow>
    hsm_step p fails nested s (goto h Entering s')"
| enter: "pcs s h = Entering \<Longrightarrow> hsm_step p fails nested s
    (note_event (Entered h (args_of (harts s h))) (goto h Smode (hsm_store h SBI_HSM_STATE_STARTED s)))"
| suspend: "pcs s h = Smode \<Longrightarrow>
    hsm_transition h SBI_HSM_STATE_STARTED SBI_HSM_STATE_SUSPEND_PENDING s = (True, s') \<Longrightarrow>
    hsm_step p fails nested s (goto h (Suspending ret addr arg) s')"
| suspend_refused: "pcs s h = Suspending ret addr arg \<Longrightarrow>
    hsm_step p fails nested s (goto h Smode (hsm_store h SBI_HSM_STATE_STARTED s))"
| sleep: "pcs s h = Suspending ret addr arg \<Longrightarrow> hsm_step p fails nested s
    (goto h (Sleeping ret) (hsm_store h SBI_HSM_STATE_SUSPENDED
       (if ret then s else start_args h addr arg PRV_S s)))"
| wake: "pcs s h = Sleeping ret \<Longrightarrow>
    hsm_step p fails nested s (goto h (Resuming ret) (hsm_store h SBI_HSM_STATE_RESUME_PENDING s))"
| sleep_stop: "pcs s h = Sleeping False \<Longrightarrow> domain_stop_pending s h \<Longrightarrow> hsm_step p fails nested s
    (goto h Stopping (timer_stop p h (hsm_store h SBI_HSM_STATE_STOP_PENDING s)))"
| enter_stop: "pcs s h = Entering \<Longrightarrow> domain_stop_pending s h \<Longrightarrow> hsm_step p fails nested s
    (note_event (Dropped h (args_of (harts s h)))
       (goto h Stopping (timer_stop p h (hsm_store h SBI_HSM_STATE_STOP_PENDING s))))"
| resume_stop: "pcs s h = Resuming False \<Longrightarrow> domain_stop_pending s h \<Longrightarrow> hsm_step p fails nested s
    (goto h Stopping (timer_stop p h (hsm_store h SBI_HSM_STATE_STOP_PENDING s)))"
| unwind: "pcs s h \<in> {Sleeping False, Resuming False, Entering} \<Longrightarrow> nested \<Longrightarrow> domain_stop_pending s h \<Longrightarrow>
    hsm_step p fails nested s (goto h Smode s)"
| reset: "pcs s h = Sleeping False \<Longrightarrow> hsm_hart_wait p h s = (Reenters, s') \<Longrightarrow>
    hsm_step p fails nested s (goto h (Resuming False) s')"
| resume_ret: "pcs s h = Resuming True \<Longrightarrow>
    hsm_step p fails nested s (goto h Smode (hsm_store h SBI_HSM_STATE_STARTED s))"
| resume: "pcs s h = Resuming False \<Longrightarrow> hsm_step p fails nested s
    (note_event (Resumed h (args_of (harts s h))) (goto h Smode (hsm_store h SBI_HSM_STATE_STARTED s)))"
| other: "hsm_view s' = hsm_view s \<Longrightarrow> pcs s' = pcs s \<Longrightarrow> trace s' = trace s \<Longrightarrow> hsm_step p fails nested s s'"

text \<open>
  The monitor hands over: the boot hart is about to enter its first stage, all others wait.
\<close>

definition hsm_boot :: "nat \<Rightarrow> start \<Rightarrow> hsm_sys \<Rightarrow> bool" where
  "hsm_boot b a s \<longleftrightarrow>
     (\<exists>s0 entry arg mode. a = (entry, arg, mode) \<and> (\<forall>h. hsm_state (harts s0 h) = SBI_HSM_STATE_STOPPED) \<and>
        pcs s0 = (\<lambda>_. Polling) \<and> trace s0 = [] \<and>
        s = note_event (Started b a) (goto b Entering (hsm_boot_hart_start b entry arg mode s0)))"

inductive hsm_reach :: "platform \<Rightarrow> bool \<Rightarrow> bool \<Rightarrow> hsm_sys \<Rightarrow> bool" for p fails nested where
  boot: "hsm_boot b a s \<Longrightarrow> hsm_reach p fails nested s"
| step: "hsm_reach p fails nested s \<Longrightarrow> hsm_step p fails nested s s' \<Longrightarrow> hsm_reach p fails nested s'"

text \<open>
  The edges of the SBI specification's state machine, and those to STOP\_PENDING of a hart whose
  domain is being stopped.
\<close>

fun hsm_edge :: "hsm_state \<Rightarrow> hsm_state \<Rightarrow> bool" where
  "hsm_edge SBI_HSM_STATE_STOPPED t = (t = SBI_HSM_STATE_START_PENDING)"
| "hsm_edge SBI_HSM_STATE_START_PENDING t = (t = SBI_HSM_STATE_STARTED \<or> t = SBI_HSM_STATE_STOP_PENDING)"
| "hsm_edge SBI_HSM_STATE_STARTED t = (t = SBI_HSM_STATE_STOP_PENDING \<or> t = SBI_HSM_STATE_SUSPEND_PENDING)"
| "hsm_edge SBI_HSM_STATE_STOP_PENDING t = (t = SBI_HSM_STATE_STOPPED)"
| "hsm_edge SBI_HSM_STATE_SUSPEND_PENDING t = (t = SBI_HSM_STATE_SUSPENDED \<or> t = SBI_HSM_STATE_STARTED)"
| "hsm_edge SBI_HSM_STATE_SUSPENDED t = (t = SBI_HSM_STATE_RESUME_PENDING \<or> t = SBI_HSM_STATE_STOP_PENDING)"
| "hsm_edge SBI_HSM_STATE_RESUME_PENDING t = (t = SBI_HSM_STATE_STARTED \<or> t = SBI_HSM_STATE_STOP_PENDING)"

text \<open>What a hart that is somewhere in the code has in its table entry.\<close>

fun pc_state :: "hsm_pc \<Rightarrow> hsm_state \<Rightarrow> bool" where
  "pc_state Stopping st = (st = SBI_HSM_STATE_STOP_PENDING)"
| "pc_state Polling st = (st = SBI_HSM_STATE_STOPPED \<or> st = SBI_HSM_STATE_START_PENDING)"
| "pc_state Entering st = (st = SBI_HSM_STATE_START_PENDING)"
| "pc_state (Suspending r a b) st = (st = SBI_HSM_STATE_SUSPEND_PENDING)"
| "pc_state (Sleeping r) st = (st = SBI_HSM_STATE_SUSPENDED)"
| "pc_state (Resuming r) st = (st = SBI_HSM_STATE_RESUME_PENDING)"
| "pc_state Smode st = (st = SBI_HSM_STATE_STARTED)"
| "pc_state (Claiming t a) st = (st = SBI_HSM_STATE_STARTED)"
| "pc_state (Launching t) st = (st = SBI_HSM_STATE_STARTED)"
| "pc_state (Undoing t) st = False"

text \<open>
  The starts of one hart in a trace: \<open>Some None\<close> when each was followed by its own entry (or dropped),
  \<open>Some (Some a)\<close> when the last one still is to be, \<open>None\<close> when a start was lost, served
  twice or served with the arguments of another.
\<close>

fun serve :: "nat \<Rightarrow> start option option \<Rightarrow> hsm_event \<Rightarrow> start option option" where
  "serve h st (Started t a) = (if t \<noteq> h then st else if st = Some None then Some (Some a) else None)"
| "serve h st (Entered t a) = (if t \<noteq> h then st else if st = Some (Some a) then Some None else None)"
| "serve h st (Dropped t a) = (if t \<noteq> h then st else if st = Some (Some a) then Some None else None)"
| "serve h st (Resumed t a) = st"

definition served :: "nat \<Rightarrow> hsm_event list \<Rightarrow> start option option" where
  "served h es = foldl (serve h) (Some None) es"

section \<open>What the operations leave alone\<close>

lemma fw_event_more [simp]: "harts (fw_event ev h s) = harts s" "doms (fw_event ev h s) = doms s"
  by (simp_all add: fw_event_def)

lemma regs_upd_more [simp]: "harts (regs_upd h f s) = harts s" "doms (regs_upd h f s) = doms s"
  by (simp_all add: regs_upd_def)

lemma regs_upd_sys [simp]: "pcs (regs_upd h f s) = pcs s" "trace (regs_upd h f s) = trace s"
  by (simp_all add: regs_upd_def)

lemma ipi_kick_more [simp]:
  "harts (ipi_kick p t s) = harts s" "pcs (ipi_kick p t u) = pcs u" "trace (ipi_kick p t u) = trace u"
  by (simp_all add: ipi_kick_def ipi_raise_def)

lemma ipi_hart_init_more [simp]:
  "harts (ipi_hart_init p h s) = harts s" "pcs (ipi_hart_init p h u) = pcs u" "trace (ipi_hart_init p h u) = trace u"
  by (simp_all add: ipi_hart_init_def ipi_init_store_def ipi_init_clear_def ipi_clear_def split: option.splits)

lemma rfence_serve_more:
  "harts (rfence_serve h e s) = harts s" "pcs (rfence_serve h e u) = pcs u" "trace (rfence_serve h e u) = trace u"
  by (simp_all add: fabric_defs Let_def)

lemma dequeue_more:
  "dequeue h s = Some (e, s') \<Longrightarrow> harts s' = harts s"
  "dequeue h u = Some (e, u') \<Longrightarrow> pcs u' = pcs u \<and> trace u' = trace u"
  by (auto simp: dequeue_def split: option.splits prod.splits)

lemma rfence_process_harts [simp]: "harts (rfence_process h s) = harts s"
  by (induction h s rule: rfence_process.induct)
     (subst rfence_process.simps, auto simp: rfence_serve_more dequeue_more split: option.split)

lemma rfence_process_pcs [simp]: "pcs (rfence_process h u) = pcs u"
  by (induction h u rule: rfence_process.induct)
     (subst rfence_process.simps, auto simp: rfence_serve_more dequeue_more split: option.split)

lemma rfence_process_trace [simp]: "trace (rfence_process h u) = trace u"
  by (induction h u rule: rfence_process.induct)
     (subst rfence_process.simps, auto simp: rfence_serve_more dequeue_more split: option.split)

lemma timer_stop_more [simp]:
  "harts (timer_stop p h s) = harts s" "pcs (timer_stop p h u) = pcs u" "trace (timer_stop p h u) = trace u"
  by (simp_all add: timer_stop_def split: prod.split)

lemma hsm_wait_enter_more [simp]:
  "harts (hsm_wait_enter p h s) = harts s" "pcs (hsm_wait_enter p h u) = pcs u"
  "trace (hsm_wait_enter p h u) = trace u"
  by (simp_all add: hsm_wait_enter_def)

lemma goto_more [simp]:
  "harts (goto h pc s) = harts s" "pcs (goto h pc s) = (pcs s)(h := pc)" "trace (goto h pc s) = trace s"
  by (simp_all add: goto_def)

lemma note_event_more [simp]:
  "harts (note_event e s) = harts s" "pcs (note_event e s) = pcs s" "trace (note_event e s) = trace s @ [e]"
  by (simp_all add: note_event_def)

lemma hsm_store_sys [simp]: "pcs (hsm_store h st u) = pcs u" "trace (hsm_store h st u) = trace u"
  by (simp_all add: hsm_store_def hart_upd_def)

lemma start_args_sys [simp]: "pcs (start_args h e a m u) = pcs u" "trace (start_args h e a m u) = trace u"
  by (simp_all add: start_args_def hart_upd_def)

lemma hsm_state_store [simp]:
  "hsm_state (harts (hsm_store h st s) k) = (if k = h then st else hsm_state (harts s k))"
  "args_of (harts (hsm_store h st s) k) = args_of (harts s k)"
  by (simp_all add: hsm_store_def hart_upd_def args_of_def)

lemma hsm_state_args [simp]:
  "hsm_state (harts (start_args h e a m s) k) = hsm_state (harts s k)"
  "args_of (harts (start_args h e a m s) k) = (if k = h then (e, a, m) else args_of (harts s k))"
  by (simp_all add: start_args_def hart_upd_def args_of_def)

lemma served_append [simp]: "served h (es @ [e]) = serve h (served h es) e"
  by (simp add: served_def)

lemma served_Nil [simp]: "served h [] = Some None"
  by (simp add: served_def)

section \<open>The invariant\<close>

definition hart_inv :: "hsm_sys \<Rightarrow> nat \<Rightarrow> bool" where
  "hart_inv s h \<longleftrightarrow>
     pc_state (pcs s h) (hsm_state (harts s h)) \<and>
     served h (trace s) =
       Some (if hsm_state (harts s h) = SBI_HSM_STATE_START_PENDING then Some (args_of (harts s h)) else None)"

text \<open>A step that leaves a hart's entry, place and events alone leaves it as it was.\<close>

lemma hart_inv_same:
  "hart_inv s h \<Longrightarrow> pcs s' h = pcs s h \<Longrightarrow> hsm_state (harts s' h) = hsm_state (harts s h) \<Longrightarrow>
   args_of (harts s' h) = args_of (harts s h) \<Longrightarrow> served h (trace s') = served h (trace s) \<Longrightarrow> hart_inv s' h"
  by (simp add: hart_inv_def)

lemma hart_inv_step:
  assumes "hsm_step p False False s s'" and inv: "\<And>h. hart_inv s h"
  shows "hart_inv s' k \<and>
    (hsm_state (harts s' k) = hsm_state (harts s k) \<or> hsm_edge (hsm_state (harts s k)) (hsm_state (harts s' k)))"
  using assms(1)
proof cases
  case (claim h t entry arg mode s1)
  then show ?thesis using inv [of k] inv [of h]
    by (cases "pcs s k") (auto simp: hart_inv_def hsm_claim_def Let_def split: if_splits)
next
  case (denied h t entry arg mode rc s1)
  then show ?thesis using inv [of k] inv [of h]
    by (auto simp: hart_inv_def hsm_claim_def Let_def split: if_splits)
next
  case (undo h t)
  then show ?thesis using inv [of h] by (simp add: hart_inv_def)
next
  case (park h s1)
  then show ?thesis using inv [of k]
    by (auto simp: hart_inv_def hsm_hart_wait_def split: if_splits)
next
  case (poll h indicate s1)
  then show ?thesis using inv [of k]
    by (auto simp: hart_inv_def hsm_wait_round_def split: if_splits)
next
  case (reset h s1)
  then show ?thesis using inv [of k]
    by (auto simp: hart_inv_def hsm_hart_wait_def split: if_splits)
next
  case other
  then have "hsm_view s' k = hsm_view s k" by simp
  then have "hsm_state (harts s' k) = hsm_state (harts s k)" "args_of (harts s' k) = args_of (harts s k)"
    by (simp_all add: hsm_view_def)
  then show ?thesis using inv [of k] other by (simp add: hart_inv_def)
qed (use inv [of k] in \<open>auto simp: hart_inv_def hsm_transition_def split: if_splits\<close>)

lemma hart_inv_boot: "hsm_boot b a s \<Longrightarrow> hart_inv s h"
  by (auto simp: hsm_boot_def hart_inv_def hsm_boot_hart_start_def served_def split: if_splits)

lemma hart_inv_reach: "hsm_reach p False False s \<Longrightarrow> hart_inv s h"
proof (induction arbitrary: h rule: hsm_reach.induct)
  case (step s s')
  then show ?case using hart_inv_step by blast
qed (rule hart_inv_boot)



section \<open>A platform that refuses a start\<close>

text \<open>
  C31. With a platform that may refuse a start, the refusal can come too late: a hart that
  waits in the monitor sees START\_PENDING and leaves the wait loop before the requester takes
  it back. The call has then failed and the table says STOPPED, while the hart is on its way
  into S-mode, where it arrives with the arguments of the failed call.
\<close>

theorem hsm_refused_start_runs:
  assumes "hsm_boot b a s" and "t \<noteq> b" and "hart_index_valid p s t" and "\<not> domain_stop_pending_on s t"
  shows "\<exists>s1 s2. hsm_reach p True False s1 \<and> pcs s1 b = Smode \<and>
    hsm_state (harts s1 t) = SBI_HSM_STATE_STOPPED \<and>
    hsm_step p True False s1 s2 \<and> pcs s2 t = Smode \<and> trace s2 = trace s1 @ [Entered t (x, y, z)]"
proof -
  define e where "e = note_event (Entered b (args_of (harts s b))) (goto b Smode (hsm_store b SBI_HSM_STATE_STARTED s))"
  define c where "c = goto b (Claiming t (x, y, z)) e"
  define k where "k = hsm_store t SBI_HSM_STATE_START_PENDING (start_args t x y z c)"
  define l where "l = note_event (Started t (x, y, z)) (goto b (Launching t) k)"
  define w where "w = goto t Entering l"
  define r where "r = goto b (Undoing t) w"
  define u where "u = goto b Smode (snd (hsm_transition t SBI_HSM_STATE_START_PENDING SBI_HSM_STATE_STOPPED r))"
  note steps = e_def c_def k_def l_def w_def r_def u_def
  have s: "pcs s b = Entering" "pcs s t = Polling" "hsm_state (harts s t) = SBI_HSM_STATE_STOPPED"
    using assms(1,2) by (auto simp: hsm_boot_def hsm_boot_hart_start_def)
  have same: "hart_index_valid p e t" "\<not> domain_stop_pending_on c t"
    using assms(2-4)
    by (simp_all add: hart_index_valid_def domain_stop_pending_on_def steps(1,2) goto_def note_event_def hsm_store_def hart_upd_def)
  have cl: "hsm_claim t x y z c = (None, k)"
    using same s assms(2) by (simp add: hsm_claim_def steps Let_def)
  have po: "hsm_wait_round p id t l = (True, l)"
    using s assms(2) by (simp add: hsm_wait_round_def steps)
  have "hsm_reach p True False e" unfolding e_def
    by (rule hsm_reach.step [OF hsm_reach.boot [OF assms(1)] hsm_step.enter]) (rule s)
  then have "hsm_reach p True False c" unfolding c_def
    by (rule hsm_reach.step [OF _ hsm_step.call]) (use same in \<open>simp_all add: e_def\<close>)
  then have "hsm_reach p True False l" unfolding l_def
    by (rule hsm_reach.step [OF _ hsm_step.claim [OF _ cl]]) (simp add: c_def)
  then have "hsm_reach p True False w" unfolding w_def
    by (rule hsm_reach.step [OF _ hsm_step.poll [OF _ po]]) (use s assms(2) in \<open>simp add: steps\<close>)
  then have "hsm_reach p True False r" unfolding r_def
    by (rule hsm_reach.step [OF _ hsm_step.refuse]) (use assms(2) in \<open>simp_all add: w_def l_def\<close>)
  then have u: "hsm_reach p True False u" unfolding u_def
    by (rule hsm_reach.step [OF _ hsm_step.undo]) (simp add: r_def)
  have "hsm_step p True False u
      (note_event (Entered t (args_of (harts u t))) (goto t Smode (hsm_store t SBI_HSM_STATE_STARTED u)))"
    by (rule hsm_step.enter) (use assms(2) in \<open>simp add: u_def r_def w_def hsm_transition_def\<close>)
  moreover have "args_of (harts u t) = (x, y, z)" "hsm_state (harts u t) = SBI_HSM_STATE_STOPPED"
    by (simp_all add: u_def r_def w_def l_def k_def hsm_transition_def)
  moreover have "pcs u b = Smode" by (simp add: u_def)
  ultimately show ?thesis using u by (intro exI [of _ u] exI) (auto intro: exI)
qed

section \<open>An example\<close>

definition pair_hart :: "ulong \<Rightarrow> hart" where
  "pair_hart i = \<lparr>hartid = i, present = True, no_smode = False, hsm_state = SBI_HSM_STATE_STOPPED,
     start_addr = 0, start_arg = 0, start_mode = 0, hart_domain = 0\<rparr>"

definition pair_off :: hsm_sys where
  "pair_off = \<lparr>queues = (\<lambda>h. ring_init), outs = (\<lambda>h. 0), ipi_pending = (\<lambda>h. 0), ipi_line = (\<lambda>h. False),
     hart_csrs = (\<lambda>h n. 0), hart_pmu = (\<lambda>h. demo_slot), fenced = (\<lambda>h. []),
     harts = (\<lambda>h. pair_hart (of_nat h)), doms = [zero_domain demo_config],
     timers = (\<lambda>h. \<lparr>deadline = 0, compare = None\<rparr>), pcs = (\<lambda>h. Polling), trace = []\<rparr>"

definition pair_boot :: hsm_sys where
  "pair_boot = note_event (Started 0 (0x80200000, 7, PRV_S))
     (goto 0 Entering (hsm_boot_hart_start 0 0x80200000 7 PRV_S pair_off))"

lemma pair_boot_ok: "hsm_boot 0 (0x80200000, 7, PRV_S) pair_boot"
  unfolding hsm_boot_def
  by (rule exI [where x = pair_off]) (simp add: pair_boot_def pair_off_def pair_hart_def)

text \<open>The boot hart is in S-mode.\<close>

definition pair_up :: hsm_sys where
  "pair_up = note_event (Entered 0 (args_of (harts pair_boot 0)))
     (goto 0 Smode (hsm_store 0 SBI_HSM_STATE_STARTED pair_boot))"

lemma pair_up_reach: "hsm_reach duo fails nested pair_up"
  unfolding pair_up_def
  by (rule hsm_reach.step [OF hsm_reach.boot [OF pair_boot_ok] hsm_step.enter]) (simp add: pair_boot_def)

lemma pair_up_state:
  "pcs pair_up 0 = Smode" "hsm_state (harts pair_up 0) = SBI_HSM_STATE_STARTED"
  "trace pair_up = [Started 0 (0x80200000, 7, PRV_S), Entered 0 (0x80200000, 7, PRV_S)]"
  by (simp_all add: pair_up_def pair_boot_def pair_off_def hsm_boot_hart_start_def)



theorem hsm_refused_start_runs_witness:
  "\<exists>s1 s2. hsm_reach duo True False s1 \<and> pcs s1 0 = Smode \<and>
    hsm_state (harts s1 1) = SBI_HSM_STATE_STOPPED \<and>
    hsm_step duo True False s1 s2 \<and> pcs s2 1 = Smode \<and> trace s2 = trace s1 @ [Entered 1 (0x80300000, 1, PRV_S)]"
proof (rule hsm_refused_start_runs [OF pair_boot_ok])
  show "hart_index_valid duo pair_boot 1"
    by (simp add: hart_index_valid_def duo_ok pair_boot_def pair_off_def pair_hart_def
        hsm_boot_hart_start_def hsm_store_def start_args_def hart_upd_def)
  show "\<not> domain_stop_pending_on pair_boot 1"
    by (simp add: domain_stop_pending_on_def pair_boot_def pair_off_def pair_hart_def goto_def note_event_def
        hsm_boot_hart_start_def hsm_store_def start_args_def hart_upd_def zero_domain_def)
qed simp

end
