(* ===== verification/Sse.thy ===== *)
theory Sse
  imports Hsm
begin

text \<open>
  Supervisor software events (\<^verbatim>\<open>arch/riscv/runtime/sse.c\<close>) and the sources of the RAS events
  among them (\<^verbatim>\<open>arch/riscv/runtime/ras.c\<close>), on RV64; what they guarantee is in \<open>Events\<close>.
\<close>

section \<open>Register files\<close>

text \<open>\<^verbatim>\<open>struct trap_regs\<close>: x0..x31 by register number, then mepc and mstatus.\<close>

record trap_regs =
  gpr :: "nat \<Rightarrow> ulong"
  mepc :: ulong
  mstatus :: ulong

abbreviation A0 :: nat where "A0 \<equiv> 10"
abbreviation A1 :: nat where "A1 \<equiv> 11"
abbreviation A6 :: nat where "A6 \<equiv> 16"
abbreviation A7 :: nat where "A7 \<equiv> 17"

definition gpr_set :: "nat \<Rightarrow> ulong \<Rightarrow> trap_regs \<Rightarrow> trap_regs" where
  "gpr_set n v r = r\<lparr>gpr := (gpr r)(n := v)\<rparr>"

abbreviation MSTATUS_SIE :: ulong where "MSTATUS_SIE \<equiv> BIT 1"
abbreviation MSTATUS_SPIE :: ulong where "MSTATUS_SPIE \<equiv> BIT 5"
abbreviation MSTATUS_MPIE :: ulong where "MSTATUS_MPIE \<equiv> BIT 7"
abbreviation MSTATUS_SPP :: ulong where "MSTATUS_SPP \<equiv> BIT 8"
abbreviation MSTATUS_MPP_SHIFT :: nat where "MSTATUS_MPP_SHIFT \<equiv> 11"
abbreviation MSTATUS_SDT :: ulong where "MSTATUS_SDT \<equiv> BIT 24"
abbreviation MSTATUS_MPV :: ulong where "MSTATUS_MPV \<equiv> BIT 39"
abbreviation HSTATUS_SPV :: ulong where "HSTATUS_SPV \<equiv> BIT 7"
abbreviation HSTATUS_SPVP :: ulong where "HSTATUS_SPVP \<equiv> BIT 8"
abbreviation INT_FLAGS_SPP :: ulong where "INT_FLAGS_SPP \<equiv> BIT 0"
abbreviation INT_FLAGS_SPIE :: ulong where "INT_FLAGS_SPIE \<equiv> BIT 1"
abbreviation INT_FLAGS_SPV :: ulong where "INT_FLAGS_SPV \<equiv> BIT 2"
abbreviation INT_FLAGS_SPVP :: ulong where "INT_FLAGS_SPVP \<equiv> BIT 3"
abbreviation INT_FLAGS_SDT :: ulong where "INT_FLAGS_SDT \<equiv> BIT 5"
abbreviation INT_FLAGS_VALID :: ulong where
  "INT_FLAGS_VALID \<equiv> INT_FLAGS_SPP OR INT_FLAGS_SPIE OR INT_FLAGS_SPV OR INT_FLAGS_SPVP OR INT_FLAGS_SDT"

definition MSTATUS_MPP :: ulong where
  "MSTATUS_MPP = push_bit MSTATUS_MPP_SHIFT 3"

definition mpp_of :: "ulong \<Rightarrow> ulong" where
  "mpp_of prv = push_bit MSTATUS_MPP_SHIFT prv"

section \<open>Events\<close>

abbreviation SSE_EVENT_LOCAL_HIGH_RAS :: u32 where "SSE_EVENT_LOCAL_HIGH_RAS \<equiv> 0"
abbreviation SSE_EVENT_LOCAL_DOUBLE_TRAP :: u32 where "SSE_EVENT_LOCAL_DOUBLE_TRAP \<equiv> 1"
abbreviation SSE_EVENT_LOCAL_PMU_OVERFLOW :: u32 where "SSE_EVENT_LOCAL_PMU_OVERFLOW \<equiv> 0x10000"
abbreviation SSE_EVENT_LOCAL_LOW_RAS :: u32 where "SSE_EVENT_LOCAL_LOW_RAS \<equiv> 0x100000"
abbreviation SSE_EVENT_LOCAL_SOFTWARE :: u32 where "SSE_EVENT_LOCAL_SOFTWARE \<equiv> 0xffff0000"
abbreviation SSE_EVENT_GLOBAL_HIGH_RAS :: u32 where "SSE_EVENT_GLOBAL_HIGH_RAS \<equiv> 0x8000"
abbreviation SSE_EVENT_GLOBAL_LOW_RAS :: u32 where "SSE_EVENT_GLOBAL_LOW_RAS \<equiv> 0x108000"
abbreviation SSE_EVENT_GLOBAL_SOFTWARE :: u32 where "SSE_EVENT_GLOBAL_SOFTWARE \<equiv> 0xffff8000"

abbreviation SSE_ATTR_STATUS :: nat where "SSE_ATTR_STATUS \<equiv> 0"
abbreviation SSE_ATTR_PRIORITY :: nat where "SSE_ATTR_PRIORITY \<equiv> 1"
abbreviation SSE_ATTR_CONFIG :: nat where "SSE_ATTR_CONFIG \<equiv> 2"
abbreviation SSE_ATTR_PREFERRED_HART :: nat where "SSE_ATTR_PREFERRED_HART \<equiv> 3"
abbreviation SSE_ATTR_ENTRY_PC :: nat where "SSE_ATTR_ENTRY_PC \<equiv> 4"
abbreviation SSE_ATTR_ENTRY_ARG :: nat where "SSE_ATTR_ENTRY_ARG \<equiv> 5"
abbreviation SSE_ATTR_INTERRUPTED_SEPC :: nat where "SSE_ATTR_INTERRUPTED_SEPC \<equiv> 6"
abbreviation SSE_ATTR_INTERRUPTED_FLAGS :: nat where "SSE_ATTR_INTERRUPTED_FLAGS \<equiv> 7"
abbreviation SSE_ATTR_INTERRUPTED_A6 :: nat where "SSE_ATTR_INTERRUPTED_A6 \<equiv> 8"
abbreviation SSE_ATTR_INTERRUPTED_A7 :: nat where "SSE_ATTR_INTERRUPTED_A7 \<equiv> 9"
abbreviation SSE_ATTR_COUNT :: nat where "SSE_ATTR_COUNT \<equiv> 10"

abbreviation SSE_STATE_UNUSED :: ulong where "SSE_STATE_UNUSED \<equiv> 0"
abbreviation SSE_STATE_REGISTERED :: ulong where "SSE_STATE_REGISTERED \<equiv> 1"
abbreviation SSE_STATE_ENABLED :: ulong where "SSE_STATE_ENABLED \<equiv> 2"
abbreviation SSE_STATE_RUNNING :: ulong where "SSE_STATE_RUNNING \<equiv> 3"
abbreviation SSE_STATUS_PENDING :: ulong where "SSE_STATUS_PENDING \<equiv> BIT 2"
abbreviation SSE_STATUS_INJECTABLE :: ulong where "SSE_STATUS_INJECTABLE \<equiv> BIT 3"
abbreviation SSE_CONFIG_ONESHOT :: ulong where "SSE_CONFIG_ONESHOT \<equiv> BIT 0"

record sse_event =
  ev_id :: u32
  ev_pending :: bool
  ev_hart :: nat
  ev_attr :: "nat \<Rightarrow> ulong"

abbreviation ev_status :: "sse_event \<Rightarrow> ulong" where "ev_status e \<equiv> ev_attr e SSE_ATTR_STATUS"

definition attr_set :: "nat \<Rightarrow> ulong \<Rightarrow> sse_event \<Rightarrow> sse_event" where
  "attr_set i v e = e\<lparr>ev_attr := (ev_attr e)(i := v)\<rparr>"

definition local_ids :: "u32 list" where
  "local_ids = [SSE_EVENT_LOCAL_HIGH_RAS, SSE_EVENT_LOCAL_DOUBLE_TRAP, SSE_EVENT_LOCAL_PMU_OVERFLOW,
     SSE_EVENT_LOCAL_LOW_RAS, SSE_EVENT_LOCAL_SOFTWARE]"

definition global_ids :: "u32 list" where
  "global_ids = [SSE_EVENT_GLOBAL_HIGH_RAS, SSE_EVENT_GLOBAL_LOW_RAS, SSE_EVENT_GLOBAL_SOFTWARE]"

abbreviation NR_LOCAL :: nat where "NR_LOCAL \<equiv> 5"

definition NR_GLOBAL :: "platform \<Rightarrow> nat" where
  "NR_GLOBAL p = 3 + MPXY_SSE_EVENTS (m_cfg p)"

definition global_id :: "nat \<Rightarrow> u32" where
  "global_id i = (if i < 3 then global_ids ! i else 0x10c000 + of_nat (i - 3))"

text \<open>
  The events of a domain: the local ones of each hart, and the global ones. \<open>kick\<close> is the
  flag of a hart that something may be deliverable, \<open>sources\<close> the platform's sources.
\<close>

record sse_hart =
  sh_local :: "nat \<Rightarrow> sse_event"
  unmasked :: bool

record sse_domain =
  sd_global :: "nat \<Rightarrow> sse_event"
  globals_ready :: bool

record sse_world = world +
  sse_harts :: "nat \<Rightarrow> nat \<Rightarrow> sse_hart"
  sse_domains :: "nat \<Rightarrow> sse_domain"
  kick :: "nat \<Rightarrow> bool"
  sources :: ulong

text \<open>A pointer to an event: of domain and hart, or of a domain.\<close>

datatype event_ref = Local nat nat nat | Global nat nat

fun ref_key :: "event_ref \<Rightarrow> nat" where
  "ref_key (Local k h i) = k"
| "ref_key (Global k i) = k"

fun event :: "event_ref \<Rightarrow> 'a sse_world_scheme \<Rightarrow> sse_event" where
  "event (Local k h i) s = sh_local (sse_harts s k h) i"
| "event (Global k i) s = sd_global (sse_domains s k) i"

fun set_event :: "event_ref \<Rightarrow> sse_event \<Rightarrow> 'a sse_world_scheme \<Rightarrow> 'a sse_world_scheme" where
  "set_event (Local k h i) e s =
     s\<lparr>sse_harts := (sse_harts s)(k := (sse_harts s k)(h :=
         (sse_harts s k h)\<lparr>sh_local := (sh_local (sse_harts s k h))(i := e)\<rparr>))\<rparr>"
| "set_event (Global k i) e s =
     s\<lparr>sse_domains := (sse_domains s)(k := (sse_domains s k)\<lparr>sd_global := (sd_global (sse_domains s k))(i := e)\<rparr>)\<rparr>"

definition this_domain_key :: "'a world_scheme \<Rightarrow> nat \<Rightarrow> nat" where
  "this_domain_key s self = hart_domain (harts s self)"

definition set_kick :: "nat \<Rightarrow> bool \<Rightarrow> 'a sse_world_scheme \<Rightarrow> 'a sse_world_scheme" where
  "set_kick h v s = s\<lparr>kick := (kick s)(h := v)\<rparr>"

definition set_unmasked :: "nat \<Rightarrow> nat \<Rightarrow> bool \<Rightarrow> 'a sse_world_scheme \<Rightarrow> 'a sse_world_scheme" where
  "set_unmasked k h v s =
     s\<lparr>sse_harts := (sse_harts s)(k := (sse_harts s k)(h := (sse_harts s k h)\<lparr>unmasked := v\<rparr>))\<rparr>"

section \<open>RAS sources\<close>

datatype ras_kind = RAS_LOCAL_HIGH | RAS_GLOBAL_HIGH | RAS_LOCAL_LOW | RAS_GLOBAL_LOW

fun ras_code :: "ras_kind \<Rightarrow> nat" where
  "ras_code RAS_LOCAL_HIGH = 0"
| "ras_code RAS_GLOBAL_HIGH = 1"
| "ras_code RAS_LOCAL_LOW = 2"
| "ras_code RAS_GLOBAL_LOW = 3"

fun event_ids :: "ras_kind \<Rightarrow> u32" where
  "event_ids RAS_LOCAL_HIGH = SSE_EVENT_LOCAL_HIGH_RAS"
| "event_ids RAS_GLOBAL_HIGH = SSE_EVENT_GLOBAL_HIGH_RAS"
| "event_ids RAS_LOCAL_LOW = SSE_EVENT_LOCAL_LOW_RAS"
| "event_ids RAS_GLOBAL_LOW = SSE_EVENT_GLOBAL_LOW_RAS"

definition kind_of :: "u32 \<Rightarrow> ras_kind option" where
  "kind_of eid = find (\<lambda>k. event_ids k = eid) [RAS_LOCAL_HIGH, RAS_GLOBAL_HIGH, RAS_LOCAL_LOW, RAS_GLOBAL_LOW]"

abbreviation IRQ_RAS_LOW :: nat where "IRQ_RAS_LOW \<equiv> 35"
abbreviation IRQ_RAS_HIGH :: nat where "IRQ_RAS_HIGH \<equiv> 43"

definition irq_of :: "u32 \<Rightarrow> nat" where
  "irq_of eid =
     (if eid = SSE_EVENT_LOCAL_HIGH_RAS then IRQ_RAS_HIGH
      else if eid = SSE_EVENT_LOCAL_LOW_RAS then IRQ_RAS_LOW else 0)"

text \<open>On RV64 the enable bits are in \<^verbatim>\<open>mie\<close>, which is always there.\<close>

definition ras_irqs_probe :: "warl \<Rightarrow> csrs \<Rightarrow> bool \<times> csrs" where
  "ras_irqs_probe legal c =
     (let bits = BIT IRQ_RAS_LOW OR BIT IRQ_RAS_HIGH; val = csr_read CSR_MIE c;
          c1 = csr_set legal CSR_MIE bits c in
      (csr_read CSR_MIE c1 AND bits = bits, csr_write legal CSR_MIE (val AND NOT bits) c1))"

definition ras_is_event :: "u32 \<Rightarrow> bool" where
  "ras_is_event eid \<longleftrightarrow> kind_of eid \<noteq> None"

definition ras_event_available :: "platform \<Rightarrow> 'a sse_world_scheme \<Rightarrow> u32 \<Rightarrow> bool" where
  "ras_event_available p s eid =
     (case kind_of eid of
        None \<Rightarrow> False
      | Some kind \<Rightarrow> bit (sources s) (ras_code kind) \<or> irq_of eid \<noteq> 0 \<and> m_feat p HART_FEAT_RAS_IRQ)"

definition ras_event_arm :: "platform \<Rightarrow> nat \<Rightarrow> u32 \<Rightarrow> bool \<Rightarrow> 'a sse_world_scheme \<Rightarrow> 'a sse_world_scheme" where
  "ras_event_arm p self eid armed s =
     (if irq_of eid = 0 \<or> \<not> m_feat p HART_FEAT_RAS_IRQ then s
      else regs_upd self (if armed then csr_set (m_legal p) CSR_MIE (BIT (irq_of eid))
                          else csr_clear (m_legal p) CSR_MIE (BIT (irq_of eid))) s)"

definition ras_source_register :: "ras_kind \<Rightarrow> 'a sse_world_scheme \<Rightarrow> 'a sse_world_scheme" where
  "ras_source_register kind s = s\<lparr>sources := sources s OR BIT (ras_code kind)\<rparr>"

section \<open>The operations\<close>

definition is_global :: "u32 \<Rightarrow> bool" where
  "is_global eid \<longleftrightarrow> bit eid 15"

definition event_available :: "platform \<Rightarrow> 'a sse_world_scheme \<Rightarrow> u32 \<Rightarrow> bool" where
  "event_available p s eid =
     (if eid = SSE_EVENT_LOCAL_PMU_OVERFLOW then pmu_sse_supported (m_feat p)
      else if eid = SSE_EVENT_LOCAL_DOUBLE_TRAP then m_feat p HART_FEAT_SSDBLTRP
      else if ras_is_event eid then ras_event_available p s eid
      else True)"

definition event_injectable :: "u32 \<Rightarrow> bool" where
  "event_injectable eid \<longleftrightarrow> eid = SSE_EVENT_LOCAL_SOFTWARE \<or> eid = SSE_EVENT_GLOBAL_SOFTWARE"

definition event_source_update :: "platform \<Rightarrow> nat \<Rightarrow> sse_event \<Rightarrow> 'a sse_world_scheme \<Rightarrow> 'a sse_world_scheme" where
  "event_source_update p self e s =
     (if ev_id e = SSE_EVENT_LOCAL_PMU_OVERFLOW then
        let (u, c) = pmu_sse_enable (m_legal p) (ev_status e \<ge> SSE_STATE_ENABLED) (hart_pmu s self) (hart_csrs s self) in
        s\<lparr>hart_pmu := (hart_pmu s)(self := u), hart_csrs := (hart_csrs s)(self := c)\<rparr>
      else if ras_is_event (ev_id e) then
        ras_event_arm p self (ev_id e) (ev_status e = SSE_STATE_ENABLED \<and> \<not> ev_pending e) s
      else s)"

text \<open>The events of the calling hart \<open>self\<close>, its own or those it sees of hart \<open>h\<close>.\<close>

definition event_find :: "platform \<Rightarrow> 'a sse_world_scheme \<Rightarrow> nat \<Rightarrow> ulong \<Rightarrow> nat \<Rightarrow> sbi + event_ref" where
  "event_find p s self event_id h =
     (let key = this_domain_key s self in
      case find (\<lambda>i. event_id = ucast (local_ids ! i)) [0..<NR_LOCAL] of
        Some i \<Rightarrow> if event_available p s (local_ids ! i) then Inr (Local key h i) else Inl SBI_ERR_NOT_SUPPORTED
      | None \<Rightarrow>
          (case find (\<lambda>i. event_id = ucast (global_id i)) [0..<NR_GLOBAL p] of
             Some i \<Rightarrow> if event_available p s (global_id i) then Inr (Global key i) else Inl SBI_ERR_NOT_SUPPORTED
           | None \<Rightarrow> Inl (if event_id \<le> 0xffffffff \<and> bit event_id 14 then SBI_ERR_NOT_SUPPORTED
                          else SBI_ERR_INVALID_PARAM)))"

definition event_reset :: "platform \<Rightarrow> u32 \<Rightarrow> nat \<Rightarrow> sse_event" where
  "event_reset p eid h =
     \<lparr>ev_id = eid, ev_pending = False, ev_hart = h,
      ev_attr = (\<lambda>_. 0)(SSE_ATTR_PREFERRED_HART := hart_id_of p h)\<rparr>"

definition ras_sources_update :: "platform \<Rightarrow> nat \<Rightarrow> 'a sse_world_scheme \<Rightarrow> 'a sse_world_scheme" where
  "ras_sources_update p self s =
     fold (\<lambda>i s. if ras_is_event (local_ids ! i)
                 then event_source_update p self (event (Local (this_domain_key s self) self i) s) s else s)
       [0..<NR_LOCAL] s"

definition sse_hart_init :: "platform \<Rightarrow> nat \<Rightarrow> 'a sse_world_scheme \<Rightarrow> 'a sse_world_scheme" where
  "sse_hart_init p self s =
     (let key = this_domain_key s self;
          s1 = set_unmasked key self False s;
          s2 = fold (\<lambda>i. set_event (Local key self i) (event_reset p (local_ids ! i) self)) [0..<NR_LOCAL] s1;
          s3 = (if globals_ready (sse_domains s2 key) then s2
                else fold (\<lambda>i. set_event (Global key i) (event_reset p (global_id i) self)) [0..<NR_GLOBAL p] s2);
          s4 = s3\<lparr>sse_domains := (sse_domains s3)(key := (sse_domains s3 key)\<lparr>globals_ready := True\<rparr>)\<rparr>
      in ras_sources_update p self s4)"

definition sse_hart_switch_in :: "platform \<Rightarrow> nat \<Rightarrow> bool \<Rightarrow> 'a sse_world_scheme \<Rightarrow> 'a sse_world_scheme" where
  "sse_hart_switch_in p self fresh s =
     set_kick self True (if fresh then sse_hart_init p self s else ras_sources_update p self s)"

definition sse_domain_reset :: "nat \<Rightarrow> 'a sse_world_scheme \<Rightarrow> 'a sse_world_scheme" where
  "sse_domain_reset key s =
     s\<lparr>sse_domains := (sse_domains s)(key := (sse_domains s key)\<lparr>globals_ready := False\<rparr>)\<rparr>"

definition outranks :: "sse_event \<Rightarrow> sse_event \<Rightarrow> bool" where
  "outranks a b =
     (if ev_attr a SSE_ATTR_PRIORITY \<noteq> ev_attr b SSE_ATTR_PRIORITY
      then ev_attr a SSE_ATTR_PRIORITY < ev_attr b SSE_ATTR_PRIORITY
      else ev_id a < ev_id b)"

text \<open>The events a hart looks through, in the order of the loop.\<close>

definition hart_events :: "platform \<Rightarrow> nat \<Rightarrow> nat \<Rightarrow> event_ref list" where
  "hart_events p key self = map (Local key self) [0..<NR_LOCAL] @ map (Global key) [0..<NR_GLOBAL p]"

definition event_due :: "nat \<Rightarrow> ulong \<Rightarrow> sse_event \<Rightarrow> bool" where
  "event_due self state e \<longleftrightarrow>
     ev_status e = state \<and> ev_hart e = self \<and> (state = SSE_STATE_ENABLED \<longrightarrow> ev_pending e)"

definition top_event :: "platform \<Rightarrow> nat \<Rightarrow> ulong \<Rightarrow> 'a sse_world_scheme \<Rightarrow> event_ref option" where
  "top_event p self state s =
     foldl (\<lambda>best r.
         if \<not> event_due self state (event r s) then best
         else case best of None \<Rightarrow> Some r
              | Some b \<Rightarrow> if outranks (event r s) (event b s) then Some r else best)
       None (hart_events p (this_domain_key s self) self)"

definition hart_smode_double_trap_enabled :: "platform \<Rightarrow> csrs \<Rightarrow> bool" where
  "hart_smode_double_trap_enabled p c \<longleftrightarrow>
     m_feat p HART_FEAT_SSDBLTRP \<and> bit (csr_read CSR_MENVCFG c) 59"

definition flag_if :: "bool \<Rightarrow> ulong \<Rightarrow> ulong" where
  "flag_if b v = (if b then v else 0)"

text \<open>Delivery: the return from the trap is made to land in the handler.\<close>

definition inject_hstatus :: "ulong \<Rightarrow> bool \<Rightarrow> bool \<Rightarrow> ulong" where
  "inject_hstatus hstatus virt from_s =
     (let h = hstatus AND NOT HSTATUS_SPV in
      if virt then (h OR HSTATUS_SPV) AND NOT HSTATUS_SPVP OR flag_if from_s HSTATUS_SPVP else h)"

definition inject_flags :: "platform \<Rightarrow> csrs \<Rightarrow> ulong \<Rightarrow> ulong" where
  "inject_flags p c m =
     flag_if (bit m 8) INT_FLAGS_SPP OR flag_if (bit m 5) INT_FLAGS_SPIE OR
     (if m_feat p HART_FEAT_H
      then flag_if (bit (csr_read CSR_HSTATUS c) 7) INT_FLAGS_SPV OR
           flag_if (bit (csr_read CSR_HSTATUS c) 8) INT_FLAGS_SPVP else 0) OR
     flag_if (hart_smode_double_trap_enabled p c \<and> bit m 24) INT_FLAGS_SDT"

definition inject_mstatus :: "platform \<Rightarrow> csrs \<Rightarrow> ulong \<Rightarrow> ulong" where
  "inject_mstatus p c m =
     (let from_s = get_field_ul m MSTATUS_MPP = PRV_S;
          m1 = (if m_feat p HART_FEAT_H then m AND NOT MSTATUS_MPV else m);
          m2 = (if hart_smode_double_trap_enabled p c then m1 OR MSTATUS_SDT else m1);
          m3 = m2 AND NOT (MSTATUS_SPP OR MSTATUS_SPIE OR MSTATUS_MPP);
          m4 = m3 OR flag_if from_s MSTATUS_SPP;
          m5 = m4 OR flag_if (bit m4 1) MSTATUS_SPIE
      in (m5 AND NOT MSTATUS_SIE) OR mpp_of PRV_S)"

definition inject ::
  "platform \<Rightarrow> nat \<Rightarrow> event_ref \<Rightarrow> trap_regs \<Rightarrow> 'a sse_world_scheme \<Rightarrow> trap_regs \<times> 'a sse_world_scheme" where
  "inject p self r regs s =
     (let c = hart_csrs s self; m = mstatus regs; e = event r s;
          from_s = get_field_ul m MSTATUS_MPP = PRV_S;
          c1 = (if m_feat p HART_FEAT_H
                then csr_write (m_legal p) CSR_HSTATUS
                       (inject_hstatus (csr_read CSR_HSTATUS c) (bit m 39) from_s) c
                else c);
          e1 = e\<lparr>ev_pending := False, ev_attr := (ev_attr e)
                 (SSE_ATTR_INTERRUPTED_FLAGS := inject_flags p c m,
                  SSE_ATTR_INTERRUPTED_SEPC := csr_read CSR_SEPC c1,
                  SSE_ATTR_INTERRUPTED_A6 := gpr regs A6,
                  SSE_ATTR_INTERRUPTED_A7 := gpr regs A7,
                  SSE_ATTR_STATUS := SSE_STATE_RUNNING)\<rparr>;
          c2 = csr_write (m_legal p) CSR_SEPC (mepc regs) c1;
          regs1 = gpr_set A7 (ev_attr e SSE_ATTR_ENTRY_ARG) (gpr_set A6 (hartid (harts s self))
                    (regs\<lparr>mstatus := inject_mstatus p c m, mepc := ev_attr e SSE_ATTR_ENTRY_PC\<rparr>))
      in (regs1, set_event r e1 (s\<lparr>hart_csrs := (hart_csrs s)(self := c2)\<rparr>)))"

definition sse_process ::
  "platform \<Rightarrow> nat \<Rightarrow> trap_regs \<Rightarrow> 'a sse_world_scheme \<Rightarrow> trap_regs \<times> 'a sse_world_scheme" where
  "sse_process p self regs s =
     (if \<not> kick s self then (regs, s)
      else case top_event p self SSE_STATE_ENABLED s of
             None \<Rightarrow> (regs, set_kick self False s)
           | Some nxt \<Rightarrow>
               if unmasked (sse_harts s (this_domain_key s self) self) \<and>
                  (case top_event p self SSE_STATE_RUNNING s of
                     None \<Rightarrow> True | Some running \<Rightarrow> outranks (event nxt s) (event running s))
               then inject p self nxt regs s else (regs, s))"

definition sse_pending :: "nat \<Rightarrow> 'a sse_world_scheme \<Rightarrow> bool" where
  "sse_pending self s = kick s self"

text \<open>Completion: the interrupted context comes back.\<close>

definition complete_hstatus :: "ulong \<Rightarrow> ulong \<Rightarrow> ulong" where
  "complete_hstatus hstatus flags =
     hstatus AND NOT (HSTATUS_SPV OR HSTATUS_SPVP) OR flag_if (bit flags 2) HSTATUS_SPV OR
     flag_if (bit flags 3) HSTATUS_SPVP"

definition complete_mstatus :: "platform \<Rightarrow> csrs \<Rightarrow> ulong \<Rightarrow> ulong \<Rightarrow> ulong" where
  "complete_mstatus p c flags m =
     (let m1 = m AND NOT MSTATUS_MPP;
          m2 = m1 OR flag_if (bit m1 8) (mpp_of PRV_S);
          m3 = m2 OR flag_if (m_feat p HART_FEAT_H \<and> bit (csr_read CSR_HSTATUS c) 7) MSTATUS_MPV;
          m4 = (if hart_smode_double_trap_enabled p c
                then m3 AND NOT MSTATUS_SDT OR flag_if (bit flags 5) MSTATUS_SDT else m3);
          m5 = m4 AND NOT (MSTATUS_SIE OR MSTATUS_SPP);
          m6 = m5 OR flag_if (bit m5 5 \<and> \<not> bit m5 24) MSTATUS_SIE
      in m6 AND NOT MSTATUS_SPIE OR flag_if (bit flags 1) MSTATUS_SPIE OR flag_if (bit flags 0) MSTATUS_SPP)"

definition sse_complete ::
  "platform \<Rightarrow> nat \<Rightarrow> trap_regs \<Rightarrow> 'a sse_world_scheme \<Rightarrow> bool \<times> trap_regs \<times> 'a sse_world_scheme" where
  "sse_complete p self regs s =
     (case top_event p self SSE_STATE_RUNNING s of
        None \<Rightarrow> (False, regs, s)
      | Some r \<Rightarrow>
          let c = hart_csrs s self; e = event r s; flags = ev_attr e SSE_ATTR_INTERRUPTED_FLAGS;
              c1 = (if m_feat p HART_FEAT_H
                    then csr_write (m_legal p) CSR_HSTATUS (complete_hstatus (csr_read CSR_HSTATUS c) flags) c
                    else c);
              regs1 = gpr_set A7 (ev_attr e SSE_ATTR_INTERRUPTED_A7)
                        (gpr_set A6 (ev_attr e SSE_ATTR_INTERRUPTED_A6)
                           (regs\<lparr>mepc := csr_read CSR_SEPC c, mstatus := complete_mstatus p c flags (mstatus regs)\<rparr>));
              c2 = csr_write (m_legal p) CSR_SEPC (ev_attr e SSE_ATTR_INTERRUPTED_SEPC) c1;
              e1 = attr_set SSE_ATTR_STATUS (if bit (ev_attr e SSE_ATTR_CONFIG) 0
                                             then SSE_STATE_REGISTERED else SSE_STATE_ENABLED) e;
              s1 = event_source_update p self e1 (set_event r e1 (s\<lparr>hart_csrs := (hart_csrs s)(self := c2)\<rparr>));
              s2 = (if ev_id e1 = SSE_EVENT_LOCAL_PMU_OVERFLOW
                    then regs_upd self (pmu_sse_complete (m_legal p) (hart_pmu s1 self)) s1 else s1)
          in (True, regs1, set_kick self True s2))"

definition global_target :: "platform \<Rightarrow> nat \<Rightarrow> sse_event \<Rightarrow> nat \<Rightarrow> 'a sse_world_scheme \<Rightarrow> nat" where
  "global_target p self e key s =
     (let pref = hart_index p (ev_attr e SSE_ATTR_PREFERRED_HART);
          running = hsm_interruptible_mask_of p (doms s ! key) s;
          listens = (\<lambda>h. unmasked (sse_harts s key h) \<and> hartmask_test running h) in
      if pref \<ge> 0 \<and> listens (nat pref) then nat pref
      else if listens self then self
      else case find listens [0..<p_harts p] of
             Some h \<Rightarrow> h
           | None \<Rightarrow> if pref \<ge> 0 then nat pref else if key = this_domain_key s self then self else ev_hart e)"

definition make_pending ::
  "platform \<Rightarrow> nat \<Rightarrow> event_ref \<Rightarrow> nat \<Rightarrow> 'a sse_world_scheme \<Rightarrow> 'a sse_world_scheme" where
  "make_pending p self r key s =
     (let e = (event r s)\<lparr>ev_pending := True\<rparr>;
          e1 = (if is_global (ev_id e) \<and> ev_status e \<noteq> SSE_STATE_RUNNING
                then e\<lparr>ev_hart := global_target p self e key s\<rparr> else e);
          s1 = set_kick (ev_hart e1) True (set_event r e1 s)
      in if ev_hart e1 \<noteq> self then ipi_send p self (ev_hart e1) IPI_EVENT_SSE s1 else s1)"

definition sse_raise_global :: "platform \<Rightarrow> nat \<Rightarrow> u32 \<Rightarrow> nat \<Rightarrow> 'a sse_world_scheme \<Rightarrow> 'a sse_world_scheme" where
  "sse_raise_global p self event_id key s =
     fold (\<lambda>i s. if globals_ready (sse_domains s key) \<and> global_id i = event_id \<and>
                    ev_status (event (Global key i) s) \<noteq> SSE_STATE_UNUSED
                 then make_pending p self (Global key i) key s else s) [0..<NR_GLOBAL p] s"

definition sse_raise_local :: "platform \<Rightarrow> nat \<Rightarrow> u32 \<Rightarrow> 'a sse_world_scheme \<Rightarrow> bool \<times> 'a sse_world_scheme" where
  "sse_raise_local p self event_id s =
     (case event_find p s self (ucast event_id) self of
        Inl rc \<Rightarrow> (False, s)
      | Inr r \<Rightarrow>
          (unmasked (sse_harts s (this_domain_key s self) self) \<and> ev_status (event r s) \<ge> SSE_STATE_ENABLED,
           if ev_status (event r s) \<noteq> SSE_STATE_UNUSED
           then make_pending p self r (this_domain_key s self) s else s))"

definition sse_inject ::
  "platform \<Rightarrow> nat \<Rightarrow> ulong \<Rightarrow> ulong \<Rightarrow> 'a sse_world_scheme \<Rightarrow> sbi \<times> 'a sse_world_scheme" where
  "sse_inject p self event_id hid s =
     (if event_id > 0xffffffff then (SBI_ERR_INVALID_PARAM, s)
      else
        let global = is_global (ucast event_id); hid1 = if global then hartid (harts s self) else hid in
        if \<not> global \<and> (\<not> hart_valid p s hid \<or> \<not> domain_hart_member (this_domain s self) (nat (hart_index p hid)))
        then (SBI_ERR_INVALID_PARAM, s)
        else case event_find p s self event_id (nat (hart_index p hid1)) of
               Inl rc \<Rightarrow> (rc, s)
             | Inr r \<Rightarrow>
                 if \<not> event_injectable (ev_id (event r s)) then (SBI_ERR_INVALID_PARAM, s)
                 else (SBI_SUCCESS, make_pending p self r (this_domain_key s self) s))"

definition transition ::
  "platform \<Rightarrow> nat \<Rightarrow> ulong \<Rightarrow> ulong \<Rightarrow> ulong \<Rightarrow> 'a sse_world_scheme \<Rightarrow> sbi \<times> 'a sse_world_scheme" where
  "transition p self event_id from to s =
     (case event_find p s self event_id self of
        Inl rc \<Rightarrow> (rc, s)
      | Inr r \<Rightarrow>
          if ev_status (event r s) \<noteq> from then (SBI_ERR_INVALID_STATE, s)
          else
            let e = attr_set SSE_ATTR_STATUS to (event r s);
                s1 = event_source_update p self e (set_event r e s);
                s2 = (if to = SSE_STATE_ENABLED \<and> ev_pending (event r s1)
                      then make_pending p self r (this_domain_key s1 self) s1 else s1);
                s3 = (if to = SSE_STATE_UNUSED
                      then set_event r (event_reset p (ev_id (event r s2)) (ev_hart (event r s2))) s2 else s2)
            in (SBI_SUCCESS, s3))"

definition sse_register ::
  "platform \<Rightarrow> nat \<Rightarrow> ulong \<Rightarrow> ulong \<Rightarrow> ulong \<Rightarrow> 'a sse_world_scheme \<Rightarrow> sbi \<times> 'a sse_world_scheme" where
  "sse_register p self event_id entry_pc entry_arg s =
     (case event_find p s self event_id self of
        Inl rc \<Rightarrow> (rc, s)
      | Inr r \<Rightarrow>
          if bit entry_pc 0 \<or> \<not> smode_entry_ok (m_regions p) (Some (this_domain s self)) entry_pc
          then (SBI_ERR_INVALID_PARAM, s)
          else if ev_status (event r s) \<noteq> SSE_STATE_UNUSED then (SBI_ERR_INVALID_STATE, s)
          else (SBI_SUCCESS, set_event r (attr_set SSE_ATTR_STATUS SSE_STATE_REGISTERED
                 (attr_set SSE_ATTR_ENTRY_ARG entry_arg (attr_set SSE_ATTR_ENTRY_PC entry_pc (event r s)))) s))"

definition sse_unregister :: "platform \<Rightarrow> nat \<Rightarrow> ulong \<Rightarrow> 'a sse_world_scheme \<Rightarrow> sbi \<times> 'a sse_world_scheme" where
  "sse_unregister p self event_id s = transition p self event_id SSE_STATE_REGISTERED SSE_STATE_UNUSED s"

definition sse_enable :: "platform \<Rightarrow> nat \<Rightarrow> ulong \<Rightarrow> 'a sse_world_scheme \<Rightarrow> sbi \<times> 'a sse_world_scheme" where
  "sse_enable p self event_id s = transition p self event_id SSE_STATE_REGISTERED SSE_STATE_ENABLED s"

definition sse_disable :: "platform \<Rightarrow> nat \<Rightarrow> ulong \<Rightarrow> 'a sse_world_scheme \<Rightarrow> sbi \<times> 'a sse_world_scheme" where
  "sse_disable p self event_id s = transition p self event_id SSE_STATE_ENABLED SSE_STATE_REGISTERED s"

definition sse_hart_unmask :: "nat \<Rightarrow> 'a sse_world_scheme \<Rightarrow> sbi \<times> 'a sse_world_scheme" where
  "sse_hart_unmask self s =
     (let key = this_domain_key s self in
      if unmasked (sse_harts s key self) then (SBI_ERR_ALREADY_STARTED, s)
      else (SBI_SUCCESS, set_kick self True (set_unmasked key self True s)))"

definition sse_hart_mask :: "nat \<Rightarrow> 'a sse_world_scheme \<Rightarrow> sbi \<times> 'a sse_world_scheme" where
  "sse_hart_mask self s =
     (let key = this_domain_key s self in
      if \<not> unmasked (sse_harts s key self) then (SBI_ERR_ALREADY_STOPPED, s)
      else (SBI_SUCCESS, set_unmasked key self False s))"

text \<open>Attributes: XLEN-wide values in memory S-mode names; \<open>mem\<close> is what it holds.\<close>

definition attrs_check ::
  "platform \<Rightarrow> nat \<Rightarrow> ulong \<Rightarrow> ulong \<Rightarrow> ulong \<Rightarrow> ulong \<Rightarrow> 'a sse_world_scheme \<Rightarrow> sbi + event_ref" where
  "attrs_check p self event_id base cnt addr s =
     (case event_find p s self event_id self of
        Inl rc \<Rightarrow> Inl rc
      | Inr r \<Rightarrow>
          if cnt = 0 then Inl SBI_ERR_INVALID_PARAM
          else if base \<ge> of_nat SSE_ATTR_COUNT \<or> cnt > of_nat SSE_ATTR_COUNT - base then Inl SBI_ERR_BAD_RANGE
          else if \<not> IS_ALIGNED addr 8 \<or> \<not> smode_range_ok (m_regions p) (Some (this_domain s self)) addr (cnt * 8)
          then Inl SBI_ERR_INVALID_ADDRESS
          else Inr r)"

definition attr_shown :: "sse_event \<Rightarrow> nat \<Rightarrow> ulong" where
  "attr_shown e i =
     (if i = SSE_ATTR_STATUS
      then ev_attr e i OR flag_if (ev_pending e) SSE_STATUS_PENDING OR
           flag_if (event_injectable (ev_id e)) SSE_STATUS_INJECTABLE
      else ev_attr e i)"

definition sse_read_attrs ::
  "platform \<Rightarrow> nat \<Rightarrow> ulong \<Rightarrow> ulong \<Rightarrow> ulong \<Rightarrow> ulong \<Rightarrow> 'a sse_world_scheme \<Rightarrow>
     panic + sbi \<times> ulong list \<times> 'a sse_world_scheme" where
  "sse_read_attrs p self event_id base cnt addr s =
     (case attrs_check p self event_id base cnt addr s of
        Inl rc \<Rightarrow> Inr (rc, [], s)
      | Inr r \<Rightarrow>
          (case with_window p addr (cnt * 8)
                  (\<lambda>c. (map (\<lambda>i. attr_shown (event r s) (unat base + i)) [0..<unat cnt], c)) (hart_csrs s self) of
             Inl q \<Rightarrow> Inl q
           | Inr (vals, c) \<Rightarrow> Inr (SBI_SUCCESS, vals, s\<lparr>hart_csrs := (hart_csrs s)(self := c)\<rparr>)))"

definition attr_write_check :: "platform \<Rightarrow> nat \<Rightarrow> sse_event \<Rightarrow> nat \<Rightarrow> ulong \<Rightarrow> 'a sse_world_scheme \<Rightarrow> sbi" where
  "attr_write_check p self e i val s =
     (let state = ev_status e; idle = (state = SSE_STATE_UNUSED \<or> state = SSE_STATE_REGISTERED);
          if_idle = (if idle then SBI_SUCCESS else SBI_ERR_INVALID_STATE);
          if_running = (if state = SSE_STATE_RUNNING \<and> ev_hart e = self then SBI_SUCCESS else SBI_ERR_INVALID_STATE) in
      if i = SSE_ATTR_PRIORITY then if val > 0xffffffff then SBI_ERR_INVALID_PARAM else if_idle
      else if i = SSE_ATTR_CONFIG then
        if val AND NOT SSE_CONFIG_ONESHOT \<noteq> 0 then SBI_ERR_INVALID_PARAM else if_idle
      else if i = SSE_ATTR_PREFERRED_HART then
        if \<not> is_global (ev_id e) then SBI_ERR_DENIED
        else if \<not> hart_valid p s val then SBI_ERR_INVALID_PARAM else if_idle
      else if i = SSE_ATTR_INTERRUPTED_FLAGS then
        if val AND NOT INT_FLAGS_VALID \<noteq> 0 then SBI_ERR_INVALID_PARAM else if_running
      else if i = SSE_ATTR_INTERRUPTED_SEPC \<or> i = SSE_ATTR_INTERRUPTED_A6 \<or> i = SSE_ATTR_INTERRUPTED_A7
      then if_running
      else SBI_ERR_DENIED)"

fun check_all :: "platform \<Rightarrow> nat \<Rightarrow> sse_event \<Rightarrow> nat \<Rightarrow> ulong list \<Rightarrow> 'a sse_world_scheme \<Rightarrow> sbi" where
  "check_all p self e i [] s = SBI_SUCCESS"
| "check_all p self e i (v # vs) s =
     (let rc = attr_write_check p self e i v s in
      if rc \<noteq> SBI_SUCCESS then rc else check_all p self e (Suc i) vs s)"

fun write_all :: "nat \<Rightarrow> ulong list \<Rightarrow> sse_event \<Rightarrow> sse_event" where
  "write_all i [] e = e"
| "write_all i (v # vs) e = write_all (Suc i) vs (attr_set i v e)"

definition sse_write_attrs ::
  "platform \<Rightarrow> (ulong \<Rightarrow> ulong) \<Rightarrow> nat \<Rightarrow> ulong \<Rightarrow> ulong \<Rightarrow> ulong \<Rightarrow> ulong \<Rightarrow> 'a sse_world_scheme \<Rightarrow>
     panic + sbi \<times> 'a sse_world_scheme" where
  "sse_write_attrs p mem self event_id base cnt addr s =
     (case attrs_check p self event_id base cnt addr s of
        Inl rc \<Rightarrow> Inr (rc, s)
      | Inr r \<Rightarrow>
          (case with_window p addr (cnt * 8)
                  (\<lambda>c. (map (\<lambda>i. mem (addr + of_nat i * 8)) [0..<unat cnt], c)) (hart_csrs s self) of
             Inl q \<Rightarrow> Inl q
           | Inr (vals, c) \<Rightarrow>
               let s1 = s\<lparr>hart_csrs := (hart_csrs s)(self := c)\<rparr>;
                   rc = check_all p self (event r s1) (unat base) vals s1 in
               if rc \<noteq> SBI_SUCCESS then Inr (rc, s1)
               else Inr (SBI_SUCCESS, set_event r (write_all (unat base) vals (event r s1)) s1)))"

section \<open>RAS interrupts\<close>

definition ras_irq :: "platform \<Rightarrow> nat \<Rightarrow> nat \<Rightarrow> 'a sse_world_scheme \<Rightarrow> bool \<times> 'a sse_world_scheme" where
  "ras_irq p self irq s =
     (if irq \<noteq> IRQ_RAS_HIGH \<and> irq \<noteq> IRQ_RAS_LOW then (False, s)
      else let eid = (if irq = IRQ_RAS_HIGH then SSE_EVENT_LOCAL_HIGH_RAS else SSE_EVENT_LOCAL_LOW_RAS) in
        (True, snd (sse_raise_local p self eid (regs_upd self (csr_clear (m_legal p) CSR_MIE (BIT irq)) s))))"

definition ras_report :: "platform \<Rightarrow> nat \<Rightarrow> ras_kind \<Rightarrow> 'a sse_world_scheme \<Rightarrow> 'a sse_world_scheme" where
  "ras_report p self kind s =
     (if \<not> bit (sources s) (ras_code kind) then s
      else if kind = RAS_LOCAL_HIGH \<or> kind = RAS_LOCAL_LOW then snd (sse_raise_local p self (event_ids kind) s)
      else fold (\<lambda>key. sse_raise_global p self (event_ids kind) key) [0..<length (doms s)] s)"

end
