(* ===== verification/Events.thy ===== *)
theory Events
  imports Sse
begin

text \<open>
  What supervisor software events guarantee: a delivered event and its completion give the
  interrupted code its registers back, handlers nested in between or not; the monitor never
  sends a hart to a handler its domain could not execute; writing attributes is all or
  nothing and cannot touch the ones S-mode must not write; what one domain does with its
  events leaves those of the others alone.
\<close>

section \<open>Which event is the top one\<close>

text \<open>Lower value first, then lower event id: a strict order, total where the ids differ.\<close>

lemma outranks_irrefl: "\<not> outranks a a"
  by (simp add: outranks_def)

lemma outranks_trans: "outranks a b \<Longrightarrow> outranks b c \<Longrightarrow> outranks a c"
  by (auto simp: outranks_def split: if_splits)

lemma outranks_total: "ev_id a \<noteq> ev_id b \<Longrightarrow> outranks a b \<or> outranks b a"
  by (auto simp: outranks_def)

lemma outranks_asym: "outranks a b \<Longrightarrow> \<not> outranks b a"
  using outranks_trans outranks_irrefl by blast

definition ids_differ :: "'a sse_world_scheme \<Rightarrow> event_ref set \<Rightarrow> bool" where
  "ids_differ s R \<longleftrightarrow> inj_on (\<lambda>r. ev_id (event r s)) R"

definition tops :: "'a sse_world_scheme \<Rightarrow> event_ref set \<Rightarrow> event_ref \<Rightarrow> bool" where
  "tops s R r \<longleftrightarrow> r \<in> R \<and> (\<forall>r'\<in>R. r' \<noteq> r \<longrightarrow> outranks (event r s) (event r' s))"

definition due_refs :: "platform \<Rightarrow> nat \<Rightarrow> ulong \<Rightarrow> 'a sse_world_scheme \<Rightarrow> event_ref set" where
  "due_refs p self state s =
     {r \<in> set (hart_events p (this_domain_key s self) self). event_due self state (event r s)}"

definition better :: "'a sse_world_scheme \<Rightarrow> event_ref option \<Rightarrow> event_ref \<Rightarrow> event_ref option" where
  "better s best r =
     (case best of None \<Rightarrow> Some r | Some b \<Rightarrow> if outranks (event r s) (event b s) then Some r else best)"

lemma tops_insert:
  assumes "tops s R b" and "ids_differ s (insert r R)" and "r \<notin> R"
  shows "tops s (insert r R) (if outranks (event r s) (event b s) then r else b)"
proof (cases "outranks (event r s) (event b s)")
  case True
  then show ?thesis using assms(1) outranks_trans by (auto simp: tops_def)
next
  case False
  have "ev_id (event r s) \<noteq> ev_id (event b s)"
    using assms by (auto simp: tops_def ids_differ_def inj_on_def)
  then show ?thesis using False assms(1) outranks_total by (auto simp: tops_def)
qed

lemma foldl_better:
  assumes "ids_differ s (R \<union> set rs)" and "distinct rs" and "R \<inter> set rs = {}"
    and "case best of None \<Rightarrow> R = {} | Some b \<Rightarrow> tops s R b"
  shows "case foldl (better s) best rs of None \<Rightarrow> R \<union> set rs = {} | Some b \<Rightarrow> tops s (R \<union> set rs) b"
  using assms
proof (induction rs arbitrary: R best)
  case (Cons r rs)
  have "case better s best r of None \<Rightarrow> insert r R = {} | Some b \<Rightarrow> tops s (insert r R) b"
  proof (cases best)
    case None
    then show ?thesis using Cons.prems by (simp add: better_def tops_def)
  next
    case (Some b)
    have "ids_differ s (insert r R)"
      using Cons.prems(1) by (auto simp: ids_differ_def inj_on_def)
    then have "tops s (insert r R) (if outranks (event r s) (event b s) then r else b)"
      using Some Cons.prems by (intro tops_insert) auto
    then show ?thesis using Some by (auto simp: better_def split: if_splits)
  qed
  then have "case foldl (better s) (better s best r) rs of None \<Rightarrow> insert r R \<union> set rs = {}
      | Some b \<Rightarrow> tops s (insert r R \<union> set rs) b"
    using Cons.prems by (intro Cons.IH) auto
  moreover have "insert r R \<union> set rs = R \<union> set (r # rs)" by auto
  ultimately show ?case by (simp only: foldl_Cons)
qed (auto split: option.splits)

lemma top_event_foldl:
  "top_event p self state s =
     foldl (better s) None (filter (\<lambda>r. event_due self state (event r s))
       (hart_events p (this_domain_key s self) self))"
proof -
  have "foldl (\<lambda>best r. if \<not> event_due self state (event r s) then best
         else case best of None \<Rightarrow> Some r
              | Some b \<Rightarrow> if outranks (event r s) (event b s) then Some r else best) best rs =
      foldl (better s) best (filter (\<lambda>r. event_due self state (event r s)) rs)" for best rs
    by (induction rs arbitrary: best) (auto simp: better_def)
  then show ?thesis by (simp add: top_event_def)
qed

lemma distinct_hart_events: "distinct (hart_events p key self)"
  by (auto simp: hart_events_def distinct_map inj_on_def)

lemma tops_unique: "tops s R a \<Longrightarrow> tops s R b \<Longrightarrow> a = b"
  unfolding tops_def by (metis outranks_asym)

lemma top_event_iff:
  assumes "ids_differ s (set (hart_events p (this_domain_key s self) self))"
  shows "top_event p self state s = Some r \<longleftrightarrow> tops s (due_refs p self state s) r"
    and "top_event p self state s = None \<longleftrightarrow> due_refs p self state s = {}"
proof -
  let ?rs = "filter (\<lambda>r. event_due self state (event r s)) (hart_events p (this_domain_key s self) self)"
  have set: "set ?rs = due_refs p self state s" by (auto simp: due_refs_def)
  have "ids_differ s (set ?rs)"
    using assms by (auto simp: ids_differ_def intro: inj_on_subset)
  then have "case foldl (better s) None ?rs of None \<Rightarrow> {} \<union> set ?rs = {} | Some b \<Rightarrow> tops s ({} \<union> set ?rs) b"
    using distinct_hart_events by (intro foldl_better) simp_all
  then have t: "case top_event p self state s of None \<Rightarrow> due_refs p self state s = {}
      | Some b \<Rightarrow> tops s (due_refs p self state s) b"
    by (simp only: top_event_foldl set Un_empty_left)
  show "top_event p self state s = Some r \<longleftrightarrow> tops s (due_refs p self state s) r"
    using t tops_unique by (auto simp: tops_def split: option.splits)
  show "top_event p self state s = None \<longleftrightarrow> due_refs p self state s = {}"
    using t by (auto simp: tops_def split: option.splits)
qed

section \<open>Delivery and completion undo each other\<close>

lemma bit_flag_if: "bit (flag_if b v) n \<longleftrightarrow> b \<and> bit v n"
  by (simp add: flag_if_def)

lemma bit_MPP: "bit MSTATUS_MPP n \<longleftrightarrow> n = 11 \<or> n = 12"
proof -
  have m: "MSTATUS_MPP = BIT 11 OR BIT 12" by (simp add: MSTATUS_MPP_def BIT_def)
  show ?thesis unfolding m by (auto simp: bit_or_iff bit_BIT)
qed

lemma bit_S_MPP: "bit (mpp_of PRV_S) n \<longleftrightarrow> n = 11"
proof -
  have "mpp_of PRV_S = BIT 11" by (simp add: mpp_of_def BIT_def)
  then show ?thesis by (auto simp: bit_BIT)
qed

lemma MPP_is_S: "get_field_ul m MSTATUS_MPP = PRV_S \<longleftrightarrow> bit m 11 \<and> \<not> bit m 12"
proof -
  have "get_field_ul m MSTATUS_MPP = drop_bit 11 (m AND MSTATUS_MPP)"
    by (simp add: get_field_ul_def drop_bit_eq_div MSTATUS_MPP_def)
  moreover define x where "x = drop_bit 11 (m AND MSTATUS_MPP)"
  have b: "bit x n \<longleftrightarrow> n = 0 \<and> bit m 11 \<or> n = 1 \<and> bit m 12" for n
    unfolding x_def bit_drop_bit_eq comp_def bit_and_iff bit_MPP by auto
  have "x = 1 \<longleftrightarrow> bit m 11 \<and> \<not> bit m 12"
  proof
    assume "x = 1"
    then show "bit m 11 \<and> \<not> bit m 12" using b [of 0] b [of 1] by (simp add: bit_1_iff)
  next
    assume "bit m 11 \<and> \<not> bit m 12"
    then show "x = 1" by (intro bit_word_eqI) (auto simp: b bit_1_iff)
  qed
  ultimately show ?thesis by (simp add: x_def)
qed

lemmas status_bits = bit_or_iff bit_and_iff bit_not_iff bit_BIT bit_flag_if bit_MPP bit_S_MPP

lemma bit_inject_flags:
  "bit (inject_flags p c m) 0 \<longleftrightarrow> bit m 8"
  "bit (inject_flags p c m) 1 \<longleftrightarrow> bit m 5"
  "bit (inject_flags p c m) 2 \<longleftrightarrow> m_feat p HART_FEAT_H \<and> bit (csr_read CSR_HSTATUS c) 7"
  "bit (inject_flags p c m) 3 \<longleftrightarrow> m_feat p HART_FEAT_H \<and> bit (csr_read CSR_HSTATUS c) 8"
  "bit (inject_flags p c m) 5 \<longleftrightarrow> hart_smode_double_trap_enabled p c \<and> bit m 24"
  by (simp_all add: inject_flags_def status_bits)

lemma complete_inject_hstatus:
  assumes "bit flags 2 \<longleftrightarrow> bit h 7" "bit flags 3 \<longleftrightarrow> bit h 8"
  shows "complete_hstatus (inject_hstatus h virt from_s) flags = h"
  by (rule bit_word_eqI) (use assms in \<open>auto simp: complete_hstatus_def inject_hstatus_def Let_def status_bits\<close>)

lemma bit_inject_mstatus:
  "bit (inject_mstatus p c m) 5 \<longleftrightarrow> bit m 1"
  "bit (inject_mstatus p c m) 8 \<longleftrightarrow> bit m 11 \<and> \<not> bit m 12"
  "bit (inject_mstatus p c m) 39 \<longleftrightarrow> bit m 39 \<and> \<not> m_feat p HART_FEAT_H"
  "bit (inject_mstatus p c m) 11" "\<not> bit (inject_mstatus p c m) 12"
  "n < 64 \<Longrightarrow> n \<notin> {1, 5, 8, 11, 12, 24, 39} \<Longrightarrow> bit (inject_mstatus p c m) n \<longleftrightarrow> bit m n"
  by (auto simp add: inject_mstatus_def Let_def status_bits MPP_is_S)

lemma bit_inject_mstatus_sdt:
  "\<not> hart_smode_double_trap_enabled p c \<Longrightarrow> bit (inject_mstatus p c m) 24 \<longleftrightarrow> bit m 24"
  by (simp add: inject_mstatus_def Let_def status_bits)

lemma bit_complete_mstatus:
  "bit (complete_mstatus p c flags m) 1 \<longleftrightarrow>
     bit m 5 \<and> \<not> (if hart_smode_double_trap_enabled p c then bit flags 5 else bit m 24)"
  "bit (complete_mstatus p c flags m) 5 \<longleftrightarrow> bit flags 1"
  "bit (complete_mstatus p c flags m) 8 \<longleftrightarrow> bit flags 0"
  "bit (complete_mstatus p c flags m) 11 \<longleftrightarrow> bit m 8"
  "\<not> bit (complete_mstatus p c flags m) 12"
  "bit (complete_mstatus p c flags m) 24 \<longleftrightarrow>
     (if hart_smode_double_trap_enabled p c then bit flags 5 else bit m 24)"
  "bit (complete_mstatus p c flags m) 39 \<longleftrightarrow> bit m 39 \<or> m_feat p HART_FEAT_H \<and> bit (csr_read CSR_HSTATUS c) 7"
  "n < 64 \<Longrightarrow> n \<notin> {1, 5, 8, 11, 12, 24, 39} \<Longrightarrow> bit (complete_mstatus p c flags m) n \<longleftrightarrow> bit m n"
  by (auto simp add: complete_mstatus_def Let_def status_bits)

lemma complete_inject_mstatus:
  assumes same: "\<And>n. n \<notin> {1, 11, 12, 24} \<Longrightarrow> bit m' n \<longleftrightarrow> bit (inject_mstatus p c m) n"
    and dte: "hart_smode_double_trap_enabled p c' = hart_smode_double_trap_enabled p c"
      "\<not> hart_smode_double_trap_enabled p c \<Longrightarrow> bit m' 24 \<longleftrightarrow> bit m 24"
    and spv: "m_feat p HART_FEAT_H \<Longrightarrow> bit (csr_read CSR_HSTATUS c') 7 \<longleftrightarrow> bit m 39"
    and low: "\<not> bit m 12" and sdt: "\<not> (bit m 1 \<and> bit m 24)"
  shows "complete_mstatus p c' (inject_flags p c m) m' = m"
proof (rule bit_word_eqI)
  fix n assume "n < LENGTH(64)"
  then have "n < 64" by simp
  consider "n = 1" | "n = 5" | "n = 8" | "n = 11" | "n = 12" | "n = 24" | "n = 39"
    | "n \<notin> {1, 5, 8, 11, 12, 24, 39}" by blast
  then show "bit (complete_mstatus p c' (inject_flags p c m) m') n \<longleftrightarrow> bit m n"
  proof cases
    case 1
    then show ?thesis using same [of 5] dte sdt unfolding 1
      by (cases "hart_smode_double_trap_enabled p c")
         (simp_all del: One_nat_def add: bit_complete_mstatus bit_inject_mstatus bit_inject_flags, blast+)
  next
    case 7
    then show ?thesis using same [of 39] spv by (auto simp: bit_complete_mstatus bit_inject_mstatus)
  next
    case 8
    then show ?thesis using same [of n] \<open>n < 64\<close> by (simp add: bit_complete_mstatus bit_inject_mstatus)
  qed (use same [of 8] dte low in
       \<open>simp_all del: One_nat_def add: bit_complete_mstatus bit_inject_mstatus bit_inject_flags\<close>)
qed

section \<open>Events and their places\<close>

lemma event_set_event [simp]: "event r (set_event r' e s) = (if r = r' then e else event r s)"
  by (cases r; cases r') auto

lemma event_other [simp]:
  "event r (s\<lparr>hart_csrs := x\<rparr>) = event r s" "event r (s\<lparr>hart_pmu := u\<rparr>) = event r s"
  "event r (set_kick h v s) = event r s" "event r (set_unmasked k h v s) = event r s"
  "event r (regs_upd h f s) = event r s" "event r (fw_event ev h s) = event r s"
  "event r (s\<lparr>ipi_pending := y\<rparr>) = event r s" "event r (s\<lparr>ipi_line := l\<rparr>) = event r s"
  by (cases r; auto simp: set_kick_def set_unmasked_def regs_upd_def fw_event_def)+

lemma set_event_other [simp]:
  "harts (set_event r e s) = harts s" "doms (set_event r e s) = doms s" "hart_csrs (set_event r e s) = hart_csrs s"
  "hart_pmu (set_event r e s) = hart_pmu s" "unmasked (sse_harts (set_event r e s) k h) = unmasked (sse_harts s k h)"
  by (cases r; simp)+

lemma set_event_key [simp]:
  "k \<noteq> ref_key r \<Longrightarrow> sse_harts (set_event r e s) k = sse_harts s k"
  "k \<noteq> ref_key r \<Longrightarrow> sse_domains (set_event r e s) k = sse_domains s k"
  "globals_ready (sse_domains (set_event r e s) k) = globals_ready (sse_domains s k)"
  by (cases r; simp)+

declare set_event.simps [simp del]

lemma set_unmasked_other [simp]:
  "harts (set_unmasked k h v s) = harts s" "doms (set_unmasked k h v s) = doms s"
  "sse_domains (set_unmasked k h v s) = sse_domains s"
  "k' \<noteq> k \<Longrightarrow> sse_harts (set_unmasked k h v s) k' = sse_harts s k'"
  by (simp_all add: set_unmasked_def)

lemma set_kick_other [simp]:
  "harts (set_kick h v s) = harts s" "doms (set_kick h v s) = doms s" "hart_csrs (set_kick h v s) = hart_csrs s"
  "sse_harts (set_kick h v s) = sse_harts s" "sse_domains (set_kick h v s) = sse_domains s"
  by (simp_all add: set_kick_def)

text \<open>The events of an initialised hart have the ids of the tables, which all differ.\<close>

definition named :: "platform \<Rightarrow> nat \<Rightarrow> nat \<Rightarrow> 'a sse_world_scheme \<Rightarrow> bool" where
  "named p key h s \<longleftrightarrow>
     (\<forall>i<NR_LOCAL. ev_id (event (Local key h i) s) = local_ids ! i) \<and>
     (\<forall>i<NR_GLOBAL p. ev_id (event (Global key i) s) = global_id i)"

lemma unat_global_id: "i - 3 \<le> 4096 \<Longrightarrow> \<not> i < 3 \<Longrightarrow> unat (global_id i) = 0x10c000 + (i - 3)"
  by (simp add: global_id_def unat_word_ariths unat_of_nat)

lemma less_NR_LOCAL: "i < NR_LOCAL \<longleftrightarrow> i = 0 \<or> i = 1 \<or> i = 2 \<or> i = 3 \<or> i = 4"
  by auto

lemma unat_fixed_ids:
  "i < NR_LOCAL \<Longrightarrow> unat (local_ids ! i) \<in> {0, 1, 0x10000, 0x100000, 0xffff0000}"
  "i < 3 \<Longrightarrow> unat (global_id i) \<in> {0x8000, 0x108000, 0xffff8000}"
  unfolding less_NR_LOCAL by (auto simp: local_ids_def global_id_def global_ids_def less_Suc_eq numeral_3_eq_3)

lemma local_ids_inj: "i < NR_LOCAL \<Longrightarrow> j < NR_LOCAL \<Longrightarrow> local_ids ! i = local_ids ! j \<Longrightarrow> i = j"
proof -
  have "distinct local_ids" "length local_ids = 5" by (simp_all add: local_ids_def)
  then show "i < NR_LOCAL \<Longrightarrow> j < NR_LOCAL \<Longrightarrow> local_ids ! i = local_ids ! j \<Longrightarrow> i = j"
    by (simp add: nth_eq_iff_index_eq)
qed

lemma global_ids_inj: "i < 3 \<Longrightarrow> j < 3 \<Longrightarrow> global_id i = global_id j \<Longrightarrow> i = j"
proof -
  have "distinct global_ids" "length global_ids = 3" by (simp_all add: global_ids_def)
  then show "i < 3 \<Longrightarrow> j < 3 \<Longrightarrow> global_id i = global_id j \<Longrightarrow> i = j"
    by (simp add: global_id_def nth_eq_iff_index_eq)
qed

text \<open>The ids of MPXY are in a range of their own.\<close>

lemma mpxy_id_range:
  assumes "MPXY_SSE_EVENTS (m_cfg p) \<le> 4096" "j < NR_GLOBAL p" "\<not> j < 3"
  shows "0x10c000 \<le> unat (global_id j) \<and> unat (global_id j) < 0x10d000"
  using unat_global_id [of j] assms by (simp add: NR_GLOBAL_def)

lemma fixed_id_range:
  "i < NR_LOCAL \<Longrightarrow> \<not> (0x10c000 \<le> unat (local_ids ! i) \<and> unat (local_ids ! i) < 0x10d000)"
  "i < 3 \<Longrightarrow> \<not> (0x10c000 \<le> unat (global_id i) \<and> unat (global_id i) < 0x10d000)"
  using unat_fixed_ids [of i] by auto

lemma global_id_inj:
  assumes "MPXY_SSE_EVENTS (m_cfg p) \<le> 4096" "i < NR_GLOBAL p" "j < NR_GLOBAL p" "global_id i = global_id j"
  shows "i = j"
proof (cases "i < 3")
  case True
  have "j < 3"
  proof (rule ccontr)
    assume "\<not> j < 3"
    then show False
      using mpxy_id_range [OF assms(1,3)] fixed_id_range(2) [OF True] unfolding assms(4) by blast
  qed
  then show ?thesis using global_ids_inj True assms(4) by blast
next
  case False
  have "\<not> j < 3"
  proof
    assume "j < 3"
    then show False
      using mpxy_id_range [OF assms(1,2) False] fixed_id_range(2) unfolding assms(4) by blast
  qed
  moreover have "i - 3 \<le> 4096" "j - 3 \<le> 4096" using assms(1-3) by (simp_all add: NR_GLOBAL_def)
  ultimately have "unat (global_id i) = 0x10c000 + (i - 3)" "unat (global_id j) = 0x10c000 + (j - 3)"
    using False unat_global_id by blast+
  then show ?thesis using False \<open>\<not> j < 3\<close> unfolding assms(4) by linarith
qed

lemma local_global_differ:
  assumes "MPXY_SSE_EVENTS (m_cfg p) \<le> 4096" "i < NR_LOCAL" "j < NR_GLOBAL p"
  shows "local_ids ! i \<noteq> global_id j"
proof (cases "j < 3")
  case True
  show ?thesis
  proof
    assume "local_ids ! i = global_id j"
    then have "unat (global_id j) \<in> {0, 1, 0x10000, 0x100000, 0xffff0000}"
      using unat_fixed_ids(1) [OF assms(2)] by (simp only:)
    then show False using unat_fixed_ids(2) [OF True] by auto
  qed
next
  case False
  show ?thesis
  proof
    assume "local_ids ! i = global_id j"
    then show False using mpxy_id_range [OF assms(1,3) False] fixed_id_range(1) [OF assms(2)] by (simp only: simp_thms)
  qed
qed

lemma named_ids_differ:
  assumes "MPXY_SSE_EVENTS (m_cfg p) \<le> 4096" and "named p key h s"
  shows "ids_differ s (set (hart_events p key h))"
  unfolding ids_differ_def
proof (rule inj_onI)
  fix a b assume "a \<in> set (hart_events p key h)" "b \<in> set (hart_events p key h)"
    and eq: "ev_id (event a s) = ev_id (event b s)"
  then show "a = b"
    using assms local_ids_inj global_id_inj [OF assms(1)] local_global_differ [OF assms(1)]
    by (auto simp: hart_events_def named_def) metis+
qed

section \<open>The round trip\<close>

text \<open>
  What the code relies on in the hardware: SPV and SPVP of \<^verbatim>\<open>hstatus\<close> can be written without
  changing the rest, and \<^verbatim>\<open>sepc\<close> holds any even address.
\<close>

definition sse_hw :: "warl \<Rightarrow> bool" where
  "sse_hw legal \<longleftrightarrow>
     (\<forall>c v. ((\<forall>n<64. n \<noteq> 7 \<and> n \<noteq> 8 \<longrightarrow> (bit v n \<longleftrightarrow> bit (c CSR_HSTATUS) n)) \<longrightarrow> legal c CSR_HSTATUS v = v) \<and>
        (\<not> bit v 0 \<longrightarrow> legal c CSR_SEPC v = v))"

text \<open>
  Code that an event may interrupt: in S- or U-mode, at even addresses, and with S-mode's
  interrupts off while its traps are disabled.
\<close>

definition interrupted_ok :: "trap_regs \<Rightarrow> csrs \<Rightarrow> bool" where
  "interrupted_ok regs c \<longleftrightarrow>
     \<not> bit (mstatus regs) 12 \<and> \<not> (bit (mstatus regs) 1 \<and> bit (mstatus regs) 24) \<and>
     \<not> bit (mepc regs) 0 \<and> \<not> bit (c CSR_SEPC) 0"

text \<open>
  The hart at the end of a handler, as against where the handler was entered: the handler
  has put back what a trap handler puts back, the trap of its last call has changed MPP,
  SIE and SDT of \<^verbatim>\<open>mstatus\<close>, and all handlers that came on top of it have completed.
\<close>

definition at_end :: "platform \<Rightarrow> nat \<Rightarrow> event_ref \<Rightarrow> trap_regs \<Rightarrow> 'a sse_world_scheme \<Rightarrow>
    trap_regs \<Rightarrow> 'a sse_world_scheme \<Rightarrow> 'a sse_world_scheme \<Rightarrow> bool" where
  "at_end p self r regs1 s1 regs2 s2 s \<longleftrightarrow>
     (\<forall>n. n \<notin> {1, 11, 12, 24} \<longrightarrow> (bit (mstatus regs2) n \<longleftrightarrow> bit (mstatus regs1) n)) \<and>
     (\<not> hart_smode_double_trap_enabled p (hart_csrs s1 self) \<longrightarrow>
        (bit (mstatus regs2) 24 \<longleftrightarrow> bit (mstatus regs1) 24)) \<and>
     (\<forall>n \<in> {CSR_SEPC, CSR_HSTATUS, CSR_MENVCFG}. hart_csrs s2 self n = hart_csrs s1 self n) \<and>
     this_domain_key s2 self = this_domain_key s1 self \<and>
     named p (this_domain_key s2 self) self s2 \<and>
     ev_attr (event r s2) = ev_attr (event r s1) \<and> ev_hart (event r s2) = ev_hart (event r s1) \<and>
     ev_id (event r s2) = ev_id (event r s1) \<and>
     (\<forall>r' \<in> due_refs p self SSE_STATE_RUNNING s2. r' \<noteq> r \<longrightarrow>
        r' \<in> due_refs p self SSE_STATE_RUNNING s \<and>
        ev_attr (event r' s2) SSE_ATTR_PRIORITY = ev_attr (event r' s) SSE_ATTR_PRIORITY \<and>
        ev_id (event r' s2) = ev_id (event r' s))"

lemma inject_hstatus_other: "n \<noteq> 7 \<Longrightarrow> n \<noteq> 8 \<Longrightarrow> n < 64 \<Longrightarrow> bit (inject_hstatus h v f) n \<longleftrightarrow> bit h n"
  by (auto simp: inject_hstatus_def Let_def status_bits)

lemma bit_inject_hstatus: "bit (inject_hstatus h v f) 7 \<longleftrightarrow> v"
  by (auto simp: inject_hstatus_def Let_def status_bits)

lemma complete_hstatus_other: "n \<noteq> 7 \<Longrightarrow> n \<noteq> 8 \<Longrightarrow> n < 64 \<Longrightarrow> bit (complete_hstatus h f) n \<longleftrightarrow> bit h n"
  by (auto simp: complete_hstatus_def status_bits)

lemma sse_hw_hstatus:
  "sse_hw legal \<Longrightarrow> (\<And>n. n \<noteq> 7 \<Longrightarrow> n \<noteq> 8 \<Longrightarrow> n < 64 \<Longrightarrow> bit v n \<longleftrightarrow> bit (c CSR_HSTATUS) n) \<Longrightarrow>
   legal c CSR_HSTATUS v = v"
  by (simp add: sse_hw_def)

lemma sse_hw_sepc: "sse_hw legal \<Longrightarrow> \<not> bit v 0 \<Longrightarrow> legal c CSR_SEPC v = v"
  by (simp add: sse_hw_def)

lemma double_trap_cong: "c CSR_MENVCFG = c' CSR_MENVCFG \<Longrightarrow>
    hart_smode_double_trap_enabled p c = hart_smode_double_trap_enabled p c'"
  by (simp add: hart_smode_double_trap_enabled_def csr_read_def)

text \<open>The registers a delivery leaves.\<close>

lemma inject_result:
  assumes "inject p self r regs s = (regs1, s1)" and "sse_hw (m_legal p)" and "interrupted_ok regs (hart_csrs s self)"
  defines "c \<equiv> hart_csrs s self" and "c1 \<equiv> hart_csrs s1 self"
  shows "mstatus regs1 = inject_mstatus p c (mstatus regs)"
    and "mepc regs1 = ev_attr (event r s) SSE_ATTR_ENTRY_PC"
    and "c1 CSR_SEPC = mepc regs" "c1 CSR_MENVCFG = c CSR_MENVCFG"
    and "m_feat p HART_FEAT_H \<Longrightarrow> c1 CSR_HSTATUS =
      inject_hstatus (c CSR_HSTATUS) (bit (mstatus regs) 39) (get_field_ul (mstatus regs) MSTATUS_MPP = PRV_S)"
    and "\<not> m_feat p HART_FEAT_H \<Longrightarrow> c1 CSR_HSTATUS = c CSR_HSTATUS"
    and "ev_attr (event r s1) = (ev_attr (event r s))
      (SSE_ATTR_INTERRUPTED_FLAGS := inject_flags p c (mstatus regs), SSE_ATTR_INTERRUPTED_SEPC := c CSR_SEPC,
       SSE_ATTR_INTERRUPTED_A6 := gpr regs A6, SSE_ATTR_INTERRUPTED_A7 := gpr regs A7,
       SSE_ATTR_STATUS := SSE_STATE_RUNNING)"
    and "ev_hart (event r s1) = ev_hart (event r s)" "ev_id (event r s1) = ev_id (event r s)"
    and "harts s1 = harts s" "r' \<noteq> r \<Longrightarrow> event r' s1 = event r' s"
proof -
  have h: "m_legal p c CSR_HSTATUS (inject_hstatus (c CSR_HSTATUS) v f) = inject_hstatus (c CSR_HSTATUS) v f" for v f
    using assms(2) by (rule sse_hw_hstatus) (rule inject_hstatus_other)
  have e: "m_legal p d CSR_SEPC (mepc regs) = mepc regs" for d
    using assms(2,3) by (intro sse_hw_sepc) (auto simp: interrupted_ok_def)
  note inj = assms(1)[unfolded inject_def Let_def c_def [symmetric], symmetric]
  show "mstatus regs1 = inject_mstatus p c (mstatus regs)"
    "mepc regs1 = ev_attr (event r s) SSE_ATTR_ENTRY_PC"
    "ev_hart (event r s1) = ev_hart (event r s)" "ev_id (event r s1) = ev_id (event r s)"
    "harts s1 = harts s" "r' \<noteq> r \<Longrightarrow> event r' s1 = event r' s"
    using inj by (simp_all add: gpr_set_def)
  show "c1 CSR_SEPC = mepc regs" "c1 CSR_MENVCFG = c CSR_MENVCFG"
    using inj e by (simp_all add: c1_def csr_write_def)
  show "m_feat p HART_FEAT_H \<Longrightarrow> c1 CSR_HSTATUS =
      inject_hstatus (c CSR_HSTATUS) (bit (mstatus regs) 39) (get_field_ul (mstatus regs) MSTATUS_MPP = PRV_S)"
    using inj h by (simp add: c1_def csr_write_def csr_read_def)
  show "\<not> m_feat p HART_FEAT_H \<Longrightarrow> c1 CSR_HSTATUS = c CSR_HSTATUS"
    using inj by (simp add: c1_def csr_write_def)
  show "ev_attr (event r s1) = (ev_attr (event r s))
      (SSE_ATTR_INTERRUPTED_FLAGS := inject_flags p c (mstatus regs), SSE_ATTR_INTERRUPTED_SEPC := c CSR_SEPC,
       SSE_ATTR_INTERRUPTED_A6 := gpr regs A6, SSE_ATTR_INTERRUPTED_A7 := gpr regs A7,
       SSE_ATTR_STATUS := SSE_STATE_RUNNING)"
    using inj by (simp add: csr_write_def csr_read_def)
qed

lemma event_source_update_frame [simp]:
  "event r (event_source_update p self e s) = event r s"
  "harts (event_source_update p self e s) = harts s" "doms (event_source_update p self e s) = doms s"
  by (simp_all add: event_source_update_def ras_event_arm_def regs_upd_def split: prod.split)

lemma event_source_update_csrs:
  assumes "n \<noteq> CSR_MIE" "n \<noteq> CSR_MIP" "n \<noteq> CSR_MIDELEG"
  shows "hart_csrs (event_source_update p self e s) h n = hart_csrs s h n"
  using assms
  by (auto simp: event_source_update_def ras_event_arm_def regs_upd_def pmu_sse_enable_def Let_def csr_defs
      split: prod.split if_split)

lemma outranks_cong:
  "ev_attr a SSE_ATTR_PRIORITY = ev_attr a' SSE_ATTR_PRIORITY \<Longrightarrow> ev_id a = ev_id a' \<Longrightarrow>
   ev_attr b SSE_ATTR_PRIORITY = ev_attr b' SSE_ATTR_PRIORITY \<Longrightarrow> ev_id b = ev_id b' \<Longrightarrow>
   outranks a b = outranks a' b'"
  by (simp add: outranks_def)

text \<open>A delivery delivers the top event, and it outranks every handler that runs.\<close>

lemma process_delivers:
  assumes "sse_process p self regs s = (regs1, s1)"
    and "ids_differ s (set (hart_events p (this_domain_key s self) self))"
    and "ev_status (event r s) = SSE_STATE_ENABLED" "ev_status (event r s1) = SSE_STATE_RUNNING"
  shows "inject p self r regs s = (regs1, s1)" and "r \<in> due_refs p self SSE_STATE_ENABLED s"
    and "r' \<in> due_refs p self SSE_STATE_RUNNING s \<Longrightarrow> outranks (event r s) (event r' s)"
proof -
  have ne: "event r s1 \<noteq> event r s" using assms(3,4) by auto
  obtain nxt where nxt: "top_event p self SSE_STATE_ENABLED s = Some nxt"
    and inj: "inject p self nxt regs s = (regs1, s1)"
    and top: "case top_event p self SSE_STATE_RUNNING s of
      None \<Rightarrow> True | Some running \<Rightarrow> outranks (event nxt s) (event running s)"
    using assms(1) ne by (auto simp: sse_process_def split: if_splits option.splits)
  have "event r' s1 = event r' s" if "r' \<noteq> nxt" for r'
    using inj that by (auto simp: inject_def Let_def)
  then have "nxt = r" using ne by metis
  then show "inject p self r regs s = (regs1, s1)" "r \<in> due_refs p self SSE_STATE_ENABLED s"
    using inj nxt by (simp_all add: top_event_iff [OF assms(2)] tops_def)
  assume r': "r' \<in> due_refs p self SSE_STATE_RUNNING s"
  then obtain b where b: "tops s (due_refs p self SSE_STATE_RUNNING s) b"
    and rb: "outranks (event r s) (event b s)"
    using top top_event_iff [OF assms(2), of SSE_STATE_RUNNING] \<open>nxt = r\<close> by (auto split: option.splits)
  show "outranks (event r s) (event r' s)"
    using b rb r' outranks_trans unfolding tops_def by metis
qed

lemma complete_top:
  assumes "top_event p self SSE_STATE_RUNNING s = Some r" and hw: "sse_hw (m_legal p)"
    and sepc: "\<not> bit (ev_attr (event r s) SSE_ATTR_INTERRUPTED_SEPC) 0"
  defines "c \<equiv> hart_csrs s self" and "flags \<equiv> ev_attr (event r s) SSE_ATTR_INTERRUPTED_FLAGS"
  shows "\<exists>regs3 s3. sse_complete p self regs s = (True, regs3, s3) \<and>
    mepc regs3 = c CSR_SEPC \<and> mstatus regs3 = complete_mstatus p c flags (mstatus regs) \<and>
    gpr regs3 = (gpr regs)(A6 := ev_attr (event r s) SSE_ATTR_INTERRUPTED_A6,
                           A7 := ev_attr (event r s) SSE_ATTR_INTERRUPTED_A7) \<and>
    hart_csrs s3 self CSR_SEPC = ev_attr (event r s) SSE_ATTR_INTERRUPTED_SEPC \<and>
    hart_csrs s3 self CSR_HSTATUS =
      (if m_feat p HART_FEAT_H then complete_hstatus (c CSR_HSTATUS) flags else c CSR_HSTATUS) \<and>
    ev_status (event r s3) \<noteq> SSE_STATE_RUNNING"
proof -
  have h: "m_legal p c CSR_HSTATUS (complete_hstatus (c CSR_HSTATUS) flags) = complete_hstatus (c CSR_HSTATUS) flags"
    using hw by (rule sse_hw_hstatus) (rule complete_hstatus_other)
  have e: "m_legal p d CSR_SEPC (ev_attr (event r s) SSE_ATTR_INTERRUPTED_SEPC) =
      ev_attr (event r s) SSE_ATTR_INTERRUPTED_SEPC" for d
    using hw sepc by (rule sse_hw_sepc)
  have m: "pmu_sse_complete (m_legal p) u d n = d n" if "n \<noteq> CSR_MIE" "n \<noteq> CSR_MIP" for u d n
    using that by (simp add: pmu_sse_complete_def csr_defs)
  show ?thesis
    unfolding sse_complete_def assms(1) option.case Let_def c_def [symmetric] flags_def [symmetric]
    by (auto simp: gpr_set_def attr_set_def event_source_update_csrs regs_upd_def m csr_write_def csr_read_def h e)
qed

text \<open>
  C32. An event does not show in the code it interrupts. When a return from a trap delivers an
  event on a hart, and the handler, having put back what handlers put back, completes it,
  then program counter, \<^verbatim>\<open>mstatus\<close> with the privilege mode, interrupt enable and virtualization
  bits, \<^verbatim>\<open>sepc\<close>, \<^verbatim>\<open>hstatus\<close> and the registers a6 and a7 are what they were at the delivery; no
  matter how many events of higher rank were delivered and completed in between, and which
  handlers this one has interrupted in turn.
\<close>

theorem sse_round_trip:
  assumes hw: "sse_hw (m_legal p)" and small: "MPXY_SSE_EVENTS (m_cfg p) \<le> 4096"
    and ok: "interrupted_ok regs (hart_csrs s self)" and named: "named p (this_domain_key s self) self s"
    and proc: "sse_process p self regs s = (regs1, s1)"
    and del: "ev_status (event r s) = SSE_STATE_ENABLED" "ev_status (event r s1) = SSE_STATE_RUNNING"
    and fin: "at_end p self r regs1 s1 regs2 s2 s"
  shows "\<exists>regs3 s3. sse_complete p self regs2 s2 = (True, regs3, s3) \<and>
    mepc regs3 = mepc regs \<and> mstatus regs3 = mstatus regs \<and>
    gpr regs3 = (gpr regs2)(A6 := gpr regs A6, A7 := gpr regs A7) \<and>
    hart_csrs s3 self CSR_SEPC = hart_csrs s self CSR_SEPC \<and>
    hart_csrs s3 self CSR_HSTATUS = hart_csrs s self CSR_HSTATUS \<and>
    ev_status (event r s3) \<noteq> SSE_STATE_RUNNING"
proof -
  note ids = named_ids_differ [OF small named]
  note d = process_delivers [OF proc ids del]
  note i = inject_result [OF d(1) hw ok]
  have a2: "ev_attr (event r s2) = ev_attr (event r s1)"
    and c2: "hart_csrs s2 self CSR_SEPC = mepc regs" "hart_csrs s2 self CSR_HSTATUS = hart_csrs s1 self CSR_HSTATUS"
      "hart_csrs s2 self CSR_MENVCFG = hart_csrs s self CSR_MENVCFG"
    using fin i(3,4) by (auto simp: at_end_def)
  have dt: "hart_smode_double_trap_enabled p (hart_csrs s2 self) = hart_smode_double_trap_enabled p (hart_csrs s self)"
    "hart_smode_double_trap_enabled p (hart_csrs s1 self) = hart_smode_double_trap_enabled p (hart_csrs s self)"
    by (rule double_trap_cong, use c2(3) i(4) in simp)+
  have key: "this_domain_key s2 self = this_domain_key s self"
    using fin i(10) by (simp add: at_end_def this_domain_key_def)
  have "tops s2 (due_refs p self SSE_STATE_RUNNING s2) r"
    unfolding tops_def
  proof (intro conjI ballI impI)
    show "r \<in> due_refs p self SSE_STATE_RUNNING s2"
      using d(2) fin i(7,8) key by (auto simp: due_refs_def event_due_def at_end_def)
    fix r' assume "r' \<in> due_refs p self SSE_STATE_RUNNING s2" "r' \<noteq> r"
    then have "r' \<in> due_refs p self SSE_STATE_RUNNING s"
      and same: "ev_attr (event r' s2) SSE_ATTR_PRIORITY = ev_attr (event r' s) SSE_ATTR_PRIORITY"
        "ev_id (event r' s2) = ev_id (event r' s)"
      using fin by (auto simp: at_end_def)
    moreover have "ev_attr (event r s2) SSE_ATTR_PRIORITY = ev_attr (event r s) SSE_ATTR_PRIORITY"
      "ev_id (event r s2) = ev_id (event r s)"
      using fin i(7,9) by (auto simp: at_end_def)
    ultimately show "outranks (event r s2) (event r' s2)"
      using d(3) outranks_cong by metis
  qed
  moreover have "named p (this_domain_key s2 self) self s2" using fin unfolding at_end_def by blast
  ultimately have top: "top_event p self SSE_STATE_RUNNING s2 = Some r"
    using top_event_iff(1) [OF named_ids_differ [OF small]] by blast
  have ms: "complete_mstatus p (hart_csrs s2 self) (inject_flags p (hart_csrs s self) (mstatus regs)) (mstatus regs2) =
      mstatus regs"
  proof (rule complete_inject_mstatus)
    show "bit (mstatus regs2) n \<longleftrightarrow> bit (inject_mstatus p (hart_csrs s self) (mstatus regs)) n"
      if "n \<notin> {1, 11, 12, 24}" for n using fin that i(1) by (simp add: at_end_def)
    show "bit (mstatus regs2) 24 \<longleftrightarrow> bit (mstatus regs) 24" if "\<not> hart_smode_double_trap_enabled p (hart_csrs s self)"
      using fin that i(1) dt by (simp add: at_end_def bit_inject_mstatus_sdt)
    show "bit (csr_read CSR_HSTATUS (hart_csrs s2 self)) 7 \<longleftrightarrow> bit (mstatus regs) 39" if "m_feat p HART_FEAT_H"
      using c2(2) i(5) that by (simp add: csr_read_def bit_inject_hstatus)
  qed (use ok dt in \<open>auto simp: interrupted_ok_def\<close>)
  have hs: "m_feat p HART_FEAT_H \<Longrightarrow> complete_hstatus (hart_csrs s2 self CSR_HSTATUS)
      (inject_flags p (hart_csrs s self) (mstatus regs)) = hart_csrs s self CSR_HSTATUS"
    using c2(2) i(5) by (simp add: complete_inject_hstatus bit_inject_flags csr_read_def)
  have "\<not> bit (ev_attr (event r s2) SSE_ATTR_INTERRUPTED_SEPC) 0"
    using ok a2 i(7) by (simp add: interrupted_ok_def)
  from complete_top [OF top hw this, of regs2] show ?thesis
    using a2 i(6,7) c2 ms hs by (auto simp del: fun_upd_apply) (simp_all)
qed

section \<open>What a call can change\<close>

text \<open>An event that is in use has a handler its domain can execute, at an even address.\<close>

definition fine :: "platform \<Rightarrow> domain list \<Rightarrow> nat \<Rightarrow> sse_event \<Rightarrow> bool" where
  "fine p ds key e \<longleftrightarrow> ev_status e \<noteq> SSE_STATE_UNUSED \<longrightarrow>
     \<not> bit (ev_attr e SSE_ATTR_ENTRY_PC) 0 \<and>
     smode_entry_ok (m_regions p) (Some (ds ! key)) (ev_attr e SSE_ATTR_ENTRY_PC)"

text \<open>
  \<open>delta p k s s'\<close>: from s to s' events of domain k alone have changed, they have kept their
  ids, and those that were fine are fine.
\<close>

definition delta :: "platform \<Rightarrow> nat \<Rightarrow> 'a sse_world_scheme \<Rightarrow> 'a sse_world_scheme \<Rightarrow> bool" where
  "delta p k s s' \<longleftrightarrow>
     harts s' = harts s \<and> doms s' = doms s \<and>
     (\<forall>k'. k' \<noteq> k \<longrightarrow> sse_harts s' k' = sse_harts s k' \<and> sse_domains s' k' = sse_domains s k') \<and>
     (\<forall>k'. globals_ready (sse_domains s' k') = globals_ready (sse_domains s k')) \<and>
     (\<forall>r. ev_id (event r s') = ev_id (event r s) \<and>
        (fine p (doms s) (ref_key r) (event r s) \<longrightarrow> fine p (doms s) (ref_key r) (event r s')))"

lemma delta_refl: "delta p k s s"
  by (simp add: delta_def)

lemma delta_trans: "delta p k s s1 \<Longrightarrow> delta p k s1 s2 \<Longrightarrow> delta p k s s2"
  by (simp add: delta_def)

lemma delta_key: "delta p k s s' \<Longrightarrow> this_domain_key s' self = this_domain_key s self"
  by (simp add: delta_def this_domain_key_def)

text \<open>What does not touch the events.\<close>

lemma delta_same:
  "harts s' = harts s \<Longrightarrow> doms s' = doms s \<Longrightarrow> sse_harts s' = sse_harts s \<Longrightarrow> sse_domains s' = sse_domains s \<Longrightarrow>
   delta p k s s'"
proof -
  assume "harts s' = harts s" "doms s' = doms s" and e: "sse_harts s' = sse_harts s" "sse_domains s' = sse_domains s"
  moreover have "event r s' = event r s" for r using e by (cases r) simp_all
  ultimately show "delta p k s s'" by (simp add: delta_def)
qed

lemma delta_set_event:
  assumes "ref_key r = k" "ev_id e = ev_id (event r s)" "fine p (doms s) k (event r s) \<Longrightarrow> fine p (doms s) k e"
  shows "delta p k s (set_event r e s)"
  using assms by (auto simp: delta_def)

lemma delta_kick: "delta p k s (set_kick h v s)"
  by (rule delta_same) (simp_all add: set_kick_def)

lemma delta_csrs: "delta p k s (s\<lparr>hart_csrs := x\<rparr>)" "delta p k s (regs_upd h f s)"
  by (rule delta_same; simp add: regs_upd_def)+

lemma delta_unmasked: "delta p k s (set_unmasked k h v s)"
  by (simp add: delta_def)

lemma delta_source: "delta p k s (event_source_update p' self e s)"
  by (rule delta_same)
     (simp_all add: event_source_update_def ras_event_arm_def regs_upd_def split: prod.split)

lemma delta_ipi: "delta p k s (ipi_send p' h t ev s)"
  by (rule delta_same) (simp_all add: ipi_send_def ipi_raise_def ipi_post_def fw_event_def Let_def)

lemma fine_attrs:
  assumes "ev_attr e' SSE_ATTR_ENTRY_PC = ev_attr e SSE_ATTR_ENTRY_PC"
    and "ev_status e = SSE_STATE_UNUSED \<Longrightarrow> ev_status e' = SSE_STATE_UNUSED"
  shows "fine p ds k e \<Longrightarrow> fine p ds k e'"
  using assms by (auto simp: fine_def)

lemma event_find_key: "event_find p s self ev h = Inr r \<Longrightarrow> ref_key r = this_domain_key s self"
  by (auto simp: event_find_def Let_def split: option.splits if_splits)

lemma delta_make_pending:
  assumes "ref_key r = k"
  shows "delta p k s (make_pending p self r key s)"
proof -
  have "delta p k s (set_event r ((event r s)\<lparr>ev_pending := True, ev_hart := t\<rparr>) s)" for t
    by (rule delta_set_event) (use assms in \<open>auto intro: fine_attrs\<close>)
  moreover have "delta p k s (set_event r ((event r s)\<lparr>ev_pending := True\<rparr>) s)"
    by (rule delta_set_event) (use assms in \<open>auto intro: fine_attrs\<close>)
  ultimately show ?thesis
    unfolding make_pending_def Let_def
    by (auto intro: delta_trans [OF _ delta_kick] delta_trans [OF delta_trans [OF _ delta_kick] delta_ipi])
qed

lemma delta_transition:
  assumes "from \<noteq> SSE_STATE_UNUSED"
  shows "delta p (this_domain_key s self) s (snd (transition p self ev from to s))"
proof (cases "event_find p s self ev self")
  case (Inr r)
  let ?k = "this_domain_key s self" and ?e = "attr_set SSE_ATTR_STATUS to (event r s)"
  note key = event_find_key [OF Inr]
  show ?thesis
  proof (cases "ev_status (event r s) = from")
    case True
    have d0: "delta p ?k s (set_event r ?e s)"
      by (rule delta_set_event) (use key True assms in \<open>auto simp: attr_set_def fine_def\<close>)
    define s1 where "s1 = event_source_update p self ?e (set_event r ?e s)"
    have d1: "delta p ?k s s1" unfolding s1_def using d0 delta_source by (rule delta_trans)
    define s2 where "s2 = (if to = SSE_STATE_ENABLED \<and> ev_pending (event r s1)
                           then make_pending p self r (this_domain_key s1 self) s1 else s1)"
    have d2: "delta p ?k s s2"
      using d1 key by (auto simp: s2_def intro: delta_trans [OF d1 delta_make_pending])
    have "delta p ?k s2 (set_event r (event_reset p (ev_id (event r s2)) (ev_hart (event r s2))) s2)"
      by (rule delta_set_event) (use key in \<open>auto simp: event_reset_def fine_def\<close>)
    moreover have "snd (transition p self ev from to s) =
        (if to = SSE_STATE_UNUSED
         then set_event r (event_reset p (ev_id (event r s2)) (ev_hart (event r s2))) s2 else s2)"
      unfolding transition_def Inr sum.case Let_def s1_def [symmetric] s2_def [symmetric] using True by simp
    ultimately show ?thesis using d2 by (auto intro: delta_trans)
  qed (simp add: transition_def Inr delta_refl)
qed (simp add: transition_def delta_refl)

lemma delta_register: "delta p (this_domain_key s self) s (snd (sse_register p self ev pc arg s))"
proof (cases "event_find p s self ev self")
  case (Inr r)
  note key = event_find_key [OF Inr]
  have "delta p (this_domain_key s self) s (set_event r (attr_set SSE_ATTR_STATUS SSE_STATE_REGISTERED
                 (attr_set SSE_ATTR_ENTRY_ARG arg (attr_set SSE_ATTR_ENTRY_PC pc (event r s)))) s)"
    if "\<not> bit pc 0" "smode_entry_ok (m_regions p) (Some (this_domain s self)) pc"
    by (rule delta_set_event)
       (use key that in \<open>auto simp: attr_set_def fine_def this_domain_key_def this_domain_def\<close>)
  then show ?thesis by (auto simp: sse_register_def Inr delta_refl)
qed (simp add: sse_register_def delta_refl)

lemma delta_inject: "ref_key r = k \<Longrightarrow> ev_status (event r s) \<noteq> SSE_STATE_UNUSED \<Longrightarrow> delta p k s (snd (inject p self r regs s))"
  unfolding inject_def Let_def snd_conv
  by (rule delta_trans [OF delta_csrs(1)], rule delta_set_event) (auto intro: fine_attrs)

lemma hart_events_key: "r \<in> set (hart_events p key h) \<Longrightarrow> ref_key r = key"
  by (auto simp: hart_events_def)

lemma top_event_due:
  assumes "top_event p self state s = Some r"
  shows "ref_key r = this_domain_key s self" and "ev_status (event r s) = state"
proof -
  have *: "foldl (better s) best rs = Some b \<Longrightarrow> b \<in> set rs \<or> best = Some b" for best rs b
    by (induction rs arbitrary: best) (auto simp: better_def split: option.splits if_splits)
  have "r \<in> due_refs p self state s"
    using * [OF assms [unfolded top_event_foldl]] by (auto simp: due_refs_def)
  then show "ref_key r = this_domain_key s self" "ev_status (event r s) = state"
    using hart_events_key by (auto simp: due_refs_def event_due_def)
qed

lemma delta_process: "delta p (this_domain_key s self) s (snd (sse_process p self regs s))"
  by (auto simp: sse_process_def delta_refl delta_kick dest: top_event_due intro!: delta_inject split: option.split)

lemma delta_complete: "delta p (this_domain_key s self) s (snd (snd (sse_complete p self regs s)))"
proof (cases "top_event p self SSE_STATE_RUNNING s")
  case (Some r)
  note top = top_event_due [OF Some]
  have "delta p (this_domain_key s self) (s\<lparr>hart_csrs := x\<rparr>)
      (set_event r (attr_set SSE_ATTR_STATUS st (event r s)) (s\<lparr>hart_csrs := x\<rparr>))" for st x
    by (rule delta_set_event) (use top in \<open>auto simp: attr_set_def intro: fine_attrs\<close>)
  then have "delta p (this_domain_key s self) s
      (event_source_update p self e (set_event r (attr_set SSE_ATTR_STATUS st (event r s)) (s\<lparr>hart_csrs := x\<rparr>)))"
    for st x e
    by (rule delta_trans [OF delta_trans [OF delta_csrs(1)] delta_source])
  then show ?thesis
    by (auto simp: sse_complete_def Some Let_def intro: delta_trans [OF _ delta_kick]
        delta_trans [OF delta_trans [OF _ delta_csrs(2)] delta_kick])
qed (simp add: sse_complete_def delta_refl)

lemma delta_sse_inject: "delta p (this_domain_key s self) s (snd (sse_inject p self ev hid s))"
  by (auto simp: sse_inject_def Let_def delta_refl dest: event_find_key intro!: delta_make_pending split: sum.split)

lemma delta_raise_local: "delta p (this_domain_key s self) s (snd (sse_raise_local p self ev s))"
  by (auto simp: sse_raise_local_def delta_refl dest: event_find_key intro!: delta_make_pending split: sum.split)

lemma delta_mask:
  "delta p (this_domain_key s self) s (snd (sse_hart_mask self s))"
  "delta p (this_domain_key s self) s (snd (sse_hart_unmask self s))"
  by (auto simp: sse_hart_mask_def sse_hart_unmask_def Let_def delta_refl
      intro: delta_unmasked delta_trans [OF delta_unmasked delta_kick])

lemma write_all_other: "i < j \<or> j + length vs \<le> i \<Longrightarrow> ev_attr (write_all j vs e) i = ev_attr e i"
  by (induction j vs e rule: write_all.induct) (auto simp: attr_set_def)

lemma write_all_at: "i < length vs \<Longrightarrow> ev_attr (write_all j vs e) (j + i) = vs ! i"
proof (induction j vs e arbitrary: i rule: write_all.induct)
  case (2 j v vs e)
  then show ?case
    by (cases i) (simp_all add: write_all_other attr_set_def)
qed simp

lemma write_all_more [simp]:
  "ev_id (write_all j vs e) = ev_id e" "ev_hart (write_all j vs e) = ev_hart e"
  "ev_pending (write_all j vs e) = ev_pending e"
  by (induction j vs e rule: write_all.induct) (auto simp: attr_set_def)

lemma check_all_iff:
  "check_all p self e j vs s = SBI_SUCCESS \<longleftrightarrow>
     (\<forall>i<length vs. attr_write_check p self e (j + i) (vs ! i) s = SBI_SUCCESS)"
  by (induction vs arbitrary: j)
     (auto simp: Let_def nth_Cons less_Suc_eq_0_disj split: nat.split)

text \<open>Status, entry point and its argument are never written.\<close>

lemma attr_write_check_fixed:
  "attr_write_check p self e i v s = SBI_SUCCESS \<Longrightarrow> i \<notin> {SSE_ATTR_STATUS, SSE_ATTR_ENTRY_PC, SSE_ATTR_ENTRY_ARG}"
  by (auto simp: attr_write_check_def Let_def split: if_splits)

lemma write_all_fixed:
  assumes "check_all p self e j vs s = SBI_SUCCESS" "i \<in> {SSE_ATTR_STATUS, SSE_ATTR_ENTRY_PC, SSE_ATTR_ENTRY_ARG}"
  shows "ev_attr (write_all j vs e) i = ev_attr e i"
proof (rule write_all_other, rule ccontr)
  assume "\<not> (i < j \<or> j + length vs \<le> i)"
  then have "i - j < length vs" "i = j + (i - j)" by auto
  then show False using assms attr_write_check_fixed unfolding check_all_iff by metis
qed

lemma delta_write_attrs:
  assumes "sse_write_attrs p mem self ev b n a s = Inr (rc, s')"
  shows "delta p (this_domain_key s self) s s'"
proof (cases "attrs_check p self ev b n a s")
  case (Inl rc)
  then show ?thesis using assms by (simp add: sse_write_attrs_def delta_refl)
next
  case (Inr r)
  then have key: "ref_key r = this_domain_key s self"
    by (auto simp: attrs_check_def dest: event_find_key split: sum.splits if_splits)
  have w: "delta p (this_domain_key s self) s (set_event r (write_all j vs (event r s)) (s\<lparr>hart_csrs := x\<rparr>))"
    if "check_all p self (event r s) j vs (s\<lparr>hart_csrs := x\<rparr>) = SBI_SUCCESS" for j vs x
    by (rule delta_trans [OF delta_csrs(1) delta_set_event])
       (use key that write_all_fixed [OF that] in \<open>auto intro: fine_attrs\<close>)
  show ?thesis
    using assms Inr by (auto simp: sse_write_attrs_def Let_def delta_csrs intro: w split: sum.splits if_splits)
qed

lemma delta_read_attrs:
  "sse_read_attrs p self ev b n a s = Inr (rc, vals, s') \<Longrightarrow> delta p (this_domain_key s self) s s'"
  by (auto simp: sse_read_attrs_def delta_refl delta_csrs split: sum.splits)

text \<open>The calls a hart in S-mode can make, and what the monitor does for it on the way.\<close>

inductive sse_call :: "platform \<Rightarrow> nat \<Rightarrow> sse_world \<Rightarrow> sse_world \<Rightarrow> bool" for p self where
  "sse_call p self s (snd (sse_register p self ev pc arg s))"
| "sse_call p self s (snd (sse_unregister p self ev s))"
| "sse_call p self s (snd (sse_enable p self ev s))"
| "sse_call p self s (snd (sse_disable p self ev s))"
| "sse_call p self s (snd (snd (sse_complete p self regs s)))"
| "sse_call p self s (snd (sse_inject p self ev hid s))"
| "sse_call p self s (snd (sse_hart_unmask self s))"
| "sse_call p self s (snd (sse_hart_mask self s))"
| "sse_read_attrs p self ev b n a s = Inr (rc, vals, s') \<Longrightarrow> sse_call p self s s'"
| "sse_write_attrs p mem self ev b n a s = Inr (rc, s') \<Longrightarrow> sse_call p self s s'"
| "sse_call p self s (snd (sse_process p self regs s))"
| "sse_call p self s (snd (sse_raise_local p self lev s))"

lemma delta_call: "sse_call p self s s' \<Longrightarrow> delta p (this_domain_key s self) s s'"
  by (induction rule: sse_call.induct)
     (auto simp: sse_unregister_def sse_enable_def sse_disable_def delta_register delta_complete delta_sse_inject
       delta_mask delta_process delta_raise_local delta_read_attrs delta_write_attrs intro!: delta_transition)

text \<open>
  C35. A domain's events are its own. Whatever call of this extension a hart makes, and
  whatever the monitor delivers on it, the events, masks and flags of every domain but the
  one the hart runs are exactly what they were.
\<close>

theorem sse_domains_apart:
  assumes "sse_call p self s s'" and "k \<noteq> this_domain_key s self"
  shows "sse_harts s' k = sse_harts s k \<and> sse_domains s' k = sse_domains s k"
  using delta_call [OF assms(1)] assms(2) by (simp add: delta_def)

text \<open>
  C34. Writing attributes is all or nothing, and bounded. The call writes only when every
  value is one S-mode may write there and then; an error leaves every event as it was. When
  it succeeds the attributes named have the values that were in memory, all others and all
  other events are as before, and the status, the entry point and its argument of the event
  are not among the ones that changed.
\<close>

theorem sse_write_attrs_atomic:
  assumes "sse_write_attrs p mem self ev base cnt addr s = Inr (rc, s')"
  shows "(rc \<noteq> SBI_SUCCESS \<longrightarrow> (\<forall>r. event r s' = event r s)) \<and>
    (rc = SBI_SUCCESS \<longrightarrow> (\<exists>r. attrs_check p self ev base cnt addr s = Inr r \<and>
       (\<forall>r'. r' \<noteq> r \<longrightarrow> event r' s' = event r' s) \<and>
       (\<forall>i. ev_attr (event r s') i =
          (if unat base \<le> i \<and> i < unat base + unat cnt
           then mem (addr + of_nat (i - unat base) * 8) else ev_attr (event r s) i)) \<and>
       (\<forall>i \<in> {SSE_ATTR_STATUS, SSE_ATTR_ENTRY_PC, SSE_ATTR_ENTRY_ARG}.
          ev_attr (event r s') i = ev_attr (event r s) i)))"
proof (cases "attrs_check p self ev base cnt addr s")
  case (Inl rc')
  then show ?thesis using assms
    by (auto simp: sse_write_attrs_def attrs_check_def event_find_def Let_def split: sum.splits if_splits option.splits)
next
  case (Inr r)
  let ?vals = "map (\<lambda>i. mem (addr + of_nat i * 8)) [0..<unat cnt]"
  obtain c where w: "with_window p addr (cnt * 8) (\<lambda>c. (?vals, c)) (hart_csrs s self) = Inr (?vals, c)"
    using assms Inr by (auto simp: sse_write_attrs_def with_window_def Let_def split: sum.splits prod.splits)
  define s1 where "s1 = s\<lparr>hart_csrs := (hart_csrs s)(self := c)\<rparr>"
  have ev: "event r' s1 = event r' s" for r' by (simp add: s1_def)
  let ?rc = "check_all p self (event r s) (unat base) ?vals s1"
  have res: "rc = ?rc" "s' = (if ?rc = SBI_SUCCESS then set_event r (write_all (unat base) ?vals (event r s)) s1 else s1)"
    using assms by (auto simp: sse_write_attrs_def Inr w Let_def s1_def split: if_splits)
  have at: "ev_attr (write_all (unat base) ?vals (event r s)) i =
      (if unat base \<le> i \<and> i < unat base + unat cnt
       then mem (addr + of_nat (i - unat base) * 8) else ev_attr (event r s) i)" for i
    using write_all_at [of "i - unat base" ?vals "unat base" "event r s"]
      write_all_other [of i "unat base" ?vals "event r s"]
    by (auto simp del: upt_Suc)
  show ?thesis
  proof (cases "?rc = SBI_SUCCESS")
    case True
    have e: "event r s' = write_all (unat base) ?vals (event r s)" using res True by simp
    show ?thesis
    proof (intro conjI impI exI [of _ r])
      show "\<forall>i \<in> {SSE_ATTR_STATUS, SSE_ATTR_ENTRY_PC, SSE_ATTR_ENTRY_ARG}. ev_attr (event r s') i = ev_attr (event r s) i"
        unfolding e using write_all_fixed [OF True] by blast
    qed (use res ev at True Inr e in auto)
  next
    case False
    then show ?thesis using res ev by auto
  qed
qed

section \<open>Reachable states\<close>

lemma delta_fold: "(\<And>i s. delta p k s (f i s)) \<Longrightarrow> delta p k s (fold f is s)"
  by (induction "is" arbitrary: s) (auto simp: delta_refl intro: delta_trans)

lemma delta_raise_global: "delta p k s (sse_raise_global p self ev k s)"
  unfolding sse_raise_global_def
  by (rule delta_fold) (auto simp: delta_refl intro!: delta_make_pending)

lemma delta_ras_sources: "delta p k s (ras_sources_update p' self s)"
  unfolding ras_sources_update_def by (rule delta_fold) (auto simp: delta_refl delta_source)

text \<open>
  What holds of the events at any time: the ones in use have handlers their domain can
  execute, and the global ones of a domain whose first hart has started have their ids.
\<close>

definition sse_inv :: "platform \<Rightarrow> 'a sse_world_scheme \<Rightarrow> bool" where
  "sse_inv p s \<longleftrightarrow>
     (\<forall>r. fine p (doms s) (ref_key r) (event r s)) \<and>
     (\<forall>k. globals_ready (sse_domains s k) \<longrightarrow> (\<forall>i<NR_GLOBAL p. ev_id (event (Global k i) s) = global_id i))"

lemma sse_inv_delta: "delta p k s s' \<Longrightarrow> sse_inv p s \<Longrightarrow> sse_inv p s'"
  by (simp add: sse_inv_def delta_def del: event.simps)

lemma named_delta: "delta p k s s' \<Longrightarrow> named p k' h s \<Longrightarrow> named p k' h s'"
  by (auto simp: named_def delta_def simp del: event.simps)

lemma fold_set_event:
  assumes "inj f"
  shows "event r (fold (\<lambda>i. set_event (f i) (g i)) is s) = (case find (\<lambda>i. f i = r) (rev is) of
     Some i \<Rightarrow> g i | None \<Rightarrow> event r s)"
  by (induction "is" rule: rev_induct) (use assms in \<open>auto simp: inj_def\<close>)

lemma fold_set_event_in:
  "inj f \<Longrightarrow> i \<in> set is \<Longrightarrow> event (f i) (fold (\<lambda>i. set_event (f i) (g i)) is s) = g i"
  by (induction "is" arbitrary: s rule: rev_induct) (auto simp: inj_eq)

lemma fold_set_event_out:
  "r \<notin> f ` set is \<Longrightarrow> event r (fold (\<lambda>i. set_event (f i) (g i)) is s) = event r s"
  by (induction "is" arbitrary: s rule: rev_induct) auto

lemma fold_set_event_more:
  "harts (fold (\<lambda>i. set_event (f i) (g i)) is s) = harts s"
  "doms (fold (\<lambda>i. set_event (f i) (g i)) is s) = doms s"
  "globals_ready (sse_domains (fold (\<lambda>i. set_event (f i) (g i)) is s) k) = globals_ready (sse_domains s k)"
  by (induction "is" arbitrary: s) auto

lemma fine_reset: "fine p ds k (event_reset p' eid h)"
  by (simp add: fine_def event_reset_def)

lemma event_ready [simp]:
  "event r (s\<lparr>sse_domains := (sse_domains s)(k := (sse_domains s k)\<lparr>globals_ready := v\<rparr>)\<rparr>) = event r s"
  by (cases r) auto

text \<open>The first thing a hart does in a domain gives its events their ids.\<close>

lemma init_events:
  assumes "sse_inv p s"
  shows "sse_inv p (sse_hart_init p self s) \<and> named p (this_domain_key s self) self (sse_hart_init p self s) \<and>
    (\<forall>k h. named p k h s \<longrightarrow> named p k h (sse_hart_init p self s))"
proof -
  let ?k = "this_domain_key s self"
  define s2 where "s2 = fold (\<lambda>i. set_event (Local ?k self i) (event_reset p (local_ids ! i) self)) [0..<NR_LOCAL]
    (set_unmasked ?k self False s)"
  define s3 where "s3 = (if globals_ready (sse_domains s2 ?k) then s2
    else fold (\<lambda>i. set_event (Global ?k i) (event_reset p (global_id i) self)) [0..<NR_GLOBAL p] s2)"
  define s4 where "s4 = s3\<lparr>sse_domains := (sse_domains s3)(?k := (sse_domains s3 ?k)\<lparr>globals_ready := True\<rparr>)\<rparr>"
  have same: "harts s4 = harts s" "doms s4 = doms s"
    by (simp_all add: s4_def s3_def s2_def fold_set_event_more)
  have ready: "globals_ready (sse_domains s2 ?k) = globals_ready (sse_domains s ?k)"
    by (simp add: s2_def fold_set_event_more)
  have loc: "event (Local k h i) s4 =
      (if k = ?k \<and> h = self \<and> i < NR_LOCAL then event_reset p (local_ids ! i) self else event (Local k h i) s)" for k h i
  proof -
    have "event (Local k h i) s4 = event (Local k h i) s2"
      by (simp add: s4_def s3_def fold_set_event_out image_iff del: event.simps)
    also have "\<dots> = (if k = ?k \<and> h = self \<and> i < NR_LOCAL then event_reset p (local_ids ! i) self
        else event (Local k h i) s)"
    proof (cases "k = ?k \<and> h = self \<and> i < NR_LOCAL")
      case True
      then show ?thesis unfolding s2_def
        using fold_set_event_in [of "Local ?k self" i "[0..<NR_LOCAL]"] by (auto simp: inj_def simp del: event.simps upt_rec_numeral)
    next
      case False
      then show ?thesis unfolding s2_def
        by (subst fold_set_event_out) (auto simp del: event.simps)
    qed
    finally show ?thesis .
  qed
  have glob: "event (Global k i) s4 =
      (if k = ?k \<and> i < NR_GLOBAL p \<and> \<not> globals_ready (sse_domains s ?k) then event_reset p (global_id i) self
       else event (Global k i) s)" for k i
  proof -
    have s2: "event (Global k i) s2 = event (Global k i) s"
      unfolding s2_def by (subst fold_set_event_out) (auto simp del: event.simps)
    show ?thesis
    proof (cases "k = ?k \<and> i < NR_GLOBAL p \<and> \<not> globals_ready (sse_domains s ?k)")
      case True
      then show ?thesis
        using fold_set_event_in [of "Global ?k" i "[0..<NR_GLOBAL p]"] ready
        by (auto simp: s4_def s3_def inj_def simp del: event.simps)
    next
      case False
      then show ?thesis using s2 ready
        by (auto simp: s4_def s3_def fold_set_event_out image_iff simp del: event.simps)
    qed
  qed
  have gr: "globals_ready (sse_domains s4 k) \<longleftrightarrow> k = ?k \<or> globals_ready (sse_domains s k)" for k
    by (simp add: s4_def s3_def s2_def fold_set_event_more)
  have f: "fine p (doms s) (ref_key r) (event r s)" for r
    using assms unfolding sse_inv_def by blast
  have "fine p (doms s4) (ref_key r) (event r s4)" for r
    using same f [of r] by (cases r) (simp_all add: loc glob fine_reset del: event.simps)
  moreover have gid: "ev_id (event (Global k i) s4) = global_id i"
    if "globals_ready (sse_domains s4 k)" "i < NR_GLOBAL p" for k i
    using that assms gr by (auto simp: glob event_reset_def sse_inv_def simp del: event.simps)
  ultimately have inv: "sse_inv p s4" unfolding sse_inv_def by blast
  have n1: "named p ?k self s4"
    using gid [of ?k] gr by (auto simp: named_def loc event_reset_def simp del: event.simps)
  have n2: "named p k h s4" if "named p k h s" for k h
    using that by (auto simp: named_def loc glob event_reset_def simp del: event.simps)
  have "sse_hart_init p self s = ras_sources_update p self s4"
    unfolding sse_hart_init_def Let_def s4_def s3_def s2_def by (rule refl)
  then show ?thesis
    using inv n1 n2 delta_ras_sources [of p 0 s4 p self] sse_inv_delta named_delta by metis
qed

inductive sse_reach :: "platform \<Rightarrow> sse_world \<Rightarrow> (nat \<times> nat) set \<Rightarrow> bool" for p where
  boot: "(\<And>r. ev_status (event r s) = SSE_STATE_UNUSED) \<Longrightarrow> (\<And>k. \<not> globals_ready (sse_domains s k)) \<Longrightarrow>
    sse_reach p s {}"
| call: "sse_reach p s up \<Longrightarrow> sse_call p self s s' \<Longrightarrow> sse_reach p s' up"
| init: "sse_reach p s up \<Longrightarrow> sse_reach p (sse_hart_init p self s) (insert (this_domain_key s self, self) up)"
| switch_in: "sse_reach p s up \<Longrightarrow> sse_reach p (sse_hart_switch_in p self False s) up"
| global: "sse_reach p s up \<Longrightarrow> sse_reach p (sse_raise_global p self ev k s) up"
| reset: "sse_reach p s up \<Longrightarrow> sse_reach p (sse_domain_reset k s) up"
| other: "sse_reach p s up \<Longrightarrow> sse_harts s' = sse_harts s \<Longrightarrow> sse_domains s' = sse_domains s \<Longrightarrow>
    (\<And>k. regions (doms s' ! k) = regions (doms s ! k)) \<Longrightarrow> sse_reach p s' up"

lemma sse_domain_reset_events [simp]: "event r (sse_domain_reset k s) = event r s"
  by (simp add: sse_domain_reset_def)

lemma sse_reach_inv: "sse_reach p s up \<Longrightarrow> sse_inv p s \<and> (\<forall>(k, h) \<in> up. named p k h s)"
proof (induction rule: sse_reach.induct)
  case (boot s)
  then show ?case by (simp add: sse_inv_def fine_def del: event.simps)
next
  case (call s up self s')
  then show ?case using delta_call sse_inv_delta named_delta by blast
next
  case (init s up self)
  then show ?case using init_events [of p s self] by blast
next
  case (switch_in s up self)
  have "delta p 0 s (sse_hart_switch_in p self False s)"
    by (simp add: sse_hart_switch_in_def delta_trans [OF delta_ras_sources delta_kick])
  then show ?case using switch_in sse_inv_delta named_delta by blast
next
  case (global s up self ev k)
  then show ?case using delta_raise_global sse_inv_delta named_delta by blast
next
  case (reset s up k)
  then show ?case
    by (auto simp: sse_inv_def named_def sse_domain_reset_def simp del: event.simps split: if_splits)
next
  case (other s up s')
  have e: "event r s' = event r s" for r using other.hyps by (cases r) simp_all
  have "fine p (doms s') k x = fine p (doms s) k x" for k x
    using other.hyps(4) by (simp add: fine_def smode_entry_ok_def domain_range_ok_def)
  then show ?case using other by (simp add: sse_inv_def named_def e del: event.simps)
qed

text \<open>
  C33. The monitor sends a hart into an event handler only where its domain may run code. In
  every state reachable by any sequence of event calls, deliveries, hart starts, context
  switches and events raised by the monitor, on all harts and domains: a return from a trap
  either is left alone, or goes to S-mode, at an even address the domain the hart runs has
  execute permission for and the monitor is not at.
\<close>

theorem sse_entry_safe:
  assumes "sse_reach p s up" and "sse_process p self regs s = (regs', s')"
  shows "regs' = regs \<or>
    get_field_ul (mstatus regs') MSTATUS_MPP = PRV_S \<and> \<not> bit (mepc regs') 0 \<and>
    smode_entry_ok (m_regions p) (Some (this_domain s self)) (mepc regs')"
proof (rule disjCI)
  assume "\<not> (get_field_ul (mstatus regs') MSTATUS_MPP = PRV_S \<and> \<not> bit (mepc regs') 0 \<and>
    smode_entry_ok (m_regions p) (Some (this_domain s self)) (mepc regs'))"
  moreover have "get_field_ul (mstatus regs') MSTATUS_MPP = PRV_S \<and> \<not> bit (mepc regs') 0 \<and>
      smode_entry_ok (m_regions p) (Some (this_domain s self)) (mepc regs')"
    if "top_event p self SSE_STATE_ENABLED s = Some r" "inject p self r regs s = (regs', s')" for r
  proof -
    have "fine p (doms s) (this_domain_key s self) (event r s)"
      using sse_reach_inv [OF assms(1)] top_event_due(1) [OF that(1)] unfolding sse_inv_def by metis
    then show ?thesis
      using that(2) top_event_due(2) [OF that(1)]
      by (auto simp: inject_def Let_def gpr_set_def fine_def MPP_is_S bit_inject_mstatus this_domain_def
          this_domain_key_def)
  qed
  ultimately show "regs' = regs"
    using assms(2) by (auto simp: sse_process_def split: if_splits option.splits)
qed

section \<open>An example\<close>

text \<open>A hart registers, enables and raises its software event.\<close>

definition tick_off :: sse_world where
  "tick_off = \<lparr>queues = (\<lambda>h. ring_init), outs = (\<lambda>h. 0), ipi_pending = (\<lambda>h. 0), ipi_line = (\<lambda>h. False),
     hart_csrs = (\<lambda>h n. 0), hart_pmu = (\<lambda>h. demo_slot), fenced = (\<lambda>h. []),
     harts = (\<lambda>h. pair_hart (of_nat h)), doms = [demo_domain\<lparr>possible := [3], assigned := [3]\<rparr>],
     timers = (\<lambda>h. \<lparr>deadline = 0, compare = None\<rparr>),
     sse_harts = (\<lambda>k h. \<lparr>sh_local = (\<lambda>i. event_reset duo 0 0), unmasked = False\<rparr>),
     sse_domains = (\<lambda>k. \<lparr>sd_global = (\<lambda>i. event_reset duo 0 0), globals_ready = False\<rparr>),
     kick = (\<lambda>h. False), sources = 0\<rparr>"

definition tick_up :: sse_world where
  "tick_up = sse_hart_init duo 0 tick_off"

definition tick_set :: "sbi \<times> sse_world" where
  "tick_set = sse_register duo 0 0xffff0000 0x80200000 7 tick_up"

definition tick_due :: sse_world where
  "tick_due = snd (sse_inject duo 0 0xffff0000 0 (snd (sse_hart_unmask 0 (snd (sse_enable duo 0 0xffff0000 (snd tick_set))))))"

definition tick_regs :: trap_regs where
  "tick_regs = \<lparr>gpr = (\<lambda>n. of_nat n), mepc = 0x80300000, mstatus = BIT 1\<rparr>"

definition tick_run :: "trap_regs \<times> sse_world" where
  "tick_run = sse_process duo 0 tick_regs tick_due"

abbreviation tick :: event_ref where "tick \<equiv> Local 0 0 4"

lemma tick_reach: "sse_reach duo tick_due {(0, 0)}"
proof -
  have "sse_reach duo tick_off {}"
  proof (rule sse_reach.boot)
    show "ev_status (event r tick_off) = SSE_STATE_UNUSED" for r
      by (cases r) (simp_all add: tick_off_def event_reset_def)
  qed (simp add: tick_off_def)
  then have "sse_reach duo tick_up (insert (this_domain_key tick_off 0, 0) {})"
    unfolding tick_up_def by (rule sse_reach.init)
  then have "sse_reach duo tick_up {(0, 0)}"
    by (simp add: this_domain_key_def tick_off_def pair_hart_def)
  note sse_reach.call [OF this sse_call.intros(1)]
  note sse_reach.call [OF this sse_call.intros(3)]
  note sse_reach.call [OF this sse_call.intros(7)]
  note sse_reach.call [OF this sse_call.intros(6)]
  then show ?thesis unfolding tick_due_def tick_set_def .
qed

lemma init_harts: "harts (sse_hart_init p self s) = harts s"
proof -
  have "harts (ras_sources_update p self x) = harts x" for x :: "'a sse_world_scheme"
    using delta_ras_sources [of p 0 x p self] by (simp add: delta_def)
  then show ?thesis by (simp add: sse_hart_init_def Let_def fold_set_event_more)
qed

lemma tick_keys: "this_domain_key tick_due 0 = 0" "this_domain_key (snd tick_run) 0 = 0" "this_domain_key tick_up 0 = 0"
proof -
  have 0: "harts tick_up = harts tick_off"
    unfolding tick_up_def by (rule init_harts)
  then have 1: "harts tick_due = harts tick_off"
    using delta_call [OF sse_call.intros(1)] delta_call [OF sse_call.intros(3)]
      delta_call [OF sse_call.intros(7)] delta_call [OF sse_call.intros(6)]
    by (simp add: tick_due_def tick_set_def delta_def)
  then have 2: "harts (snd tick_run) = harts tick_off"
    using delta_call [OF sse_call.intros(11)] by (simp add: tick_run_def delta_def)
  show "this_domain_key tick_due 0 = 0" "this_domain_key (snd tick_run) 0 = 0" "this_domain_key tick_up 0 = 0"
    unfolding this_domain_key_def 0 1 2 by (simp_all add: tick_off_def pair_hart_def)
qed

lemma tick_values:
  "ev_status (event tick tick_due) = SSE_STATE_ENABLED"
  "ev_status (event tick (snd tick_run)) = SSE_STATE_RUNNING"
  "list_all (\<lambda>r. r = tick \<or> ev_status (event r (snd tick_run)) \<noteq> SSE_STATE_RUNNING) (hart_events duo 0 0)"
  "\<not> bit (hart_csrs tick_due 0 CSR_SEPC) 0"
  by code_simp+

lemma tick_named: "named duo 0 0 tick_due" "named duo 0 0 (snd tick_run)"
  using sse_reach_inv [OF tick_reach] sse_reach_inv [OF sse_reach.call [OF tick_reach sse_call.intros(11)]]
  by (auto simp: tick_run_def)

theorem sse_round_trip_witness:
  "\<exists>regs3 s3. sse_complete duo 0 (fst tick_run) (snd tick_run) = (True, regs3, s3) \<and>
     mepc regs3 = 0x80300000 \<and> mstatus regs3 = BIT 1 \<and> gpr regs3 A6 = 16"
proof -
  have hw: "sse_hw (m_legal duo)" by (simp add: sse_hw_def duo_def)
  have "due_refs duo 0 SSE_STATE_RUNNING (snd tick_run) \<subseteq> {tick}"
    using tick_values(3) tick_keys by (auto simp: due_refs_def event_due_def list_all_iff)
  then have "at_end duo 0 tick (fst tick_run) (snd tick_run) (fst tick_run) (snd tick_run) tick_due"
    using tick_keys tick_named by (auto simp: at_end_def)
  moreover have "interrupted_ok tick_regs (hart_csrs tick_due 0)"
    by (simp add: interrupted_ok_def tick_regs_def bit_BIT tick_values)
  ultimately show ?thesis
    using sse_round_trip [OF hw, of tick_regs tick_due 0 "fst tick_run" "snd tick_run" tick "fst tick_run" "snd tick_run"]
      tick_named tick_keys tick_values
    by (auto simp: tick_run_def tick_regs_def duo_def demo_config_def)
qed

theorem sse_domains_apart_witness:
  "sse_call duo 0 tick_up (snd tick_set) \<and> sse_harts (snd tick_set) 1 = sse_harts tick_up 1"
  using sse_domains_apart [of duo 0 tick_up "snd tick_set" 1] sse_call.intros(1) tick_keys
  by (simp add: tick_set_def)

definition tick_write :: "panic + sbi \<times> sse_world" where
  "tick_write = sse_write_attrs duo (\<lambda>_. 5) 0 0xffff0000 1 1 0x80400000 tick_up"

lemma tick_write_ok: "(case tick_write of Inr (rc, s') \<Rightarrow> rc = SBI_SUCCESS | _ \<Rightarrow> False)"
  by code_simp

theorem sse_write_attrs_atomic_witness:
  "\<exists>s' r. tick_write = Inr (SBI_SUCCESS, s') \<and> ev_attr (event r s') SSE_ATTR_PRIORITY = 5 \<and>
     ev_status (event r s') = ev_status (event r tick_up)"
proof -
  obtain s' where w: "tick_write = Inr (SBI_SUCCESS, s')"
    using tick_write_ok by (auto split: sum.splits)
  then obtain r where "\<forall>i. ev_attr (event r s') i = (if 1 \<le> i \<and> i < Suc 1 then 5 else ev_attr (event r tick_up) i)"
    using sse_write_attrs_atomic [OF w [unfolded tick_write_def]] by auto
  then show ?thesis using w by (intro exI [of _ s'] exI [of _ r]) simp
qed

theorem sse_entry_safe_witness:
  "sse_reach duo tick_due {(0, 0)} \<and>
   (fst tick_run = tick_regs \<or> smode_entry_ok (m_regions duo) (Some (this_domain tick_due 0)) (mepc (fst tick_run)))"
  using sse_entry_safe [OF tick_reach, of 0 tick_regs "fst tick_run" "snd tick_run"] tick_reach
  by (auto simp: tick_run_def)

end
