(* ===== verification/Isa.thy ===== *)
theory Isa
  imports Domain
begin

text \<open>
  The extensions the device tree lists (\<^verbatim>\<open>arch/riscv/runtime/isa.c\<close>): the list \<^verbatim>\<open>isa_init\<close> makes
  of the properties, and the search in it. Shown: the search ends, and finds exactly the names.
  A property is the list of its bytes (\<open>prop\<close>), which libfdt gives.
\<close>

definition lower :: "char \<Rightarrow> char" where
  "lower c = (if of_char c \<ge> (65 :: nat) \<and> of_char c \<le> (90 :: nat) then char_of (of_char c + 32 :: nat) else c)"

definition boot_cpu_node :: "fdt \<Rightarrow> ulong \<Rightarrow> int option" where
  "boot_cpu_node t self =
     find (\<lambda>cpu. case fdt_reg t cpu 0 of None \<Rightarrow> False | Some (hid, _) \<Rightarrow> hid = self) (fdt_cpus t)"

text \<open>The string a property starts with: up to its NUL.\<close>

definition cstr :: "string \<Rightarrow> string" where
  "cstr bytes = takeWhile (\<lambda>c. c \<noteq> CHR 0x00) bytes"

text \<open>The single letters of \<^verbatim>\<open>riscv,isa\<close>, each with a space behind it, and what follows them.\<close>

fun isa_letters :: "string \<Rightarrow> string \<times> string" where
  "isa_letters [] = ([], [])"
| "isa_letters (c # cs) =
     (if c = CHR ''_'' \<or> lower c \<in> set ''sxz'' then ([], c # cs)
      else let (out, rest) = isa_letters cs in (lower c # CHR '' '' # out, rest))"

definition isa_of_list :: "string \<Rightarrow> string" where
  "isa_of_list bytes = CHR '' '' # map (\<lambda>c. if c = CHR 0x00 then CHR '' '' else lower c) bytes"

definition isa_of_string :: "string \<Rightarrow> string option" where
  "isa_of_string bytes =
     (if length bytes < 5 \<or> lower (bytes ! 0) \<noteq> CHR ''r'' \<or> lower (bytes ! 1) \<noteq> CHR ''v'' then None
      else let (out, rest) = isa_letters (cstr (drop 4 bytes)) in
        Some (CHR '' '' # out @ map (\<lambda>c. if c = CHR ''_'' then CHR '' '' else lower c) rest @ '' ''))"

definition isa_init :: "(fdt \<times> (int \<Rightarrow> string \<Rightarrow> string option)) option \<Rightarrow> ulong \<Rightarrow> string option" where
  "isa_init tree self =
     (case tree of
        None \<Rightarrow> None
      | Some (t, prop) \<Rightarrow>
          (case boot_cpu_node t self of
             None \<Rightarrow> None
           | Some cpu \<Rightarrow>
               (case prop cpu ''riscv,isa-extensions'' of
                  Some (b # bs) \<Rightarrow> Some (isa_of_list (b # bs))
                | _ \<Rightarrow> (case prop cpu ''riscv,isa'' of None \<Rightarrow> None | Some bytes \<Rightarrow> isa_of_string bytes))))"

definition isa_known :: "string option \<Rightarrow> bool" where
  "isa_known isa \<longleftrightarrow> isa \<noteq> None"

text \<open>\<^verbatim>\<open>strstr\<close> from position \<open>p\<close> on, and the loop around it; the list is a C string.\<close>

definition found_at :: "string \<Rightarrow> string \<Rightarrow> nat \<Rightarrow> bool" where
  "found_at l ext i \<longleftrightarrow> i + length ext \<le> length l \<and> take (length ext) (drop i l) = ext"

definition strstr :: "string \<Rightarrow> nat \<Rightarrow> string \<Rightarrow> nat option" where
  "strstr l p ext = find (found_at l ext) [p..<Suc (length l)]"

definition name_ends :: "string \<Rightarrow> nat \<Rightarrow> bool" where
  "name_ends l i \<longleftrightarrow> i = length l \<or> l ! i = CHR '' ''"

partial_function (option) isa_scan :: "string \<Rightarrow> string \<Rightarrow> nat \<Rightarrow> bool option" where
  "isa_scan l ext p =
     (case strstr l p ext of
        None \<Rightarrow> Some False
      | Some i \<Rightarrow> if l ! (i - 1) = CHR '' '' \<and> name_ends l (i + length ext) then Some True
                  else isa_scan l ext (i + length ext))"

definition isa_has :: "string option \<Rightarrow> string \<Rightarrow> bool option" where
  "isa_has isa ext = (case isa of None \<Rightarrow> Some False | Some l \<Rightarrow> isa_scan (cstr l) ext 0)"

definition isa_allows :: "string option \<Rightarrow> string \<Rightarrow> bool" where
  "isa_allows isa ext \<longleftrightarrow> \<not> isa_known isa \<or> isa_has isa ext = Some True"

definition isa_string :: "string option \<Rightarrow> string option" where
  "isa_string isa = map_option (drop 1) isa"

section \<open>The search\<close>

text \<open>A name stands at a position: a space before it, a space or the end behind it.\<close>

definition name_at :: "string \<Rightarrow> string \<Rightarrow> nat \<Rightarrow> bool" where
  "name_at l ext i \<longleftrightarrow> 0 < i \<and> found_at l ext i \<and> l ! (i - 1) = CHR '' '' \<and> name_ends l (i + length ext)"

lemma strstr_None: "strstr l p ext = None \<Longrightarrow> p \<le> i \<Longrightarrow> \<not> found_at l ext i"
  by (fastforce simp: strstr_def find_None_iff found_at_def)

lemma find_upt_Some: "find P [p..<n] = Some i \<Longrightarrow> p \<le> i \<and> i < n \<and> P i \<and> (\<forall>j. p \<le> j \<and> j < i \<longrightarrow> \<not> P j)"
proof -
  assume "find P [p..<n] = Some i"
  then obtain k where k: "k < n - p" "P (p + k)" "i = p + k" "\<forall>j<k. \<not> P (p + j)"
    by (auto simp: find_Some_iff)
  have "\<not> P j" if "p \<le> j" "j < i" for j using that k(3) k(4) [rule_format, of "j - p"] by auto
  then show ?thesis using k by auto
qed

lemma strstr_Some:
  "strstr l p ext = Some i \<Longrightarrow> p \<le> i \<and> found_at l ext i \<and> (\<forall>j. p \<le> j \<and> j < i \<longrightarrow> \<not> found_at l ext j)"
  unfolding strstr_def by (blast dest: find_upt_Some)

text \<open>A name without spaces does not start inside an occurrence of itself.\<close>

lemma name_at_apart:
  assumes "found_at l ext i" "CHR '' '' \<notin> set ext" "i < j" "name_at l ext j"
  shows "i + length ext \<le> j"
proof (rule ccontr)
  assume "\<not> i + length ext \<le> j"
  then have k: "j - 1 - i < length ext" "i + (j - 1 - i) = j - 1" using assms(3) by auto
  have "ext ! (j - 1 - i) = l ! (j - 1)"
    using assms(1) k unfolding found_at_def by (metis add_leD1 nth_drop nth_take)
  moreover have "l ! (j - 1) = CHR '' ''" using assms(4) by (simp add: name_at_def)
  ultimately show False using assms(2) k(1) by (metis nth_mem)
qed

lemma isa_scan_exact:
  assumes "ext \<noteq> []" "CHR '' '' \<notin> set ext" "l ! 0 = CHR '' ''" "l \<noteq> []"
  shows "isa_scan l ext p = Some (\<exists>i \<ge> p. name_at l ext i)"
proof (induction "Suc (length l) - p" arbitrary: p rule: less_induct)
  case less
  show ?case
  proof (cases "strstr l p ext")
    case None
    then show ?thesis by (subst isa_scan.simps) (auto simp: name_at_def dest: strstr_None)
  next
    case (Some i)
    note i = strstr_Some [OF Some]
    have "0 < i"
    proof (rule ccontr)
      assume "\<not> 0 < i"
      then have "ext ! 0 = l ! 0" using i assms(1) unfolding found_at_def by (metis drop0 length_greater_0_conv neq0_conv nth_take)
      then show False using assms by (metis length_greater_0_conv nth_mem)
    qed
    show ?thesis
    proof (cases "l ! (i - 1) = CHR '' '' \<and> name_ends l (i + length ext)")
      case True
      then have "name_at l ext i" using i \<open>0 < i\<close> by (simp add: name_at_def)
      then show ?thesis using True Some i by (subst isa_scan.simps) auto
    next
      case False
      have eq: "(\<exists>j \<ge> p. name_at l ext j) \<longleftrightarrow> (\<exists>j \<ge> i + length ext. name_at l ext j)"
      proof
        assume "\<exists>j \<ge> p. name_at l ext j"
        then obtain j where j: "p \<le> j" "name_at l ext j" by blast
        then have "i \<le> j" using i by (meson name_at_def not_le)
        moreover have "i \<noteq> j" using j False by (auto simp: name_at_def)
        ultimately show "\<exists>j \<ge> i + length ext. name_at l ext j"
          using name_at_apart [of l ext i j] i j assms(2) by auto
      qed (use i in \<open>auto intro: order_trans\<close>)
      have "Suc (length l) - (i + length ext) < Suc (length l) - p"
        using i assms(1) by (cases ext) (auto simp: found_at_def)
      then show ?thesis unfolding eq using False Some less by (subst isa_scan.simps) auto
    qed
  qed
qed

end
