(* ===== verification/Fwft.thy ===== *)
theory Fwft
  imports Csr
begin

text \<open>
  Firmware features (\<^verbatim>\<open>arch/riscv/runtime/fwft.c\<close>): the M-mode controls S-mode may
  change, per domain and hart. An operation works on the registers of the hart and
  on the slot of the running domain; a feature is probed by writing menvcfg, so a
  look-up returns the registers too.
\<close>

record fwft_hart =
  locked :: ulong
  fwft_envcfg :: ulong
  misaligned_deleg :: bool

abbreviation SBI_FWFT_SET_FLAG_LOCK :: ulong where "SBI_FWFT_SET_FLAG_LOCK \<equiv> 1"
abbreviation SBI_FWFT_MISALIGNED_EXC_DELEG :: ulong where "SBI_FWFT_MISALIGNED_EXC_DELEG \<equiv> 0"
abbreviation SBI_FWFT_LANDING_PAD :: ulong where "SBI_FWFT_LANDING_PAD \<equiv> 1"
abbreviation SBI_FWFT_SHADOW_STACK :: ulong where "SBI_FWFT_SHADOW_STACK \<equiv> 2"
abbreviation SBI_FWFT_DOUBLE_TRAP :: ulong where "SBI_FWFT_DOUBLE_TRAP \<equiv> 3"
abbreviation SBI_FWFT_PTE_AD_HW_UPDATING :: ulong where "SBI_FWFT_PTE_AD_HW_UPDATING \<equiv> 4"
abbreviation SBI_FWFT_POINTER_MASKING_PMLEN :: ulong where "SBI_FWFT_POINTER_MASKING_PMLEN \<equiv> 5"
abbreviation FWFT_FEATURES :: ulong where "FWFT_FEATURES \<equiv> 6"
abbreviation SBI_FWFT_LOCAL_PLATFORM_START :: ulong where "SBI_FWFT_LOCAL_PLATFORM_START \<equiv> 0x40000000"
abbreviation SBI_FWFT_GLOBAL_RESERVED_START :: ulong where "SBI_FWFT_GLOBAL_RESERVED_START \<equiv> 0x80000000"
abbreviation SBI_FWFT_GLOBAL_PLATFORM_START :: ulong where "SBI_FWFT_GLOBAL_PLATFORM_START \<equiv> 0xc0000000"

abbreviation ENVCFG_LPE_BIT :: nat where "ENVCFG_LPE_BIT \<equiv> 2"
abbreviation ENVCFG_SSE_BIT :: nat where "ENVCFG_SSE_BIT \<equiv> 3"
abbreviation ENVCFG_PMM_SHIFT :: nat where "ENVCFG_PMM_SHIFT \<equiv> 32"
abbreviation ENVCFG_DTE_BIT :: nat where "ENVCFG_DTE_BIT \<equiv> 59"
abbreviation ENVCFG_ADUE_BIT :: nat where "ENVCFG_ADUE_BIT \<equiv> 61"
abbreviation CAUSE_MISALIGNED_LOAD :: nat where "CAUSE_MISALIGNED_LOAD \<equiv> 4"
abbreviation CAUSE_MISALIGNED_STORE :: nat where "CAUSE_MISALIGNED_STORE \<equiv> 6"

section \<open>Operations\<close>

definition MISALIGNED_DELEG :: ulong where
  "MISALIGNED_DELEG = BIT CAUSE_MISALIGNED_LOAD OR BIT CAUSE_MISALIGNED_STORE"

definition envcfg_read :: "csrs \<Rightarrow> ulong" where
  "envcfg_read c = csr_read CSR_MENVCFG c"

definition envcfg_write :: "warl \<Rightarrow> ulong \<Rightarrow> csrs \<Rightarrow> csrs" where
  "envcfg_write legal val c = csr_write legal CSR_MENVCFG val c"

definition envcfg_update :: "warl \<Rightarrow> features \<Rightarrow> ulong \<Rightarrow> ulong \<Rightarrow> csrs \<Rightarrow> bool \<times> csrs" where
  "envcfg_update legal feat m val c =
     (if \<not> feat HART_FEAT_MENVCFG then (False, c)
      else let old = envcfg_read c;
               new = (old AND NOT m) OR val;
               c1 = envcfg_write legal new c
           in if envcfg_read c1 AND m = val then (True, c1)
              else (False, envcfg_write legal old c1))"

definition feature_field :: "ulong \<Rightarrow> ulong" where
  "feature_field feature =
     (if feature = SBI_FWFT_LANDING_PAD then BIT ENVCFG_LPE_BIT
      else if feature = SBI_FWFT_SHADOW_STACK then BIT ENVCFG_SSE_BIT
      else if feature = SBI_FWFT_DOUBLE_TRAP then BIT ENVCFG_DTE_BIT
      else if feature = SBI_FWFT_PTE_AD_HW_UPDATING then BIT ENVCFG_ADUE_BIT
      else if feature = SBI_FWFT_POINTER_MASKING_PMLEN then push_bit ENVCFG_PMM_SHIFT 3
      else 0)"

definition feature_exists :: "warl \<Rightarrow> features \<Rightarrow> ulong \<Rightarrow> csrs \<Rightarrow> bool \<times> csrs" where
  "feature_exists legal feat feature c =
     (let field = feature_field feature in
      if feature = SBI_FWFT_MISALIGNED_EXC_DELEG then (True, c)
      else if field = 0 \<or> \<not> feat HART_FEAT_MENVCFG then (False, c)
      else let old = envcfg_read c;
               (ok, c1) = envcfg_update legal feat field field c
           in (ok, envcfg_write legal old c1))"

definition feature_check :: "warl \<Rightarrow> features \<Rightarrow> ulong \<Rightarrow> csrs \<Rightarrow> sbi \<times> csrs" where
  "feature_check legal feat feature c =
     (if feature < FWFT_FEATURES then
        let (ok, c1) = feature_exists legal feat feature c
        in (if ok then SBI_SUCCESS else SBI_ERR_NOT_SUPPORTED, c1)
      else if feature < SBI_FWFT_LOCAL_PLATFORM_START \<or>
              (feature \<ge> SBI_FWFT_GLOBAL_RESERVED_START \<and> feature < SBI_FWFT_GLOBAL_PLATFORM_START)
      then (SBI_ERR_DENIED, c)
      else (SBI_ERR_NOT_SUPPORTED, c))"

definition fwft_hart_init :: "fwft_hart \<Rightarrow> fwft_hart" where
  "fwft_hart_init f = f\<lparr>locked := 0\<rparr>"

definition feature_fields :: ulong where
  "feature_fields = foldl (\<lambda>fields f. fields OR feature_field (of_nat f)) 0 [0..<6]"

definition fwft_hart_switch_out :: "features \<Rightarrow> csrs \<Rightarrow> fwft_hart \<Rightarrow> fwft_hart" where
  "fwft_hart_switch_out feat c f =
     (let f1 = f\<lparr>misaligned_deleg := csr_read CSR_MEDELEG c AND MISALIGNED_DELEG \<noteq> 0\<rparr>
      in if feat HART_FEAT_MENVCFG
         then f1\<lparr>fwft_envcfg := envcfg_read c AND feature_fields\<rparr> else f1)"

definition fwft_zero :: fwft_hart where
  "fwft_zero = \<lparr>locked = 0, fwft_envcfg = 0, misaligned_deleg = False\<rparr>"

definition fwft_hart_switch_in ::
  "warl \<Rightarrow> features \<Rightarrow> bool \<Rightarrow> csrs \<Rightarrow> fwft_hart \<Rightarrow> csrs \<times> fwft_hart" where
  "fwft_hart_switch_in legal feat fresh c f =
     (let f = (if fresh then fwft_zero else f);
          c1 = (if misaligned_deleg f then csr_set legal CSR_MEDELEG MISALIGNED_DELEG c
                else csr_clear legal CSR_MEDELEG MISALIGNED_DELEG c)
      in (if feat HART_FEAT_MENVCFG
          then envcfg_write legal ((envcfg_read c1 AND NOT feature_fields) OR fwft_envcfg f) c1
          else c1, f))"

definition fwft_get :: "warl \<Rightarrow> features \<Rightarrow> ulong \<Rightarrow> csrs \<Rightarrow> (sbi + ulong) \<times> csrs" where
  "fwft_get legal feat feature c =
     (let (rc, c) = feature_check legal feat feature c in
      if rc \<noteq> SBI_SUCCESS then (Inl rc, c)
      else if feature = SBI_FWFT_MISALIGNED_EXC_DELEG then
        (Inr (if csr_read CSR_MEDELEG c AND MISALIGNED_DELEG = MISALIGNED_DELEG then 1 else 0), c)
      else let field = envcfg_read c AND feature_field feature in
           if feature = SBI_FWFT_POINTER_MASKING_PMLEN then
             let field = drop_bit ENVCFG_PMM_SHIFT field
             in (Inr (if field = 2 then 7 else if field = 3 then 16 else 0), c)
           else (Inr (if field \<noteq> 0 then 1 else 0), c))"

definition fwft_set ::
  "warl \<Rightarrow> features \<Rightarrow> ulong \<Rightarrow> ulong \<Rightarrow> ulong \<Rightarrow> csrs \<Rightarrow> fwft_hart \<Rightarrow> sbi \<times> csrs \<times> fwft_hart" where
  "fwft_set legal feat feature val flags c f =
     (let (rc, c) = feature_check legal feat feature c in
      if rc \<noteq> SBI_SUCCESS then (rc, c, f)
      else if flags AND NOT SBI_FWFT_SET_FLAG_LOCK \<noteq> 0 then (SBI_ERR_INVALID_PARAM, c, f)
      else if locked f AND BIT (unat feature) \<noteq> 0 then (SBI_ERR_DENIED_LOCKED, c, f)
      else let (rc, c) =
             (if feature = SBI_FWFT_MISALIGNED_EXC_DELEG then
                if val > 1 then (SBI_ERR_INVALID_PARAM, c)
                else (SBI_SUCCESS, if val \<noteq> 0 then csr_set legal CSR_MEDELEG MISALIGNED_DELEG c
                                   else csr_clear legal CSR_MEDELEG MISALIGNED_DELEG c)
              else let field = feature_field feature in
                if feature = SBI_FWFT_POINTER_MASKING_PMLEN then
                  if val \<noteq> 0 \<and> val \<noteq> 7 \<and> val \<noteq> 16 then (SBI_ERR_INVALID_PARAM, c)
                  else let bits = push_bit ENVCFG_PMM_SHIFT (if val = 7 then 2 else if val = 16 then 3 else 0);
                           (ok, c) = envcfg_update legal feat field bits c
                       in (if ok then SBI_SUCCESS else SBI_ERR_INVALID_PARAM, c)
                else if val > 1 then (SBI_ERR_INVALID_PARAM, c)
                else let bits = (if val \<noteq> 0 then field else 0);
                         (ok, c) = envcfg_update legal feat field bits c
                     in (if ok then SBI_SUCCESS else SBI_ERR_INVALID_PARAM, c))
           in if rc \<noteq> SBI_SUCCESS then (rc, c, f)
              else (SBI_SUCCESS, c,
                    if flags AND SBI_FWFT_SET_FLAG_LOCK \<noteq> 0
                    then f\<lparr>locked := locked f OR BIT (unat feature)\<rparr> else f))"

section \<open>The hardware behind it\<close>

text \<open>
  menvcfg is WARL: what it keeps of a value depends on the value alone, keeping it
  again changes nothing, zero is fine, and the fields are independent of each other. medeleg
  can delegate the misaligned accesses.
\<close>

definition envcfg_hw :: "warl \<Rightarrow> bool" where
  "envcfg_hw legal \<longleftrightarrow>
     (\<forall>c c' v. legal c CSR_MENVCFG v = legal c' CSR_MENVCFG v) \<and>
     (\<forall>c v. legal c CSR_MENVCFG (legal c CSR_MENVCFG v) = legal c CSR_MENVCFG v) \<and>
     (\<forall>c. legal c CSR_MENVCFG 0 = 0) \<and>
     (\<forall>c v v' f. v AND feature_field f = v' AND feature_field f \<longrightarrow>
        legal c CSR_MENVCFG v AND feature_field f = legal c CSR_MENVCFG v' AND feature_field f) \<and>
     (\<forall>c v. legal c CSR_MEDELEG v AND MISALIGNED_DELEG = v AND MISALIGNED_DELEG)"

definition envcfg_legal :: "warl \<Rightarrow> csrs \<Rightarrow> bool" where
  "envcfg_legal legal c \<longleftrightarrow> legal c CSR_MENVCFG (c CSR_MENVCFG) = c CSR_MENVCFG"

section \<open>Lemmas\<close>

lemma envcfg_read_eq [simp]: "envcfg_read c = c CSR_MENVCFG"
  by (simp add: envcfg_read_def csr_read_def)

lemma envcfg_write_eq: "envcfg_write legal v c = c(CSR_MENVCFG := legal c CSR_MENVCFG v)"
  by (simp add: envcfg_write_def csr_write_def)

lemma envcfg_any: "envcfg_hw legal \<Longrightarrow> legal c CSR_MENVCFG v = legal c' CSR_MENVCFG v"
  unfolding envcfg_hw_def by blast

lemma envcfg_legal_write:
  assumes "envcfg_hw legal"
  shows "envcfg_legal legal (c(CSR_MENVCFG := legal d CSR_MENVCFG v))"
proof -
  have "legal d CSR_MENVCFG (legal d CSR_MENVCFG v) = legal d CSR_MENVCFG v"
    using assms unfolding envcfg_hw_def by blast
  moreover have "legal (c(CSR_MENVCFG := legal d CSR_MENVCFG v)) CSR_MENVCFG (legal d CSR_MENVCFG v) =
      legal d CSR_MENVCFG (legal d CSR_MENVCFG v)" by (rule envcfg_any [OF assms])
  ultimately show ?thesis by (simp add: envcfg_legal_def)
qed

lemma envcfg_restore:
  assumes "envcfg_hw legal" "envcfg_legal legal c"
  shows "envcfg_write legal (c CSR_MENVCFG) (c(CSR_MENVCFG := v)) = c"
proof -
  have "legal (c(CSR_MENVCFG := v)) CSR_MENVCFG (c CSR_MENVCFG) = c CSR_MENVCFG"
    using envcfg_any [OF assms(1), of "c(CSR_MENVCFG := v)" "c CSR_MENVCFG" c] assms(2)
    by (simp add: envcfg_legal_def)
  then show ?thesis by (simp add: envcfg_write_eq fun_eq_iff)
qed

lemma envcfg_update_cases:
  assumes hw: "envcfg_hw legal" and lc: "envcfg_legal legal c"
  shows "envcfg_update legal feat m val c = (False, c) \<or>
    (\<exists>w. w = legal c CSR_MENVCFG ((c CSR_MENVCFG AND NOT m) OR val) \<and> w AND m = val \<and>
         envcfg_update legal feat m val c = (True, c(CSR_MENVCFG := w)))"
  using envcfg_restore [OF hw lc]
  by (auto simp: envcfg_update_def envcfg_write_eq Let_def)

lemma feature_exists_state:
  assumes hw: "envcfg_hw legal" and lc: "envcfg_legal legal c"
  shows "snd (feature_exists legal feat feature c) = c"
  using envcfg_update_cases [OF hw lc, of feat "feature_field feature" "feature_field feature"]
    envcfg_restore [OF hw lc] envcfg_restore [OF hw lc, of "c CSR_MENVCFG"]
  by (auto simp: feature_exists_def Let_def)

lemma feature_check_state:
  assumes "envcfg_hw legal" "envcfg_legal legal c"
  shows "feature_check legal feat feature c = (fst (feature_check legal feat feature c), c)"
  using feature_exists_state [OF assms, of feat feature]
  by (auto simp: feature_check_def Let_def split: prod.splits)

text \<open>Whether a feature exists is the hart's to say, not the state's.\<close>

lemma feature_exists_const:
  assumes hw: "envcfg_hw legal" "envcfg_legal legal c" "envcfg_legal legal c'"
  shows "fst (feature_exists legal feat feature c) = fst (feature_exists legal feat feature c')"
proof -
  let ?m = "feature_field feature"
  have same: "legal c CSR_MENVCFG ((v AND NOT ?m) OR ?m) AND ?m = legal c' CSR_MENVCFG ((v' AND NOT ?m) OR ?m) AND ?m" for v v'
  proof -
    have "((v AND NOT ?m) OR ?m) AND ?m = ((v' AND NOT ?m) OR ?m) AND ?m"
      by (simp add: bit.conj_disj_distrib2 and.assoc)
    then have "legal c CSR_MENVCFG ((v AND NOT ?m) OR ?m) AND ?m = legal c CSR_MENVCFG ((v' AND NOT ?m) OR ?m) AND ?m"
      using hw(1) unfolding envcfg_hw_def by blast
    then show ?thesis using envcfg_any [OF hw(1), of c _ c'] by simp
  qed
  show ?thesis
    using same [of "c CSR_MENVCFG" "c' CSR_MENVCFG"]
    by (auto simp: feature_exists_def envcfg_update_def envcfg_write_eq Let_def)
qed

lemma feature_check_const:
  assumes "envcfg_hw legal" "envcfg_legal legal c" "envcfg_legal legal c'"
  shows "fst (feature_check legal feat feature c) = fst (feature_check legal feat feature c')"
  using feature_exists_const [OF assms, of feat feature]
  by (auto simp: feature_check_def Let_def split: prod.splits)

lemma feature_check_ok:
  assumes "feature_check legal feat feature c = (SBI_SUCCESS, c')"
  shows "feature \<in> {0, 1, 2, 3, 4, 5}"
proof -
  have "feature < 6" using assms by (auto simp: feature_check_def split: if_splits)
  then have "unat feature < 6" by (simp add: word_less_nat_alt)
  moreover define n where "n = unat feature"
  ultimately have "n \<in> {0, 1, 2, 3, 4, 5}" by auto
  moreover have "feature = of_nat n" by (simp add: n_def)
  ultimately show ?thesis by auto
qed

lemma field_nonzero: "feature \<in> {1, 2, 3, 4, 5} \<Longrightarrow> feature_field feature \<noteq> 0"
  by (auto simp: feature_field_def BIT_eq_power)

text \<open>The step of \<^const>\<open>fwft_set\<close> past its checks.\<close>

definition set_bits :: "ulong \<Rightarrow> ulong \<Rightarrow> ulong" where
  "set_bits feature val =
     (if feature = SBI_FWFT_POINTER_MASKING_PMLEN
      then push_bit ENVCFG_PMM_SHIFT (if val = 7 then 2 else if val = 16 then 3 else 0)
      else if val \<noteq> 0 then feature_field feature else 0)"

definition set_val_ok :: "ulong \<Rightarrow> ulong \<Rightarrow> bool" where
  "set_val_ok feature val \<longleftrightarrow> (if feature = SBI_FWFT_POINTER_MASKING_PMLEN
     then val \<in> {0, 7, 16} else val \<le> 1)"

lemma fwft_set_success:
  assumes hw: "envcfg_hw legal" and lc: "envcfg_legal legal c"
    and ok: "fwft_set legal feat feature val flags c f = (SBI_SUCCESS, c', f')"
  shows "feature_check legal feat feature c = (SBI_SUCCESS, c)" "set_val_ok feature val"
    "flags AND NOT SBI_FWFT_SET_FLAG_LOCK = 0" "locked f AND BIT (unat feature) = 0"
    "f' = (if flags AND SBI_FWFT_SET_FLAG_LOCK \<noteq> 0 then f\<lparr>locked := locked f OR BIT (unat feature)\<rparr> else f)"
    "if feature = 0 then c' = (if val \<noteq> 0 then csr_set legal CSR_MEDELEG MISALIGNED_DELEG c
                               else csr_clear legal CSR_MEDELEG MISALIGNED_DELEG c)
     else envcfg_update legal feat (feature_field feature) (set_bits feature val) c = (True, c')"
proof -
  have "feature_check legal feat feature c = (SBI_SUCCESS, c)"
    using feature_check_state [OF hw lc, of feat feature] ok
    by (auto simp: fwft_set_def split: prod.splits if_splits)
  moreover from this ok show "flags AND NOT SBI_FWFT_SET_FLAG_LOCK = 0" "locked f AND BIT (unat feature) = 0"
    "set_val_ok feature val"
    "f' = (if flags AND SBI_FWFT_SET_FLAG_LOCK \<noteq> 0 then f\<lparr>locked := locked f OR BIT (unat feature)\<rparr> else f)"
    "if feature = 0 then c' = (if val \<noteq> 0 then csr_set legal CSR_MEDELEG MISALIGNED_DELEG c
                               else csr_clear legal CSR_MEDELEG MISALIGNED_DELEG c)
     else envcfg_update legal feat (feature_field feature) (set_bits feature val) c = (True, c')"
    by (auto simp: fwft_set_def set_val_ok_def set_bits_def Let_def not_less
        split: prod.splits if_splits)
  ultimately show "feature_check legal feat feature c = (SBI_SUCCESS, c)" by simp
qed

lemma fwft_set_legal:
  assumes "envcfg_hw legal" "envcfg_legal legal c"
    and "fwft_set legal feat feature val flags c f = (SBI_SUCCESS, c', f')"
  shows "envcfg_legal legal c'"
proof (cases "feature = 0")
  case True
  have "envcfg_legal legal (c(CSR_MEDELEG := v))" for v
    using assms(2) envcfg_any [OF assms(1), of "c(CSR_MEDELEG := v)" _ c] by (simp add: envcfg_legal_def)
  then show ?thesis using True fwft_set_success(6) [OF assms] by (simp add: csr_defs split: if_splits)
next
  case False
  then show ?thesis
    using fwft_set_success(6) [OF assms] envcfg_legal_write [OF assms(1)]
      envcfg_update_cases [OF assms(1,2), of feat "feature_field feature" "set_bits feature val"] by auto
qed

lemma set_bits_value:
  assumes "feature \<in> {1, 2, 3, 4, 5}" "set_val_ok feature val" "w AND feature_field feature = set_bits feature val"
  shows "(if feature = SBI_FWFT_POINTER_MASKING_PMLEN
          then let field = drop_bit ENVCFG_PMM_SHIFT (w AND feature_field feature)
               in if field = 2 then 7 else if field = 3 then 16 else 0
          else if w AND feature_field feature \<noteq> 0 then 1 else 0) = val"
proof -
  have "drop_bit ENVCFG_PMM_SHIFT (push_bit ENVCFG_PMM_SHIFT 2) = (2::ulong)"
    "drop_bit ENVCFG_PMM_SHIFT (push_bit ENVCFG_PMM_SHIFT 3) = (3::ulong)" by simp_all
  moreover have "val = 0 \<or> val = 1" if "feature \<noteq> SBI_FWFT_POINTER_MASKING_PMLEN"
    using that assms(2) by (auto simp: set_val_ok_def word_le_one)
  ultimately show ?thesis
    using assms field_nonzero [OF assms(1)] unfolding assms(3)
    by (auto simp: set_bits_def set_val_ok_def Let_def split: if_splits)
qed

text \<open>
  C10. A feature reads back as it was set. When \<^const>\<open>fwft_set\<close> succeeds, \<^const>\<open>fwft_get\<close>
  returns the value that was set, for every feature, the pointer masking length
  included, and looking it up changes no register.
\<close>

theorem fwft_set_get:
  assumes "envcfg_hw legal" "envcfg_legal legal c"
    and "fwft_set legal feat feature val flags c f = (SBI_SUCCESS, c', f')"
  shows "fwft_get legal feat feature c' = (Inr val, c')"
proof -
  note s = fwft_set_success [OF assms]
  have chk: "feature_check legal feat feature c' = (SBI_SUCCESS, c')"
    using feature_check_state [OF assms(1) fwft_set_legal [OF assms], of feat feature] s(1)
      feature_check_const [OF assms(1,2) fwft_set_legal [OF assms], of feat feature] by simp
  show ?thesis
  proof (cases "feature = 0")
    case True
    have keep: "legal d CSR_MEDELEG v AND MISALIGNED_DELEG = v AND MISALIGNED_DELEG" for d v
      using assms(1) unfolding envcfg_hw_def by blast
    have "val = 0 \<or> val = 1" using s(2) True by (auto simp: set_val_ok_def word_le_one)
    moreover have "MISALIGNED_DELEG \<noteq> 0" by (simp add: MISALIGNED_DELEG_def BIT_eq_power)
    ultimately show ?thesis
      using True s(6) chk keep
      by (auto simp: fwft_get_def csr_defs and.assoc bit.conj_disj_distrib2)
  next
    case False
    have fs: "feature \<in> {1, 2, 3, 4, 5}" using feature_check_ok [OF s(1)] False by auto
    have "c' CSR_MENVCFG AND feature_field feature = set_bits feature val"
      using s(6) False envcfg_update_cases [OF assms(1,2), of feat "feature_field feature" "set_bits feature val"]
      by auto
    from set_bits_value [OF fs s(2) this] show ?thesis
      using False chk by (auto simp: fwft_get_def Let_def split: if_splits)
  qed
qed

lemma fwft_set_error:
  assumes "envcfg_hw legal" "envcfg_legal legal c"
    and "fwft_set legal feat feature val flags c f = (rc, c', f')" "rc \<noteq> SBI_SUCCESS"
  shows "c' = c \<and> f' = f"
proof -
  have u: "envcfg_update legal feat m v c = (False, d) \<Longrightarrow> d = c" for m v d
    using envcfg_update_cases [OF assms(1,2), of feat m v] by auto
  show ?thesis
    using assms(3,4) feature_check_state [OF assms(1,2), of feat feature]
    by (auto simp: fwft_set_def Let_def dest!: u split: prod.splits if_splits)
qed

lemma BIT_and_self: "k < 64 \<Longrightarrow> (x OR BIT k) AND BIT k \<noteq> 0"
  using IS_POWER_OF_TWO_BIT [of k] by (simp add: bit.conj_disj_distrib2 IS_POWER_OF_TWO_def)


text \<open>
  C12. A set that fails changes nothing: on every error of \<^const>\<open>fwft_set\<close>, a value the
  hart does not implement included, the registers and the slot are as before.
\<close>

theorem fwft_error_changes_nothing:
  assumes "envcfg_hw legal" "envcfg_legal legal c"
    and "fwft_set legal feat feature val flags c f = (rc, c', f')" "rc \<noteq> SBI_SUCCESS"
  shows "c' = c \<and> f' = f"
  using assms by (rule fwft_set_error)

section \<open>Domain switches\<close>

lemma field_in_fields: "feature \<in> {1, 2, 3, 4, 5} \<Longrightarrow> feature_fields AND feature_field feature = feature_field feature"
  by (auto simp: feature_fields_def upt_rec feature_field_def BIT_eq_power)

lemma fwft_get_cong:
  assumes "envcfg_hw legal" "envcfg_legal legal c" "envcfg_legal legal d"
    and "c CSR_MEDELEG AND MISALIGNED_DELEG = d CSR_MEDELEG AND MISALIGNED_DELEG"
    and "feature \<in> {1, 2, 3, 4, 5} \<Longrightarrow> c CSR_MENVCFG AND feature_field feature = d CSR_MENVCFG AND feature_field feature"
  shows "fst (fwft_get legal feat feature c) = fst (fwft_get legal feat feature d)"
proof (cases "fst (feature_check legal feat feature c) = SBI_SUCCESS")
  case True
  have c: "feature_check legal feat feature c = (SBI_SUCCESS, c)" "feature_check legal feat feature d = (SBI_SUCCESS, d)"
    using feature_check_state [OF assms(1,2), of feat feature] feature_check_state [OF assms(1,3), of feat feature]
      feature_check_const [OF assms(1-3), of feat feature] True by auto
  show ?thesis
    using feature_check_ok [OF c(1)] c assms(4,5)
    by (cases "feature = 0"; cases "feature = SBI_FWFT_POINTER_MASKING_PMLEN")
       (simp_all add: fwft_get_def csr_read_def Let_def del: drop_bit_and)
next
  case False
  then show ?thesis
    using feature_check_state [OF assms(1,2), of feat feature] feature_check_state [OF assms(1,3), of feat feature]
      feature_check_const [OF assms(1-3), of feat feature]
    by (auto simp: fwft_get_def split: prod.splits)
qed

lemma switch_in_fields:
  assumes hw: "envcfg_hw legal" and e: "feat HART_FEAT_MENVCFG" and fs: "feature \<in> {1, 2, 3, 4, 5}"
    and v: "v AND feature_field feature = fwft_envcfg f AND feature_field feature"
  shows "fst (fwft_hart_switch_in legal feat False d f) CSR_MENVCFG AND feature_field feature =
         legal d CSR_MENVCFG v AND feature_field feature"
proof -
  let ?m = "feature_field feature"
  define c1 where "c1 = (if misaligned_deleg f then csr_set legal CSR_MEDELEG MISALIGNED_DELEG d
                else csr_clear legal CSR_MEDELEG MISALIGNED_DELEG d)"
  have "((c1 CSR_MENVCFG AND NOT feature_fields) OR fwft_envcfg f) AND ?m = v AND ?m"
  proof -
    have "NOT feature_fields AND ?m = NOT feature_fields AND (feature_fields AND ?m)"
      using field_in_fields [OF fs] by simp
    also have "\<dots> = 0" by (simp add: and.assoc [symmetric])
    finally show ?thesis by (simp add: bit.conj_disj_distrib2 and.assoc v)
  qed
  then have "legal c1 CSR_MENVCFG ((c1 CSR_MENVCFG AND NOT feature_fields) OR fwft_envcfg f) AND ?m =
      legal c1 CSR_MENVCFG v AND ?m"
    using hw unfolding envcfg_hw_def by blast
  then show ?thesis
    using e envcfg_any [OF hw, of c1 v d]
    by (simp add: fwft_hart_switch_in_def Let_def c1_def [symmetric] envcfg_write_eq)
qed

lemma switch_in_medeleg:
  assumes "envcfg_hw legal"
  shows "fst (fwft_hart_switch_in legal feat False d f) CSR_MEDELEG AND MISALIGNED_DELEG =
         (if misaligned_deleg f then MISALIGNED_DELEG else 0)"
proof -
  have keep: "legal d CSR_MEDELEG v AND MISALIGNED_DELEG = v AND MISALIGNED_DELEG" for d v
    using assms unfolding envcfg_hw_def by blast
  show ?thesis
    by (simp add: fwft_hart_switch_in_def Let_def csr_defs envcfg_write_eq keep bit.conj_disj_distrib2 and.assoc)
qed

lemma switch_in_legal:
  assumes "envcfg_hw legal" "envcfg_legal legal d"
  shows "envcfg_legal legal (fst (fwft_hart_switch_in legal feat fresh d f))"
proof -
  have "envcfg_legal legal (d(CSR_MEDELEG := v))" for v
    using assms(2) envcfg_any [OF assms(1), of "d(CSR_MEDELEG := v)" _ d] by (simp add: envcfg_legal_def)
  then show ?thesis
    using envcfg_legal_write [OF assms(1)]
    by (simp add: fwft_hart_switch_in_def Let_def csr_defs envcfg_write_eq)
qed

text \<open>
  C13. A domain finds its features as it left them. Whatever happened to the
  registers while the hart ran other domains, after \<^const>\<open>fwft_hart_switch_out\<close> and a
  later \<^const>\<open>fwft_hart_switch_in\<close> every feature reads as before and the locks are the same.
\<close>

theorem fwft_switch_restores:
  assumes "envcfg_hw legal" "envcfg_legal legal c" "envcfg_legal legal d"
    and "c CSR_MEDELEG AND MISALIGNED_DELEG \<in> {0, MISALIGNED_DELEG}"
    and "fwft_hart_switch_in legal feat False d (fwft_hart_switch_out feat c f) = (d', f')"
  shows "fst (fwft_get legal feat feature d') = fst (fwft_get legal feat feature c) \<and> locked f' = locked f"
proof -
  let ?f = "fwft_hart_switch_out feat c f"
  have d': "d' = fst (fwft_hart_switch_in legal feat False d ?f)" and f': "f' = ?f"
    using assms(5) by (auto simp: fwft_hart_switch_in_def Let_def)
  have ld: "envcfg_legal legal d'" unfolding d' using assms(1,3) by (rule switch_in_legal)
  have nz: "MISALIGNED_DELEG \<noteq> 0" by (simp add: MISALIGNED_DELEG_def BIT_eq_power)
  have med: "d' CSR_MEDELEG AND MISALIGNED_DELEG = c CSR_MEDELEG AND MISALIGNED_DELEG"
    unfolding d' switch_in_medeleg [OF assms(1)] using assms(4) nz
    by (auto simp: fwft_hart_switch_out_def Let_def csr_read_def)
  have "fst (fwft_get legal feat feature d') = fst (fwft_get legal feat feature c)"
  proof (cases "feat HART_FEAT_MENVCFG")
    case True
    have "d' CSR_MENVCFG AND feature_field feature = c CSR_MENVCFG AND feature_field feature"
      if fs: "feature \<in> {1, 2, 3, 4, 5}"
    proof -
      have "c CSR_MENVCFG AND feature_field feature = fwft_envcfg ?f AND feature_field feature"
        using True field_in_fields [OF fs] by (simp add: fwft_hart_switch_out_def Let_def and.assoc)
      from switch_in_fields [where feat = feat, OF assms(1) True fs this, of d] show ?thesis
        using assms(2) envcfg_any [OF assms(1), of d "c CSR_MENVCFG" c] by (simp add: d' envcfg_legal_def)
    qed
    then show ?thesis by (rule fwft_get_cong [OF assms(1) ld assms(2) med])
  next
    case False
    then have "d' CSR_MENVCFG = d CSR_MENVCFG"
      by (simp add: d' fwft_hart_switch_in_def Let_def csr_defs)
    have "fst (feature_check legal feat feature e) = (if feature = 0 then SBI_SUCCESS
        else fst (feature_check legal feat feature c))" for e
      using False by (auto simp: feature_check_def feature_exists_def Let_def)
    then show ?thesis
      using False med by (auto simp: fwft_get_def feature_check_def feature_exists_def Let_def csr_read_def)
  qed
  moreover have "locked f' = locked f" unfolding f' by (simp add: fwft_hart_switch_out_def Let_def)
  ultimately show ?thesis ..
qed

text \<open>
  C14. A domain that comes fresh to a hart sees none of the other domains' settings:
  after \<^const>\<open>fwft_hart_switch_in\<close> with \<open>fresh\<close> set, every feature that exists reads zero
  and nothing is locked, whatever the registers and the slot held.
\<close>

theorem fwft_fresh_is_reset:
  assumes "envcfg_hw legal" "envcfg_legal legal d"
    and "fwft_hart_switch_in legal feat True d f = (d', f')"
    and "fst (fwft_get legal feat feature d') = Inr val"
  shows "val = 0 \<and> locked f' = 0"
proof -
  have d': "d' = fst (fwft_hart_switch_in legal feat False d fwft_zero)" and f': "f' = fwft_zero"
    using assms(3) by (auto simp: fwft_hart_switch_in_def Let_def)
  have ld: "envcfg_legal legal d'" unfolding d' using assms(1,2) by (rule switch_in_legal)
  have chk: "feature_check legal feat feature d' = (SBI_SUCCESS, d')"
    using assms(4) feature_check_state [OF assms(1) ld, of feat feature]
    by (auto simp: fwft_get_def split: prod.splits if_splits)
  have "val = 0"
  proof (cases "feature = 0")
    case True
    have "d' CSR_MEDELEG AND MISALIGNED_DELEG = 0"
      unfolding d' switch_in_medeleg [OF assms(1)] by (simp add: fwft_zero_def)
    moreover have "MISALIGNED_DELEG \<noteq> 0" by (simp add: MISALIGNED_DELEG_def BIT_eq_power)
    ultimately show ?thesis using True assms(4) chk by (simp add: fwft_get_def csr_read_def)
  next
    case False
    have fs: "feature \<in> {1, 2, 3, 4, 5}" using feature_check_ok [OF chk] False by auto
    have e: "feat HART_FEAT_MENVCFG"
      using chk False by (auto simp: feature_check_def feature_exists_def Let_def split: if_splits)
    have "legal d CSR_MENVCFG 0 = 0" using assms(1) unfolding envcfg_hw_def by blast
    then have "d' CSR_MENVCFG AND feature_field feature = 0"
      using switch_in_fields [where feat = feat, OF assms(1) e fs, of 0 fwft_zero d]
      by (simp add: d' fwft_zero_def)
    then show ?thesis using False assms(4) chk
      by (auto simp: fwft_get_def Let_def split: if_splits simp del: drop_bit_and)
  qed
  then show ?thesis by (simp add: f' fwft_zero_def)
qed

section \<open>A hart that has it all\<close>

definition keep_warl :: warl where
  "keep_warl c n v = v"

lemma keep_warl_hw: "envcfg_hw keep_warl" "envcfg_legal keep_warl c"
  by (simp_all add: envcfg_hw_def envcfg_legal_def keep_warl_def)

definition pmlen_set :: "sbi \<times> csrs \<times> fwft_hart" where
  "pmlen_set = fwft_set keep_warl (\<lambda>_. True) SBI_FWFT_POINTER_MASKING_PMLEN 7 SBI_FWFT_SET_FLAG_LOCK (\<lambda>n. 0) fwft_zero"

lemma pmlen_set_ok: "fst pmlen_set = SBI_SUCCESS"
  by (simp add: pmlen_set_def fwft_set_def feature_check_def feature_exists_def feature_field_def
      envcfg_update_def envcfg_write_eq keep_warl_def fwft_zero_def)

lemma pmlen_set_eq:
  "fwft_set keep_warl (\<lambda>_. True) SBI_FWFT_POINTER_MASKING_PMLEN 7 SBI_FWFT_SET_FLAG_LOCK (\<lambda>n. 0) fwft_zero =
   (SBI_SUCCESS, fst (snd pmlen_set), snd (snd pmlen_set))"
  unfolding pmlen_set_def [symmetric] using pmlen_set_ok by (simp add: prod_eq_iff)

theorem fwft_set_get_witness:
  "fst pmlen_set = SBI_SUCCESS \<and>
   fwft_get keep_warl (\<lambda>_. True) SBI_FWFT_POINTER_MASKING_PMLEN (fst (snd pmlen_set)) =
     (Inr 7, fst (snd pmlen_set))"
  using fwft_set_get [OF keep_warl_hw pmlen_set_eq] pmlen_set_ok by (rule conjI [rotated])


theorem fwft_error_changes_nothing_witness:
  "fwft_set keep_warl (\<lambda>_. True) SBI_FWFT_POINTER_MASKING_PMLEN 9 0 (\<lambda>n. 0) fwft_zero =
     (SBI_ERR_INVALID_PARAM, \<lambda>n. 0, fwft_zero)"
proof -
  have "fst (fwft_set keep_warl (\<lambda>_. True) SBI_FWFT_POINTER_MASKING_PMLEN 9 0 (\<lambda>n. 0) fwft_zero) = SBI_ERR_INVALID_PARAM"
    by (simp add: fwft_set_def feature_check_def feature_exists_def feature_field_def
      envcfg_update_def envcfg_write_eq keep_warl_def fwft_zero_def Let_def)
  then obtain d f' where r: "fwft_set keep_warl (\<lambda>_. True) SBI_FWFT_POINTER_MASKING_PMLEN 9 0 (\<lambda>n. 0) fwft_zero = (SBI_ERR_INVALID_PARAM, d, f')"
    by (metis prod_cases3 fst_conv)
  from fwft_error_changes_nothing [OF keep_warl_hw this] r show ?thesis by simp
qed

theorem fwft_switch_restores_witness:
  "\<exists>d' f'. fwft_hart_switch_in keep_warl (\<lambda>_. True) False (\<lambda>n. - 1)
       (fwft_hart_switch_out (\<lambda>_. True) (fst (snd pmlen_set)) fwft_zero) = (d', f') \<and>
     fst (fwft_get keep_warl (\<lambda>_. True) SBI_FWFT_POINTER_MASKING_PMLEN d') =
     fst (fwft_get keep_warl (\<lambda>_. True) SBI_FWFT_POINTER_MASKING_PMLEN (fst (snd pmlen_set)))"
proof -
  have "fst (snd pmlen_set) CSR_MEDELEG AND MISALIGNED_DELEG \<in> {0, MISALIGNED_DELEG}"
    by (simp add: pmlen_set_def fwft_set_def feature_check_def feature_exists_def feature_field_def
      envcfg_update_def envcfg_write_eq keep_warl_def fwft_zero_def Let_def)
  moreover obtain d' f' where s: "fwft_hart_switch_in keep_warl (\<lambda>_. True) False (\<lambda>n. - 1)
       (fwft_hart_switch_out (\<lambda>_. True) (fst (snd pmlen_set)) fwft_zero) = (d', f')"
    by (rule prod.exhaust)
  ultimately show ?thesis
    using fwft_switch_restores [OF keep_warl_hw keep_warl_hw(2) _ s] by blast
qed

theorem fwft_fresh_is_reset_witness:
  "\<exists>d' f'. fwft_hart_switch_in keep_warl (\<lambda>_. True) True (\<lambda>n. - 1) fwft_zero = (d', f') \<and>
     fst (fwft_get keep_warl (\<lambda>_. True) SBI_FWFT_LANDING_PAD d') = Inr 0"
proof -
  obtain d' f' where s: "fwft_hart_switch_in keep_warl (\<lambda>_. True) True (\<lambda>n. - 1) fwft_zero = (d', f')"
    by (cases "fwft_hart_switch_in keep_warl (\<lambda>_. True) True (\<lambda>n. - 1) fwft_zero")
  obtain v where v: "fst (fwft_get keep_warl (\<lambda>_. True) SBI_FWFT_LANDING_PAD d') = Inr v"
    by (simp add: fwft_get_def feature_check_def feature_exists_def feature_field_def
      envcfg_update_def envcfg_write_eq keep_warl_def Let_def BIT_eq_power)
  from fwft_fresh_is_reset [OF keep_warl_hw s v] s v show ?thesis by auto
qed

end
