(* ===== verification/Dbtr.thy ===== *)
theory Dbtr
  imports Protection
begin

text \<open>
  Debug triggers for S-mode (\<^verbatim>\<open>arch/riscv/runtime/dbtr.c\<close>). The triggers of a hart
  are banks of three registers behind tselect; what the hardware has of them and
  what it keeps of a value written to one is a record the operations take. The
  shared memory is the list of entries at the address S-mode gave.
\<close>

abbreviation TDATA1_TYPE_SHIFT :: nat where "TDATA1_TYPE_SHIFT \<equiv> 60"
abbreviation TYPE_MCONTROL :: nat where "TYPE_MCONTROL \<equiv> 2"
abbreviation TYPE_ICOUNT :: nat where "TYPE_ICOUNT \<equiv> 3"
abbreviation TYPE_ITRIGGER :: nat where "TYPE_ITRIGGER \<equiv> 4"
abbreviation TYPE_ETRIGGER :: nat where "TYPE_ETRIGGER \<equiv> 5"
abbreviation TYPE_MCONTROL6 :: nat where "TYPE_MCONTROL6 \<equiv> 6"
abbreviation STATE_MAPPED :: ulong where "STATE_MAPPED \<equiv> 0x01"
abbreviation STATE_U :: ulong where "STATE_U \<equiv> 0x02"
abbreviation STATE_S :: ulong where "STATE_S \<equiv> 0x04"
abbreviation STATE_VU :: ulong where "STATE_VU \<equiv> 0x08"
abbreviation STATE_VS :: ulong where "STATE_VS \<equiv> 0x10"
abbreviation STATE_HAVE_HW :: ulong where "STATE_HAVE_HW \<equiv> 0x20"
abbreviation STATE_HW_IDX_SHIFT :: nat where "STATE_HW_IDX_SHIFT \<equiv> 8"
abbreviation SHMEM_NONE :: ulong where "SHMEM_NONE \<equiv> - 1"

definition TDATA1_TYPE :: "ulong \<Rightarrow> nat" where
  "TDATA1_TYPE v = unat (drop_bit TDATA1_TYPE_SHIFT v)"

definition TDATA1_DMODE :: ulong where
  "TDATA1_DMODE = BIT 59"

record trigger_type =
  tt_u :: ulong
  tt_s :: ulong
  tt_m :: ulong
  tt_vu :: ulong
  tt_vs :: ulong
  tt_chain :: ulong
  tt_hit :: ulong

definition trigger_types :: "nat \<Rightarrow> trigger_type" where
  "trigger_types ty =
     (if ty = TYPE_MCONTROL then
        \<lparr>tt_u = BIT 3, tt_s = BIT 4, tt_m = BIT 6, tt_vu = 0, tt_vs = 0, tt_chain = BIT 11, tt_hit = BIT 20\<rparr>
      else if ty = TYPE_MCONTROL6 then
        \<lparr>tt_u = BIT 3, tt_s = BIT 4, tt_m = BIT 6, tt_vu = BIT 23, tt_vs = BIT 24, tt_chain = BIT 11,
         tt_hit = BIT 22 OR BIT 25\<rparr>
      else if ty = TYPE_ICOUNT then
        \<lparr>tt_u = BIT 6, tt_s = BIT 7, tt_m = BIT 9, tt_vu = BIT 25, tt_vs = BIT 26, tt_chain = 0,
         tt_hit = BIT 24 OR BIT 8\<rparr>
      else if ty = TYPE_ITRIGGER \<or> ty = TYPE_ETRIGGER then
        \<lparr>tt_u = BIT 6, tt_s = BIT 7, tt_m = BIT 9, tt_vu = BIT 11, tt_vs = BIT 12, tt_chain = 0,
         tt_hit = BIT 58\<rparr>
      else \<lparr>tt_u = 0, tt_s = 0, tt_m = 0, tt_vu = 0, tt_vs = 0, tt_chain = 0, tt_hit = 0\<rparr>)"

record dbtr_entry =
  de_idx :: ulong
  de_tdata1 :: ulong
  de_tdata2 :: ulong
  de_tdata3 :: ulong

record dbtr_hart =
  dh_shmem :: ulong
  dh_count :: nat
  dh_has_tdata3 :: bool
  dh_types :: "u32 list"
  dh_state :: "ulong list"
  dh_saved :: "(ulong \<times> ulong \<times> ulong) list"

text \<open>
  The trigger module: how many triggers tselect takes (0 where it traps), tinfo
  where there is one, tdata3, and what a trigger keeps of a value for a register.
\<close>

datatype tdata = TDATA1 | TDATA2 | TDATA3

type_synonym trigs = "nat \<Rightarrow> tdata \<Rightarrow> ulong"

record sdtrig =
  nr_trigs :: nat
  tinfo :: "nat \<Rightarrow> u32 option"
  has_tdata3 :: bool
  tkeep :: "nat \<Rightarrow> tdata \<Rightarrow> ulong \<Rightarrow> ulong"

definition tdata_write :: "sdtrig \<Rightarrow> nat \<Rightarrow> tdata \<Rightarrow> ulong \<Rightarrow> trigs \<Rightarrow> trigs" where
  "tdata_write hw idx r v t = t(idx := (t idx)(r := tkeep hw idx r v))"

section \<open>Operations\<close>

definition type_of :: "ulong \<Rightarrow> trigger_type" where
  "type_of tdata1 = trigger_types (TDATA1_TYPE tdata1)"

definition mode_bits :: "ulong \<Rightarrow> ulong" where
  "mode_bits tdata1 = (let t = type_of tdata1 in tt_u t OR tt_s t OR tt_vu t OR tt_vs t)"

definition chained :: "ulong \<Rightarrow> bool" where
  "chained tdata1 \<longleftrightarrow> tdata1 AND tt_chain (type_of tdata1) \<noteq> 0"

definition hw_clear :: "sdtrig \<Rightarrow> nat \<Rightarrow> trigs \<Rightarrow> trigs" where
  "hw_clear hw idx t =
     (let t1 = tdata_write hw idx TDATA1 0 t;
          tdata1 = t1 idx TDATA1;
          t2 = (if tdata1 \<noteq> 0
                then tdata_write hw idx TDATA1 (tdata1 AND push_bit TDATA1_TYPE_SHIFT 0xf) t1 else t1)
      in tdata_write hw idx TDATA2 0 t2)"

text \<open>The probe of one trigger after the other; \<open>n\<close> is what is left of the limit.\<close>

primrec probe_triggers :: "sdtrig \<Rightarrow> nat \<Rightarrow> nat \<Rightarrow> dbtr_hart \<Rightarrow> trigs \<Rightarrow> dbtr_hart \<times> trigs" where
  "probe_triggers hw i 0 d t = (d, t)"
| "probe_triggers hw i (Suc n) d t =
     (if \<not> i < nr_trigs hw then (d, t)
      else let types = (case tinfo hw i of
                          Some val \<Rightarrow> val AND 0xffff
                        | None \<Rightarrow> push_bit (TDATA1_TYPE (t i TDATA1)) 1);
               d = d\<lparr>dh_types := (dh_types d)[i := types]\<rparr>
           in if types = 1 then (d, t)
              else probe_triggers hw (Suc i) n (d\<lparr>dh_count := i + 1\<rparr>) (hw_clear hw i t))"

definition dbtr_hart_init :: "config \<Rightarrow> sdtrig \<Rightarrow> trigs \<Rightarrow> dbtr_hart \<times> trigs" where
  "dbtr_hart_init cfg hw t =
     (let mx = SBI_DBTR_MAX_TRIGGERS cfg;
          d0 = \<lparr>dh_shmem = SHMEM_NONE, dh_count = 0, dh_has_tdata3 = False,
                dh_types = replicate mx 0, dh_state = replicate mx 0, dh_saved = replicate mx (0, 0, 0)\<rparr>;
          (d, t) = probe_triggers hw 0 mx d0 t
      in (if dh_count d \<noteq> 0 then d\<lparr>dh_has_tdata3 := has_tdata3 hw\<rparr> else d, t))"

definition mapped :: "dbtr_hart \<Rightarrow> nat \<Rightarrow> bool" where
  "mapped d i \<longleftrightarrow> dh_state d ! i AND STATE_MAPPED \<noteq> 0"

definition switch_out_one :: "sdtrig \<Rightarrow> nat \<Rightarrow> dbtr_hart \<times> trigs \<Rightarrow> dbtr_hart \<times> trigs" where
  "switch_out_one hw i s =
     (let (d, t) = s in
      if \<not> mapped d i then (d, t)
      else (d\<lparr>dh_saved := (dh_saved d)[i := (t i TDATA1, t i TDATA2, if dh_has_tdata3 d then t i TDATA3 else 0)]\<rparr>,
            hw_clear hw i t))"

definition dbtr_hart_switch_out :: "sdtrig \<Rightarrow> dbtr_hart \<Rightarrow> trigs \<Rightarrow> dbtr_hart \<times> trigs" where
  "dbtr_hart_switch_out hw d t = fold (switch_out_one hw) [0..<dh_count d] (d, t)"

definition switch_in_one :: "sdtrig \<Rightarrow> dbtr_hart \<Rightarrow> nat \<Rightarrow> trigs \<Rightarrow> trigs" where
  "switch_in_one hw d i t =
     (if \<not> mapped d i then t
      else let (d1, d2, d3) = dh_saved d ! i;
               t1 = hw_clear hw i t;
               t2 = tdata_write hw i TDATA2 d2 t1;
               t3 = (if dh_has_tdata3 d then tdata_write hw i TDATA3 d3 t2 else t2)
           in tdata_write hw i TDATA1 d1 t3)"

definition dbtr_hart_switch_in ::
  "config \<Rightarrow> sdtrig \<Rightarrow> bool \<Rightarrow> dbtr_hart \<Rightarrow> trigs \<Rightarrow> dbtr_hart \<times> trigs" where
  "dbtr_hart_switch_in cfg hw fresh d t =
     (if fresh then dbtr_hart_init cfg hw t
      else (d, fold (switch_in_one hw d) [0..<dh_count d] t))"

definition dbtr_num_triggers :: "dbtr_hart \<Rightarrow> ulong \<Rightarrow> nat" where
  "dbtr_num_triggers d tdata1 =
     (if tdata1 = 0 then dh_count d
      else if tt_s (type_of tdata1) = 0 then 0
      else length (filter (\<lambda>i. bit (dh_types d ! i) (TDATA1_TYPE tdata1)) [0..<dh_count d]))"

definition dbtr_set_shmem ::
  "memregion list \<Rightarrow> domain option \<Rightarrow> ulong \<Rightarrow> ulong \<Rightarrow> ulong \<Rightarrow> dbtr_hart \<Rightarrow> sbi \<times> dbtr_hart" where
  "dbtr_set_shmem mrs dm lo hi flags d =
     (if flags \<noteq> 0 then (SBI_ERR_INVALID_PARAM, d)
      else if lo = - 1 \<and> hi = - 1 then (SBI_SUCCESS, d\<lparr>dh_shmem := SHMEM_NONE\<rparr>)
      else if \<not> IS_ALIGNED lo 8 then (SBI_ERR_INVALID_PARAM, d)
      else if hi \<noteq> 0 \<or> \<not> smode_range_ok mrs dm lo (of_nat (dh_count d) * 32)
      then (SBI_ERR_INVALID_ADDRESS, d)
      else (SBI_SUCCESS, d\<lparr>dh_shmem := lo\<rparr>))"

definition config_check :: "dbtr_entry \<Rightarrow> sbi" where
  "config_check cfg =
     (let t = type_of (de_tdata1 cfg) in
      if tt_s t = 0 then SBI_ERR_NOT_SUPPORTED
      else if de_tdata1 cfg AND TDATA1_DMODE \<noteq> 0 \<or> de_tdata1 cfg AND tt_m t \<noteq> 0
      then SBI_ERR_INVALID_PARAM
      else SBI_SUCCESS)"

definition hw_program :: "sdtrig \<Rightarrow> dbtr_hart \<Rightarrow> nat \<Rightarrow> dbtr_entry \<Rightarrow> trigs \<Rightarrow> bool \<times> trigs" where
  "hw_program hw d idx cfg t =
     (let t1 = hw_clear hw idx t;
          t2 = tdata_write hw idx TDATA2 (de_tdata2 cfg) t1
      in if \<not> dh_has_tdata3 d \<and> de_tdata3 cfg \<noteq> 0 then (False, t2)
         else let t3 = (if dh_has_tdata3 d then tdata_write hw idx TDATA3 (de_tdata3 cfg) t2 else t2);
                  t4 = tdata_write hw idx TDATA1 (de_tdata1 cfg) t3;
                  got = t4 idx TDATA1
              in if (got XOR de_tdata1 cfg) AND NOT (tt_hit (type_of (de_tdata1 cfg))) \<noteq> 0
                 then (False, hw_clear hw idx t4) else (True, t4))"

definition state_of :: "nat \<Rightarrow> ulong \<Rightarrow> ulong" where
  "state_of idx tdata1 =
     (let t = type_of tdata1 in
      STATE_MAPPED OR STATE_HAVE_HW OR push_bit STATE_HW_IDX_SHIFT (of_nat idx) OR
      (if tdata1 AND tt_u t \<noteq> 0 then STATE_U else 0) OR (if tdata1 AND tt_s t \<noteq> 0 then STATE_S else 0) OR
      (if tdata1 AND tt_vu t \<noteq> 0 then STATE_VU else 0) OR (if tdata1 AND tt_vs t \<noteq> 0 then STATE_VS else 0))"

definition entries_get :: "dbtr_hart \<Rightarrow> ulong \<Rightarrow> sbi" where
  "entries_get d count =
     (if dh_shmem d = SHMEM_NONE then SBI_ERR_NO_SHMEM
      else if count > of_nat (dh_count d) then SBI_ERR_BAD_RANGE else SBI_SUCCESS)"

definition read_entry :: "dbtr_hart \<Rightarrow> trigs \<Rightarrow> nat \<Rightarrow> dbtr_entry" where
  "read_entry d t i = \<lparr>de_idx = dh_state d ! i, de_tdata1 = t i TDATA1, de_tdata2 = t i TDATA2,
     de_tdata3 = (if dh_has_tdata3 d then t i TDATA3 else 0)\<rparr>"

definition dbtr_read ::
  "dbtr_hart \<Rightarrow> trigs \<Rightarrow> ulong \<Rightarrow> ulong \<Rightarrow> dbtr_entry list \<Rightarrow> sbi \<times> dbtr_entry list" where
  "dbtr_read d t base count mem =
     (let rc = entries_get d count in
      if rc \<noteq> SBI_SUCCESS then (rc, mem)
      else if base \<ge> of_nat (dh_count d) \<or> count > of_nat (dh_count d) - base
      then (SBI_ERR_BAD_RANGE, mem)
      else (SBI_SUCCESS, fold (\<lambda>i mem. mem[i := read_entry d t (unat base + i)]) [0..<unat count] mem))"

definition run_fits :: "dbtr_hart \<Rightarrow> dbtr_entry list \<Rightarrow> nat \<Rightarrow> bool list \<Rightarrow> nat \<Rightarrow> bool" where
  "run_fits d cfg len taken start \<longleftrightarrow>
     list_all (\<lambda>i. \<not> (mapped d (start + i) \<or> taken ! (start + i) \<or>
                     \<not> bit (dh_types d ! (start + i)) (TDATA1_TYPE (de_tdata1 (cfg ! i))))) [0..<len]"

definition find_run :: "dbtr_hart \<Rightarrow> dbtr_entry list \<Rightarrow> nat \<Rightarrow> bool list \<Rightarrow> nat option" where
  "find_run d cfg len taken = find (run_fits d cfg len taken) [0..<dh_count d + 1 - len]"

text \<open>The length of the chain a list of configurations starts with.\<close>

fun chain_len :: "dbtr_entry list \<Rightarrow> nat" where
  "chain_len [] = 1"
| "chain_len (c # cs) = (if chained (de_tdata1 c) then Suc (chain_len cs) else 1)"

lemma chain_len_pos: "0 < chain_len cs"
  by (cases cs) auto

text \<open>The index of the configuration that fails the check, with why.\<close>

fun configs_check :: "nat \<Rightarrow> dbtr_entry list \<Rightarrow> (nat \<times> sbi) option" where
  "configs_check i [] = None"
| "configs_check i (c # cs) =
     (let rc = config_check c;
          rc = (if rc = SBI_SUCCESS \<and> cs = [] \<and> chained (de_tdata1 c) then SBI_ERR_INVALID_PARAM else rc)
      in if rc \<noteq> SBI_SUCCESS then Some (i, rc) else configs_check (Suc i) cs)"

definition take_run :: "nat \<Rightarrow> nat \<Rightarrow> bool list \<Rightarrow> bool list" where
  "take_run start len taken = fold (\<lambda>k taken. taken[start + k := True]) [0..<len] taken"

function place :: "dbtr_hart \<Rightarrow> nat \<Rightarrow> dbtr_entry list \<Rightarrow> bool list \<Rightarrow> nat + nat list" where
  "place d i cfg taken =
     (if cfg = [] then Inr []
      else let len = chain_len cfg in
           case find_run d cfg len taken of
             None \<Rightarrow> Inl i
           | Some start \<Rightarrow>
               (case place d (i + len) (drop len cfg) (take_run start len taken) of
                  Inl failed \<Rightarrow> Inl failed
                | Inr where \<Rightarrow> Inr (map ((+) start) [0..<len] @ where)))"
  by pat_completeness auto
termination
  by (relation "measure (\<lambda>(d, i, cfg, taken). length cfg)") (auto simp: chain_len_pos)

declare place.simps [simp del]

text \<open>Back to where it was, the last one first.\<close>

definition roll_back :: "sdtrig \<Rightarrow> nat list \<Rightarrow> dbtr_hart \<times> trigs \<Rightarrow> dbtr_hart \<times> trigs" where
  "roll_back hw ws s =
     fold (\<lambda>w (d, t). (d\<lparr>dh_state := (dh_state d)[w := 0]\<rparr>, hw_clear hw w t)) ws s"

fun program_all ::
  "sdtrig \<Rightarrow> nat list \<Rightarrow> (nat \<times> dbtr_entry) list \<Rightarrow> dbtr_hart \<Rightarrow> trigs \<Rightarrow> nat option \<times> dbtr_hart \<times> trigs" where
  "program_all hw prev [] d t = (None, d, t)"
| "program_all hw prev ((w, c) # rest) d t =
     (let (ok, t1) = hw_program hw d w c t in
      if \<not> ok then (Some (length prev), roll_back hw prev (d, t1))
      else program_all hw (w # prev) rest (d\<lparr>dh_state := (dh_state d)[w := state_of w (de_tdata1 c)]\<rparr>) t1)"

text \<open>Result, the index of the configuration that failed, the state, the shared memory.\<close>

definition dbtr_install ::
  "config \<Rightarrow> sdtrig \<Rightarrow> ulong \<Rightarrow> dbtr_entry list \<Rightarrow> dbtr_hart \<Rightarrow> trigs \<Rightarrow>
   sbi \<times> nat \<times> dbtr_hart \<times> trigs \<times> dbtr_entry list" where
  "dbtr_install cf hw count mem d t =
     (let rc = entries_get d count in
      if rc \<noteq> SBI_SUCCESS then (rc, 0, d, t, mem)
      else let cfg = take (unat count) mem in
        case configs_check 0 cfg of
          Some (i, rc) \<Rightarrow> (rc, i, d, t, mem)
        | None \<Rightarrow>
            (case place d 0 cfg (replicate (SBI_DBTR_MAX_TRIGGERS cf) False) of
               Inl i \<Rightarrow> (SBI_ERR_FAILED, i, d, t, mem)
             | Inr where \<Rightarrow>
                 (case program_all hw [] (zip where cfg) d t of
                    (Some i, d, t) \<Rightarrow> (SBI_ERR_NOT_SUPPORTED, i, d, t, mem)
                  | (None, d, t) \<Rightarrow>
                      (SBI_SUCCESS, 0, d, t,
                       fold (\<lambda>i mem. mem[i := (mem ! i)\<lparr>de_idx := of_nat (where ! i)\<rparr>]) [0..<unat count] mem))))"

fun update_all ::
  "sdtrig \<Rightarrow> nat \<Rightarrow> dbtr_entry list \<Rightarrow> dbtr_hart \<Rightarrow> trigs \<Rightarrow> sbi \<times> nat \<times> dbtr_hart \<times> trigs" where
  "update_all hw i [] d t = (SBI_SUCCESS, 0, d, t)"
| "update_all hw i (c # cs) d t =
     (let rc = config_check c in
      if rc \<noteq> SBI_SUCCESS then (rc, i, d, t)
      else if de_idx c \<ge> of_nat (dh_count d) then (SBI_ERR_INVALID_PARAM, i, d, t)
      else let idx = unat (de_idx c) in
        if \<not> mapped d idx then (SBI_ERR_FAILED, i, d, t)
        else let cur = t idx TDATA1 in
          if TDATA1_TYPE cur \<noteq> TDATA1_TYPE (de_tdata1 c) \<or> chained cur \<noteq> chained (de_tdata1 c)
          then (SBI_ERR_INVALID_PARAM, i, d, t)
          else let (ok, t1) = hw_program hw d idx c t in
            if \<not> ok then (SBI_ERR_NOT_SUPPORTED, i, d\<lparr>dh_state := (dh_state d)[idx := 0]\<rparr>, t1)
            else update_all hw (Suc i) cs
                   (d\<lparr>dh_state := (dh_state d)[idx := state_of idx (de_tdata1 c)]\<rparr>) t1)"

definition dbtr_update ::
  "sdtrig \<Rightarrow> ulong \<Rightarrow> dbtr_entry list \<Rightarrow> dbtr_hart \<Rightarrow> trigs \<Rightarrow> sbi \<times> nat \<times> dbtr_hart \<times> trigs" where
  "dbtr_update hw count mem d t =
     (let rc = entries_get d count in
      if rc \<noteq> SBI_SUCCESS then (rc, 0, d, t) else update_all hw 0 (take (unat count) mem) d t)"

datatype set_op = SET_UNINSTALL | SET_ENABLE | SET_DISABLE

definition set_op_one :: "sdtrig \<Rightarrow> set_op \<Rightarrow> nat \<Rightarrow> dbtr_hart \<times> trigs \<Rightarrow> dbtr_hart \<times> trigs" where
  "set_op_one hw op idx s =
     (let (d, t) = s in
      if op = SET_UNINSTALL then (d\<lparr>dh_state := (dh_state d)[idx := 0]\<rparr>, hw_clear hw idx t)
      else let state = dh_state d ! idx; tdata1 = t idx TDATA1; ty = type_of tdata1;
               modes = (if op = SET_ENABLE then
                          (if state AND STATE_U \<noteq> 0 then tt_u ty else 0) OR
                          (if state AND STATE_S \<noteq> 0 then tt_s ty else 0) OR
                          (if state AND STATE_VU \<noteq> 0 then tt_vu ty else 0) OR
                          (if state AND STATE_VS \<noteq> 0 then tt_vs ty else 0)
                        else 0)
           in (d, tdata_write hw idx TDATA1 ((tdata1 AND NOT (mode_bits tdata1)) OR modes) t))"

definition set_op_apply ::
  "sdtrig \<Rightarrow> ulong \<Rightarrow> ulong \<Rightarrow> set_op \<Rightarrow> dbtr_hart \<Rightarrow> trigs \<Rightarrow> sbi \<times> dbtr_hart \<times> trigs" where
  "set_op_apply hw base m op d t =
     (if list_ex (\<lambda>i. bit m i \<and>
           (base + of_nat i < base \<or> base + of_nat i \<ge> of_nat (dh_count d) \<or>
            \<not> mapped d (unat (base + of_nat i)))) [0..<64]
      then (SBI_ERR_INVALID_PARAM, d, t)
      else let (d, t) = fold (\<lambda>i s. if bit m i then set_op_one hw op (unat (base + of_nat i)) s else s)
                          [0..<64] (d, t)
           in (SBI_SUCCESS, d, t))"

definition dbtr_uninstall :: "sdtrig \<Rightarrow> ulong \<Rightarrow> ulong \<Rightarrow> dbtr_hart \<Rightarrow> trigs \<Rightarrow> sbi \<times> dbtr_hart \<times> trigs" where
  "dbtr_uninstall hw base m d t = set_op_apply hw base m SET_UNINSTALL d t"

definition dbtr_enable :: "sdtrig \<Rightarrow> ulong \<Rightarrow> ulong \<Rightarrow> dbtr_hart \<Rightarrow> trigs \<Rightarrow> sbi \<times> dbtr_hart \<times> trigs" where
  "dbtr_enable hw base m d t = set_op_apply hw base m SET_ENABLE d t"

definition dbtr_disable :: "sdtrig \<Rightarrow> ulong \<Rightarrow> ulong \<Rightarrow> dbtr_hart \<Rightarrow> trigs \<Rightarrow> sbi \<times> dbtr_hart \<times> trigs" where
  "dbtr_disable hw base m d t = set_op_apply hw base m SET_DISABLE d t"

section \<open>No trigger fires in M-mode\<close>

definition no_mmode :: "ulong \<Rightarrow> bool" where
  "no_mmode v \<longleftrightarrow> v AND TDATA1_DMODE = 0 \<and> v AND tt_m (type_of v) = 0"

text \<open>The hardware does not make a trigger one of M-mode's or of a debugger's by itself.\<close>

definition trig_hw :: "sdtrig \<Rightarrow> bool" where
  "trig_hw hw \<longleftrightarrow> (\<forall>i v. no_mmode v \<longrightarrow> no_mmode (tkeep hw i TDATA1 v))"

definition trig_safe :: "nat \<Rightarrow> trigs \<Rightarrow> bool" where
  "trig_safe n t \<longleftrightarrow> (\<forall>i<n. no_mmode (t i TDATA1))"

lemma TDATA1_DMODE_eq: "TDATA1_DMODE = 0x800000000000000"
  by (simp add: TDATA1_DMODE_def BIT_eq_power)

lemma trigger_types_cases:
  obtains "trigger_types ty = trigger_types 2" | "trigger_types ty = trigger_types 3"
  | "trigger_types ty = trigger_types 4" | "trigger_types ty = trigger_types 6" | "trigger_types ty = trigger_types 0"
proof -
  have "trigger_types 5 = trigger_types 4" by (simp add: trigger_types_def)
  moreover have "ty \<notin> {2, 3, 4, 5, 6} \<Longrightarrow> trigger_types ty = trigger_types 0" by (simp add: trigger_types_def)
  ultimately show ?thesis using that by fastforce
qed

lemma type_bits_low:
  "drop_bit 60 (tt_m (trigger_types ty)) = 0"
  "drop_bit 60 (tt_u (trigger_types ty) OR tt_s (trigger_types ty) OR tt_vu (trigger_types ty) OR tt_vs (trigger_types ty)) = 0"
  "(tt_u (trigger_types ty) OR tt_s (trigger_types ty) OR tt_vu (trigger_types ty) OR tt_vs (trigger_types ty)) AND tt_m (trigger_types ty) = 0"
  "(tt_u (trigger_types ty) OR tt_s (trigger_types ty) OR tt_vu (trigger_types ty) OR tt_vs (trigger_types ty)) AND TDATA1_DMODE = 0"
  by (rule trigger_types_cases [of ty]; simp add: trigger_types_def BIT_eq_power TDATA1_DMODE_eq)+

lemma type_field_only: "no_mmode (v AND push_bit TDATA1_TYPE_SHIFT 0xf)"
proof -
  let ?w = "v AND push_bit TDATA1_TYPE_SHIFT 0xf"
  have low: "push_bit 60 m AND x = 0" if "drop_bit 60 x = 0" for x m :: ulong
  proof (rule bit_eqI)
    fix n
    have "\<not> bit x n" if "60 \<le> n"
      using arg_cong [OF \<open>drop_bit 60 x = 0\<close>, of "\<lambda>w. bit w (n - 60)"] that by (simp add: bit_drop_bit_eq)
    then show "bit (push_bit 60 m AND x) n = bit (0 :: ulong) n"
      by (auto simp: bit_and_iff bit_push_bit_iff)
  qed
  have "?w AND tt_m (type_of ?w) = 0"
    using low [OF type_bits_low(1) [of "TDATA1_TYPE ?w"]] unfolding type_of_def by (simp only: and.assoc and_zero_eq)
  moreover have "?w AND TDATA1_DMODE = 0"
    using low [of TDATA1_DMODE] by (simp only: and.assoc) (simp add: TDATA1_DMODE_eq)
  ultimately show ?thesis by (simp add: no_mmode_def)
qed

lemma no_mmode_0: "no_mmode 0"
  by (simp add: no_mmode_def)

lemma hw_clear_other: "j \<noteq> i \<Longrightarrow> hw_clear hw i t j = t j"
  by (simp add: hw_clear_def tdata_write_def Let_def)

lemma hw_clear_safe:
  assumes "trig_hw hw"
  shows "no_mmode (hw_clear hw i t i TDATA1)"
  using assms no_mmode_0 type_field_only unfolding trig_hw_def
  by (auto simp: hw_clear_def tdata_write_def Let_def)

lemma hw_program_other: "hw_program hw d i c t = (ok, t') \<Longrightarrow> j \<noteq> i \<Longrightarrow> t' j = t j"
  by (auto simp: hw_program_def hw_clear_other tdata_write_def Let_def split: if_splits)

lemma config_check_safe: "config_check c = SBI_SUCCESS \<Longrightarrow> no_mmode (de_tdata1 c)"
  by (auto simp: config_check_def no_mmode_def Let_def split: if_splits)

lemma hw_program_safe:
  assumes "trig_hw hw" "config_check c = SBI_SUCCESS" "hw_program hw d i c t = (ok, t')"
  shows "no_mmode (t' i TDATA1)"
proof -
  have "no_mmode (tkeep hw i TDATA1 (de_tdata1 c))"
    using assms(1) config_check_safe [OF assms(2)] unfolding trig_hw_def by blast
  then show ?thesis
    using assms(3) hw_clear_safe [OF assms(1), of i]
    by (auto simp: hw_program_def tdata_write_def Let_def split: if_splits)
qed

lemma trig_safe_upd: "trig_safe n t \<Longrightarrow> no_mmode (t' i TDATA1) \<Longrightarrow> (\<And>j. j \<noteq> i \<Longrightarrow> t' j = t j) \<Longrightarrow> trig_safe n t'"
  unfolding trig_safe_def by metis

lemma hw_clear_trig_safe: "trig_hw hw \<Longrightarrow> trig_safe n t \<Longrightarrow> trig_safe n (hw_clear hw i t)"
  by (rule trig_safe_upd [where t = t and i = i]) (auto simp: hw_clear_safe hw_clear_other)

lemma hw_program_trig_safe:
  "trig_hw hw \<Longrightarrow> config_check c = SBI_SUCCESS \<Longrightarrow> hw_program hw d i c t = (ok, t') \<Longrightarrow> trig_safe n t \<Longrightarrow> trig_safe n t'"
  by (rule trig_safe_upd [where t = t and i = i]) (auto simp: hw_program_safe hw_program_other)

definition same_shape :: "dbtr_hart \<Rightarrow> dbtr_hart \<Rightarrow> bool" where
  "same_shape d d' \<longleftrightarrow> dh_count d' = dh_count d \<and> dh_types d' = dh_types d \<and> dh_has_tdata3 d' = dh_has_tdata3 d \<and>
     length (dh_state d') = length (dh_state d) \<and> dh_saved d' = dh_saved d"

lemma same_shape_refl [simp]: "same_shape d d"
  by (simp add: same_shape_def)

lemma same_shape_trans: "same_shape d d' \<Longrightarrow> same_shape d' d'' \<Longrightarrow> same_shape d d''"
  by (simp add: same_shape_def)

lemma same_shape_state [simp]:
  "same_shape (d\<lparr>dh_state := (dh_state d)[w := v]\<rparr>) d' = same_shape d d'"
  "same_shape d (d'\<lparr>dh_state := (dh_state d')[w := v]\<rparr>) = same_shape d d'"
  by (simp_all add: same_shape_def)

lemma roll_back_safe:
  "trig_hw hw \<Longrightarrow> trig_safe n t \<Longrightarrow> roll_back hw ws (d, t) = (d', t') \<Longrightarrow>
   trig_safe n t' \<and> same_shape d d'"
proof (induction ws arbitrary: d t)
  case (Cons w ws)
  then show ?case
    using Cons.IH [OF Cons.prems(1) hw_clear_trig_safe [OF Cons.prems(1,2), of w], of "d\<lparr>dh_state := (dh_state d)[w := 0]\<rparr>"]
    by (simp add: roll_back_def same_shape_def)
qed (simp add: roll_back_def same_shape_def)

lemma program_all_safe:
  "trig_hw hw \<Longrightarrow> \<forall>(w, c)\<in>set wcs. config_check c = SBI_SUCCESS \<Longrightarrow> trig_safe n t \<Longrightarrow>
   program_all hw prev wcs d t = (r, d', t') \<Longrightarrow> trig_safe n t' \<and> same_shape d d'"
proof (induction hw prev wcs d t rule: program_all.induct)
  case (2 hw prev w c rest d t)
  obtain ok t1 where p: "hw_program hw d w c t = (ok, t1)" by (cases "hw_program hw d w c t")
  have s: "trig_safe n t1" using hw_program_trig_safe [OF 2(2) _ p] 2(3,4) by auto
  show ?case
  proof (cases ok)
    case True
    then show ?thesis using 2(1) [OF p [symmetric] refl] 2(2-5) p s by auto
  next
    case False
    then show ?thesis using 2(5) p s roll_back_safe [OF 2(2) s, of prev d d' t'] by auto
  qed
qed simp

lemma configs_check_None: "configs_check i cfg = None \<Longrightarrow> c \<in> set cfg \<Longrightarrow> config_check c = SBI_SUCCESS"
  by (induction i cfg rule: configs_check.induct) (auto simp: Let_def split: if_splits)

lemma dbtr_install_safe:
  assumes "trig_hw hw" "trig_safe n t" "dbtr_install cf hw count mem d t = (rc, i, d', t', mem')"
  shows "trig_safe n t' \<and> same_shape d d'"
proof (cases "configs_check 0 (take (unat count) mem)")
  case None
  have chk: "\<forall>(w, c)\<in>set (zip ws (take (unat count) mem)). config_check c = SBI_SUCCESS" for ws :: "nat list"
    using configs_check_None [OF None] by (auto dest: set_zip_rightD)
  show ?thesis
    using None assms(2,3) program_all_safe [OF assms(1) chk assms(2)]
    by (auto simp: dbtr_install_def Let_def split: if_splits sum.splits prod.splits option.splits)
qed (use assms(2,3) in \<open>auto simp: dbtr_install_def Let_def split: if_splits\<close>)

lemma update_all_safe:
  "trig_hw hw \<Longrightarrow> trig_safe n t \<Longrightarrow> update_all hw i cs d t = (rc, k, d', t') \<Longrightarrow>
   trig_safe n t' \<and> same_shape d d'"
proof (induction hw i cs d t rule: update_all.induct)
  case (2 hw i c cs d t)
  show ?case
  proof (cases "config_check c \<noteq> SBI_SUCCESS \<or> de_idx c \<ge> of_nat (dh_count d) \<or> \<not> mapped d (unat (de_idx c)) \<or>
      TDATA1_TYPE (t (unat (de_idx c)) TDATA1) \<noteq> TDATA1_TYPE (de_tdata1 c) \<or>
      chained (t (unat (de_idx c)) TDATA1) \<noteq> chained (de_tdata1 c)")
    case True
    then show ?thesis using 2(3,4) by (auto simp: Let_def split: if_splits)
  next
    case False
    obtain ok t1 where p: "hw_program hw d (unat (de_idx c)) c t = (ok, t1)"
      by (cases "hw_program hw d (unat (de_idx c)) c t")
    have "trig_safe n t1" using hw_program_trig_safe [OF 2(2) _ p] 2(3) False by auto
    then show ?thesis
      using 2(1) [OF refl _ _ refl _ refl _ p [symmetric] refl] 2(2,4) False p by (auto simp: Let_def split: if_splits)
  qed
qed simp

lemma modes_write_safe:
  assumes "no_mmode v" "x AND NOT (mode_bits v) = 0"
  shows "no_mmode ((v AND NOT (mode_bits v)) OR x)"
proof -
  let ?w = "(v AND NOT (mode_bits v)) OR x"
  have mb: "mode_bits v AND tt_m (type_of v) = 0" "mode_bits v AND TDATA1_DMODE = 0" "drop_bit 60 (mode_bits v) = 0"
    unfolding mode_bits_def type_of_def Let_def by (rule type_bits_low)+
  have xb: "bit (mode_bits v) n" if "bit x n" for n
    using that arg_cong [OF assms(2), of "\<lambda>w. bit w n"] bit_imp_le_length [OF that]
    by (simp add: bit_and_iff bit_not_iff)
  have x: "x AND mode_bits v = x" by (rule bit_eqI) (auto simp: bit_and_iff dest: xb)
  have "drop_bit 60 ?w = drop_bit 60 v"
  proof -
    have m: "\<not> bit (mode_bits v) (60 + n)" for n
      using arg_cong [OF mb(3), of "\<lambda>w. bit w n"] by (simp add: bit_drop_bit_eq)
    show ?thesis
    proof (rule bit_eqI)
      fix n
      show "bit (drop_bit 60 ?w) n = bit (drop_bit 60 v) n"
        using m [of n] xb [of "60 + n"] bit_imp_le_length [of v "60 + n"]
        by (auto simp: bit_drop_bit_eq bit_and_iff bit_or_iff bit_not_iff)
    qed
  qed
  then have ty: "type_of ?w = type_of v" by (simp add: type_of_def TDATA1_TYPE_def)
  have xy: "x AND y = 0" if "mode_bits v AND y = 0" for y
  proof -
    have "(x AND mode_bits v) AND y = 0" using that by (simp add: and.assoc)
    then show ?thesis by (simp only: x)
  qed
  have "x AND tt_m (type_of v) = 0" "x AND TDATA1_DMODE = 0" by (rule xy, rule mb)+
  moreover have "(v AND NOT (mode_bits v)) AND y = 0" if "v AND y = 0" for y
  proof -
    have "(v AND NOT (mode_bits v)) AND y = (v AND y) AND NOT (mode_bits v)" by (simp add: ac_simps)
    then show ?thesis using that by simp
  qed
  ultimately show ?thesis
    using assms(1) unfolding no_mmode_def ty by (simp add: bit.conj_disj_distrib2)
qed

lemma set_op_one_safe:
  assumes "trig_hw hw" "trig_safe n t" "no_mmode (t idx TDATA1)" "set_op_one hw op idx (d, t) = (d', t')"
  shows "trig_safe n t' \<and> same_shape d d' \<and> no_mmode (t' idx TDATA1) \<and> (\<forall>j. j \<noteq> idx \<longrightarrow> t' j = t j)"
proof (cases "op = SET_UNINSTALL")
  case True
  then show ?thesis
    using assms hw_clear_trig_safe [OF assms(1,2), of idx] hw_clear_safe [OF assms(1)] hw_clear_other
    by (auto simp: set_op_one_def)
next
  case False
  let ?v = "t idx TDATA1" and ?st = "dh_state d ! idx"
  define modes where "modes = (if op = SET_ENABLE then
      (if ?st AND STATE_U \<noteq> 0 then tt_u (type_of ?v) else 0) OR
      (if ?st AND STATE_S \<noteq> 0 then tt_s (type_of ?v) else 0) OR
      (if ?st AND STATE_VU \<noteq> 0 then tt_vu (type_of ?v) else 0) OR
      (if ?st AND STATE_VS \<noteq> 0 then tt_vs (type_of ?v) else 0) else 0)"
  have "modes AND NOT (mode_bits ?v) = 0"
    by (rule bit_eqI) (auto simp: modes_def mode_bits_def Let_def bit_and_iff bit_not_iff bit_or_iff)
  from modes_write_safe [OF assms(3) this]
  have "no_mmode (tkeep hw idx TDATA1 ((?v AND NOT (mode_bits ?v)) OR modes))"
    using assms(1) unfolding trig_hw_def by blast
  moreover have "t' = tdata_write hw idx TDATA1 ((?v AND NOT (mode_bits ?v)) OR modes) t" "d' = d"
    using assms(4) False by (auto simp: set_op_one_def modes_def Let_def)
  ultimately show ?thesis
    using trig_safe_upd [OF assms(2), of t' idx] by (auto simp: tdata_write_def)
qed

lemma set_op_apply_safe:
  assumes "trig_hw hw" "trig_safe (dh_count d) t" "set_op_apply hw base m op d t = (rc, d', t')"
  shows "trig_safe (dh_count d) t' \<and> same_shape d d'"
proof (cases "list_ex (\<lambda>i. bit m i \<and> (base + of_nat i < base \<or> base + of_nat i \<ge> of_nat (dh_count d) \<or>
            \<not> mapped d (unat (base + of_nat i)))) [0..<64]")
  case True
  then show ?thesis using assms(2,3) by (simp add: set_op_apply_def)
next
  case False
  have ok: "of_nat (dh_count d) > base + of_nat i" if "i \<in> set [0..<64]" "bit m i" for i
    using False that by (auto simp: list_ex_iff not_le)
  have lt: "unat (base + of_nat i) < dh_count d" if "i \<in> set [0..<64]" "bit m i" for i
    using ok [OF that] by (rule below_of_nat)
  have "trig_safe (dh_count d) t2 \<and> same_shape d d2"
    if "fold (\<lambda>i s. if bit m i then set_op_one hw op (unat (base + of_nat i)) s else s) is (d1, t1) = (d2, t2)"
      "set is \<subseteq> set [0..<64]" "trig_safe (dh_count d) t1" "same_shape d d1" for "is" d1 t1 d2 t2
    using that
  proof (induction "is" arbitrary: d1 t1)
    case (Cons i "is")
    show ?case
    proof (cases "bit m i")
      case True
      obtain d3 t3 where s: "set_op_one hw op (unat (base + of_nat i)) (d1, t1) = (d3, t3)"
        by (cases "set_op_one hw op (unat (base + of_nat i)) (d1, t1)")
      have "no_mmode (t1 (unat (base + of_nat i)) TDATA1)"
        using Cons.prems(2,3) lt [of i] True by (simp add: trig_safe_def)
      from set_op_one_safe [OF assms(1) Cons.prems(3) this s] Cons True s same_shape_trans [of d d1 d3]
      show ?thesis by simp
    qed (use Cons in simp)
  qed simp
  from this [of "[0..<64]" d t] assms(2,3) False show ?thesis
    by (auto simp: set_op_apply_def split: prod.splits)
qed

lemma probe_safe:
  "trig_hw hw \<Longrightarrow> trig_safe i t \<Longrightarrow> dh_count d = i \<Longrightarrow> probe_triggers hw i n d t = (d', t') \<Longrightarrow>
   trig_safe (dh_count d') t'"
proof (induction n arbitrary: i d t)
  case (Suc n)
  have "trig_safe (Suc i) (hw_clear hw i t)"
    using hw_clear_trig_safe [OF Suc.prems(1,2), of i] hw_clear_safe [OF Suc.prems(1), of i t]
    by (auto simp: trig_safe_def less_Suc_eq)
  then have "probe_triggers hw (Suc i) n d2 (hw_clear hw i t) = (d', t') \<Longrightarrow> dh_count d2 = Suc i \<Longrightarrow>
      trig_safe (dh_count d') t'" for d2
    using Suc.IH Suc.prems(1) by blast
  with Suc.prems show ?case by (auto simp: Let_def split: if_splits)
qed simp

lemma dbtr_hart_init_safe:
  assumes "trig_hw hw" "dbtr_hart_init cfg hw t = (d, t')"
  shows "trig_safe (dh_count d) t'"
proof -
  have z: "trig_safe 0 t" by (simp add: trig_safe_def)
  define d0 where "d0 = \<lparr>dh_shmem = SHMEM_NONE, dh_count = 0, dh_has_tdata3 = False,
                dh_types = replicate (SBI_DBTR_MAX_TRIGGERS cfg) 0, dh_state = replicate (SBI_DBTR_MAX_TRIGGERS cfg) 0,
                dh_saved = replicate (SBI_DBTR_MAX_TRIGGERS cfg) (0, 0, 0)\<rparr>"
  obtain d1 t1 where p: "probe_triggers hw 0 (SBI_DBTR_MAX_TRIGGERS cfg) d0 t = (d1, t1)"
    by (cases "probe_triggers hw 0 (SBI_DBTR_MAX_TRIGGERS cfg) d0 t")
  have "trig_safe (dh_count d1) t1" using probe_safe [OF assms(1) z _ p] by (simp add: d0_def)
  moreover have "t' = t1" "dh_count d = dh_count d1"
    using assms(2) p by (auto simp: dbtr_hart_init_def Let_def d0_def [symmetric])
  ultimately show ?thesis by simp
qed

lemma switch_out_saves:
  assumes "distinct is" "\<forall>i\<in>set is. i < length (dh_saved d)" "fold (switch_out_one hw) is (d, t) = (d', t')"
  shows "dh_state d' = dh_state d \<and> dh_count d' = dh_count d \<and> dh_has_tdata3 d' = dh_has_tdata3 d \<and>
    length (dh_saved d') = length (dh_saved d) \<and>
    (\<forall>i. i \<in> set is \<and> mapped d i \<longrightarrow>
       dh_saved d' ! i = (t i TDATA1, t i TDATA2, if dh_has_tdata3 d then t i TDATA3 else 0)) \<and>
    (\<forall>i. i \<notin> set is \<longrightarrow> dh_saved d' ! i = dh_saved d ! i)"
  using assms
proof (induction "is" arbitrary: d t)
  case (Cons i "is")
  obtain d1 t1 where s: "switch_out_one hw i (d, t) = (d1, t1)" by (cases "switch_out_one hw i (d, t)")
  have one: "dh_state d1 = dh_state d" "dh_count d1 = dh_count d" "dh_has_tdata3 d1 = dh_has_tdata3 d"
    "length (dh_saved d1) = length (dh_saved d)"
    "mapped d i \<Longrightarrow> dh_saved d1 ! i = (t i TDATA1, t i TDATA2, if dh_has_tdata3 d then t i TDATA3 else 0)"
    "\<And>j. j \<noteq> i \<Longrightarrow> dh_saved d1 ! j = dh_saved d ! j" "\<And>j. j \<noteq> i \<Longrightarrow> t1 j = t j"
    using s Cons.prems(2) by (auto simp: switch_out_one_def hw_clear_other split: if_splits)
  have m: "mapped d1 j = mapped d j" for j using one(1) by (simp add: mapped_def)
  have same: "t1 j = t j" if "j \<in> set is" for j
    using that Cons.prems(1) by (intro one(7)) auto
  have ih: "dh_state d' = dh_state d1 \<and> dh_count d' = dh_count d1 \<and> dh_has_tdata3 d' = dh_has_tdata3 d1 \<and>
    length (dh_saved d') = length (dh_saved d1) \<and>
    (\<forall>i. i \<in> set is \<and> mapped d1 i \<longrightarrow>
       dh_saved d' ! i = (t1 i TDATA1, t1 i TDATA2, if dh_has_tdata3 d1 then t1 i TDATA3 else 0)) \<and>
    (\<forall>i. i \<notin> set is \<longrightarrow> dh_saved d' ! i = dh_saved d1 ! i)"
    using Cons.prems s one(4) by (intro Cons.IH) auto
  then show ?case using one same Cons.prems(1) by (auto simp: m)
qed simp

lemma switch_in_safe:
  assumes "trig_hw hw" "trig_safe n t" "\<forall>i\<in>set is. mapped d i \<longrightarrow> no_mmode (fst (dh_saved d ! i))"
  shows "trig_safe n (fold (switch_in_one hw d) is t)"
  using assms(2,3)
proof (induction "is" arbitrary: t)
  case (Cons i "is")
  have "trig_safe n (switch_in_one hw d i t)"
  proof (cases "mapped d i")
    case True
    then have "no_mmode (tkeep hw i TDATA1 (fst (dh_saved d ! i)))"
      using Cons.prems(2) assms(1) unfolding trig_hw_def by auto
    then show ?thesis
      using True by (intro trig_safe_upd [OF Cons.prems(1), of _ i])
        (auto simp: switch_in_one_def tdata_write_def hw_clear_other Let_def split: prod.splits)
  qed (use Cons.prems in \<open>simp add: switch_in_one_def\<close>)
  with Cons show ?case by simp
qed simp

text \<open>
  The states the triggers of a hart and a domain's slot get into: after the
  initialisation, calls of S-mode, and times in which the hart ran other domains
  and the triggers were theirs.
\<close>

inductive dbtr_reach :: "config \<Rightarrow> sdtrig \<Rightarrow> dbtr_hart \<Rightarrow> trigs \<Rightarrow> bool" for cfg hw where
  init: "dbtr_hart_init cfg hw t = (d, t') \<Longrightarrow> dbtr_reach cfg hw d t'"
| shmem: "dbtr_reach cfg hw d t \<Longrightarrow> dbtr_set_shmem mrs dm lo hi flags d = (rc, d') \<Longrightarrow> dbtr_reach cfg hw d' t"
| install: "dbtr_reach cfg hw d t \<Longrightarrow> dbtr_install cfg hw count mem d t = (rc, i, d', t', mem') \<Longrightarrow>
    dbtr_reach cfg hw d' t'"
| update: "dbtr_reach cfg hw d t \<Longrightarrow> dbtr_update hw count mem d t = (rc, i, d', t') \<Longrightarrow> dbtr_reach cfg hw d' t'"
| uninstall: "dbtr_reach cfg hw d t \<Longrightarrow> dbtr_uninstall hw base m d t = (rc, d', t') \<Longrightarrow> dbtr_reach cfg hw d' t'"
| enable: "dbtr_reach cfg hw d t \<Longrightarrow> dbtr_enable hw base m d t = (rc, d', t') \<Longrightarrow> dbtr_reach cfg hw d' t'"
| disable: "dbtr_reach cfg hw d t \<Longrightarrow> dbtr_disable hw base m d t = (rc, d', t') \<Longrightarrow> dbtr_reach cfg hw d' t'"
| away: "dbtr_reach cfg hw d t \<Longrightarrow> dbtr_hart_switch_out hw d t = (d1, t1) \<Longrightarrow> trig_safe (dh_count d) t2 \<Longrightarrow>
    dbtr_hart_switch_in cfg hw False d1 t2 = (d', t') \<Longrightarrow> dbtr_reach cfg hw d' t'"

lemma probe_shape:
  "probe_triggers hw i n d t = (d', t') \<Longrightarrow> dh_count d = i \<Longrightarrow> i + n \<le> length (dh_saved d) \<Longrightarrow>
   dh_count d' \<le> length (dh_saved d) \<and> length (dh_state d') = length (dh_state d) \<and> dh_saved d' = dh_saved d"
proof (induction n arbitrary: i d t)
  case (Suc n)
  have "probe_triggers hw (Suc i) n d2 (hw_clear hw i t) = (d', t') \<Longrightarrow> dh_count d2 = Suc i \<Longrightarrow>
      dh_saved d2 = dh_saved d \<Longrightarrow> length (dh_state d2) = length (dh_state d) \<Longrightarrow>
      dh_count d' \<le> length (dh_saved d) \<and> length (dh_state d') = length (dh_state d) \<and> dh_saved d' = dh_saved d" for d2
    using Suc.IH [of "Suc i" d2 "hw_clear hw i t"] Suc.prems(3) by auto
  with Suc.prems show ?case by (auto simp: Let_def split: if_splits)
qed simp

definition dbtr_wf :: "dbtr_hart \<Rightarrow> bool" where
  "dbtr_wf d \<longleftrightarrow> dh_count d \<le> length (dh_saved d) \<and> length (dh_state d) = length (dh_saved d)"

lemma same_shape_wf: "same_shape d d' \<Longrightarrow> dbtr_wf d \<Longrightarrow> dbtr_wf d'"
  by (simp add: same_shape_def dbtr_wf_def)

lemma dbtr_hart_init_wf: "dbtr_hart_init cfg hw t = (d, t') \<Longrightarrow> dbtr_wf d"
  by (auto simp: dbtr_hart_init_def Let_def dbtr_wf_def dest!: probe_shape split: prod.splits if_splits)

lemma set_shmem_shape: "dbtr_set_shmem mrs dm lo hi flags d = (rc, d') \<Longrightarrow> same_shape d d'"
  by (auto simp: dbtr_set_shmem_def same_shape_def split: if_splits)

lemma dbtr_reach_inv:
  assumes "trig_hw hw" "dbtr_reach cfg hw d t"
  shows "dbtr_wf d \<and> trig_safe (dh_count d) t"
  using assms(2)
proof (induction rule: dbtr_reach.induct)
  case (init t d t')
  then show ?case using dbtr_hart_init_wf dbtr_hart_init_safe [OF assms(1)] by blast
next
  case (shmem d t mrs dm lo hi flags rc d')
  from set_shmem_shape [OF shmem.hyps(2)] shmem.IH show ?case by (simp add: same_shape_def dbtr_wf_def)
next
  case (install d t count mem rc i d' t' mem')
  from dbtr_install_safe [OF assms(1) _ install.hyps(2)] install.IH show ?case
    by (metis same_shape_def same_shape_wf)
next
  case (update d t count mem rc i d' t')
  then have "trig_safe (dh_count d) t' \<and> same_shape d d'"
    using update_all_safe [OF assms(1), of "dh_count d" t] by (auto simp: dbtr_update_def Let_def split: if_splits)
  with update.IH show ?case by (metis same_shape_def same_shape_wf)
next
  case (uninstall d t base m rc d' t')
  then show ?case using set_op_apply_safe [OF assms(1), of d t base m SET_UNINSTALL rc d' t']
    by (metis dbtr_uninstall_def same_shape_def same_shape_wf)
next
  case (enable d t base m rc d' t')
  then show ?case using set_op_apply_safe [OF assms(1), of d t base m SET_ENABLE rc d' t']
    by (metis dbtr_enable_def same_shape_def same_shape_wf)
next
  case (disable d t base m rc d' t')
  then show ?case using set_op_apply_safe [OF assms(1), of d t base m SET_DISABLE rc d' t']
    by (metis dbtr_disable_def same_shape_def same_shape_wf)
next
  case (away d t d1 t1 t2 d' t')
  have o: "fold (switch_out_one hw) [0..<dh_count d] (d, t) = (d1, t1)"
    using away.hyps(2) by (simp add: dbtr_hart_switch_out_def)
  note s = switch_out_saves [OF _ _ o]
  have st: "dh_state d1 = dh_state d" "dh_count d1 = dh_count d" "length (dh_saved d1) = length (dh_saved d)"
    and sv: "\<And>i. i < dh_count d \<Longrightarrow> mapped d i \<Longrightarrow> fst (dh_saved d1 ! i) = t i TDATA1"
    using s away.IH by (auto simp: dbtr_wf_def)
  have "\<forall>i\<in>set [0..<dh_count d1]. mapped d1 i \<longrightarrow> no_mmode (fst (dh_saved d1 ! i))"
    using st sv away.IH by (auto simp: mapped_def trig_safe_def)
  from switch_in_safe [OF assms(1) away.hyps(3) this] away.hyps(4) st away.IH show ?case
    by (auto simp: dbtr_hart_switch_in_def dbtr_wf_def)
qed


section \<open>Installing is all or nothing\<close>

definition chain_ok :: "dbtr_entry list \<Rightarrow> bool" where
  "chain_ok cfg \<longleftrightarrow> cfg = [] \<or> \<not> chained (de_tdata1 (last cfg))"

lemma chain_len_le: "chain_ok cfg \<Longrightarrow> cfg \<noteq> [] \<Longrightarrow> chain_len cfg \<le> length cfg \<and> chain_ok (drop (chain_len cfg) cfg)"
proof (induction cfg)
  case (Cons c cs)
  show ?case
  proof (cases "chained (de_tdata1 c)")
    case True
    then have "cs \<noteq> []" "chain_ok cs" using Cons.prems by (auto simp: chain_ok_def split: if_splits)
    then show ?thesis using Cons.IH True by simp
  qed (use Cons.prems in \<open>auto simp: chain_ok_def split: if_splits\<close>)
qed simp

lemma configs_check_Some: "configs_check i cfg = Some r \<Longrightarrow> snd r \<noteq> SBI_SUCCESS"
  by (induction i cfg rule: configs_check.induct) (auto simp: Let_def split: if_splits)

lemma configs_check_chain: "configs_check i cfg = None \<Longrightarrow> chain_ok cfg"
  by (induction i cfg rule: configs_check.induct) (auto simp: chain_ok_def Let_def split: if_splits)

lemma take_run_Suc: "take_run start (Suc len) taken = (take_run start len taken)[start + len := True]"
  by (simp add: take_run_def)

lemma take_run_length [simp]: "length (take_run start len taken) = length taken"
  by (induction len) (simp_all add: take_run_Suc, simp add: take_run_def)

lemma take_run_nth:
  "w < length taken \<Longrightarrow> take_run start len taken ! w = (taken ! w \<or> start \<le> w \<and> w < start + len)"
proof (induction len)
  case (Suc len)
  then show ?case by (cases "w = start + len") (auto simp: take_run_Suc nth_list_update)
qed (auto simp: take_run_def)

lemma find_run_Some:
  assumes "find_run d cfg len taken = Some start" "0 < len" "i < len"
  shows "start + i < dh_count d \<and> \<not> mapped d (start + i) \<and> \<not> taken ! (start + i) \<and>
    bit (dh_types d ! (start + i)) (TDATA1_TYPE (de_tdata1 (cfg ! i)))"
proof -
  have "run_fits d cfg len taken start" "start < dh_count d + 1 - len"
    using assms(1) unfolding find_run_def by (auto simp: find_Some_iff)
  then show ?thesis using assms(2,3) by (auto simp: run_fits_def list_all_iff)
qed

lemma place_ok:
  "place d i cfg taken = Inr ws \<Longrightarrow> dh_count d \<le> length taken \<Longrightarrow> chain_ok cfg \<Longrightarrow>
   length ws = length cfg \<and> distinct ws \<and> (\<forall>w\<in>set ws. w < dh_count d \<and> \<not> mapped d w \<and> \<not> taken ! w)"
proof (induction d i cfg taken arbitrary: ws rule: place.induct)
  case (1 d i cfg taken)
  show ?case
  proof (cases "cfg = []")
    case True
    then show ?thesis using "1.prems"(1) by (subst (asm) place.simps) simp
  next
    case False
    define len where "len = chain_len cfg"
    obtain start rest where run: "find_run d cfg len taken = Some start"
      and rest: "place d (i + len) (drop len cfg) (take_run start len taken) = Inr rest"
      and ws: "ws = map ((+) start) [0..<len] @ rest"
      using "1.prems"(1) False by (subst (asm) place.simps) (auto simp: len_def Let_def split: option.splits sum.splits)
    have len: "0 < len" "len \<le> length cfg" "chain_ok (drop len cfg)"
      using chain_len_pos chain_len_le "1.prems"(3) False by (auto simp: len_def)
    have ih: "length rest = length (drop len cfg) \<and> distinct rest \<and>
        (\<forall>w\<in>set rest. w < dh_count d \<and> \<not> mapped d w \<and> \<not> take_run start len taken ! w)"
      using "1.IH" [OF False len_def run rest] "1.prems"(2) len(3) by simp
    have fresh: "\<not> taken ! w \<and> (w < start \<or> start + len \<le> w)" if "w \<in> set rest" for w
      using ih that take_run_nth [of w taken start len] "1.prems"(2) by fastforce
    have head: "w < dh_count d \<and> \<not> mapped d w \<and> \<not> taken ! w \<and> start \<le> w \<and> w < start + len"
      if "w \<in> set (map ((+) start) [0..<len])" for w
    proof -
      from that have "start \<le> w" "w < start + len" by auto
      then show ?thesis using find_run_Some [OF run len(1), of "w - start"] by simp
    qed
    have "w \<notin> set rest" if "start \<le> w" "w < start + len" for w
      using fresh [of w] that by auto
    then have "distinct ws" unfolding ws using ih by (auto simp: distinct_map inj_on_def)
    moreover have "length ws = length cfg" unfolding ws using ih len(2) by simp
    moreover have "w < dh_count d \<and> \<not> mapped d w \<and> \<not> taken ! w" if "w \<in> set ws" for w
      using that head ih fresh unfolding ws by (cases "w \<in> set rest") auto
    ultimately show ?thesis by blast
  qed
qed

lemma roll_back_at:
  "roll_back hw ws (d, t) = (d', t') \<Longrightarrow> i < length (dh_state d) \<Longrightarrow>
   dh_state d' ! i = (if i \<in> set ws then 0 else dh_state d ! i) \<and> (i \<notin> set ws \<longrightarrow> t' i = t i)"
proof (induction ws arbitrary: d t)
  case (Cons w ws)
  have r: "roll_back hw ws (d\<lparr>dh_state := (dh_state d)[w := 0]\<rparr>, hw_clear hw w t) = (d', t')"
    using Cons.prems(1) by (simp add: roll_back_def)
  show ?case
    using Cons.IH [OF r] Cons.prems(2) by (cases "w = i") (auto simp: hw_clear_other)
qed (simp add: roll_back_def)

lemma program_all_fail:
  "program_all hw prev wcs d t = (Some k, d', t') \<Longrightarrow> i < length (dh_state d) \<Longrightarrow>
   (dh_state d' ! i = 0 \<or> dh_state d' ! i = dh_state d ! i \<and> i \<notin> set prev) \<and>
   (i \<notin> set prev \<union> fst ` set wcs \<longrightarrow> dh_state d' ! i = dh_state d ! i \<and> t' i = t i)"
proof (induction hw prev wcs d t rule: program_all.induct)
  case (2 hw prev w c rest d t)
  obtain ok t1 where p: "hw_program hw d w c t = (ok, t1)" by (cases "hw_program hw d w c t")
  show ?case
  proof (cases ok)
    case True
    let ?d1 = "d\<lparr>dh_state := (dh_state d)[w := state_of w (de_tdata1 c)]\<rparr>"
    have r: "program_all hw (w # prev) rest ?d1 t1 = (Some k, d', t')" using "2.prems"(1) p True by simp
    from "2.IH" [OF refl p [symmetric] _ r] True "2.prems"(2)
    have ih: "(dh_state d' ! i = 0 \<or> dh_state d' ! i = dh_state ?d1 ! i \<and> i \<notin> set (w # prev)) \<and>
      (i \<notin> set (w # prev) \<union> fst ` set rest \<longrightarrow> dh_state d' ! i = dh_state ?d1 ! i \<and> t' i = t1 i)" by simp
    then show ?thesis using hw_program_other [OF p, of i] by (cases "w = i") auto
  next
    case False
    then have "roll_back hw prev (d, t1) = (d', t')" using "2.prems"(1) p by simp
    from roll_back_at [OF this "2.prems"(2)] show ?thesis
      using hw_program_other [OF p, of i] by (auto split: if_splits)
  qed
qed simp

lemma hw_program_took:
  "hw_program hw d w c t = (True, t') \<Longrightarrow> (t' w TDATA1 XOR de_tdata1 c) AND NOT (tt_hit (type_of (de_tdata1 c))) = 0"
  by (auto simp: hw_program_def Let_def tdata_write_def split: if_splits)

lemma program_all_ok:
  "program_all hw prev wcs d t = (None, d', t') \<Longrightarrow> distinct (map fst wcs) \<Longrightarrow> i < length (dh_state d) \<Longrightarrow>
   (i \<notin> fst ` set wcs \<longrightarrow> dh_state d' ! i = dh_state d ! i \<and> t' i = t i) \<and>
   (\<forall>c. (i, c) \<in> set wcs \<longrightarrow> dh_state d' ! i = state_of i (de_tdata1 c) \<and>
      (t' i TDATA1 XOR de_tdata1 c) AND NOT (tt_hit (type_of (de_tdata1 c))) = 0)"
proof (induction hw prev wcs d t rule: program_all.induct)
  case (2 hw prev w c rest d t)
  obtain ok t1 where p: "hw_program hw d w c t = (ok, t1)" by (cases "hw_program hw d w c t")
  have ok using "2.prems"(1) p by (auto split: if_splits dest: sym simp: roll_back_def)
  let ?d1 = "d\<lparr>dh_state := (dh_state d)[w := state_of w (de_tdata1 c)]\<rparr>"
  have r: "program_all hw (w # prev) rest ?d1 t1 = (None, d', t')" using "2.prems"(1) p \<open>ok\<close> by simp
  from "2.IH" [OF refl p [symmetric] _ r] \<open>ok\<close> "2.prems"(2,3)
  have ih: "(i \<notin> fst ` set rest \<longrightarrow> dh_state d' ! i = dh_state ?d1 ! i \<and> t' i = t1 i) \<and>
   (\<forall>c. (i, c) \<in> set rest \<longrightarrow> dh_state d' ! i = state_of i (de_tdata1 c) \<and>
      (t' i TDATA1 XOR de_tdata1 c) AND NOT (tt_hit (type_of (de_tdata1 c))) = 0)" by simp
  show ?case
  proof (cases "w = i")
    case True
    then have "i \<notin> fst ` set rest" using "2.prems"(2) by auto
    moreover from this have "(i, c') \<notin> set rest" for c' by force
    ultimately show ?thesis using ih True \<open>ok\<close> p hw_program_took [of hw d w c t t1] "2.prems"(3) by auto
  next
    case False
    then show ?thesis using ih hw_program_other [OF p, of i] by auto
  qed
qed simp


lemma state_of_mapped: "state_of w v AND STATE_MAPPED \<noteq> 0"
  by (simp add: state_of_def Let_def bit.conj_disj_distrib2)


section \<open>Two triggers\<close>

definition demo_trig :: sdtrig where
  "demo_trig = \<lparr>nr_trigs = 2, tinfo = (\<lambda>i. Some 0x44), has_tdata3 = False, tkeep = (\<lambda>i r v. v)\<rparr>"

definition demo_dbtr :: "dbtr_hart \<times> trigs" where
  "demo_dbtr = (let (d, t) = dbtr_hart_init demo_config demo_trig (\<lambda>i r. 0) in (d\<lparr>dh_shmem := 0x80200000\<rparr>, t))"

definition demo_entry :: "ulong \<Rightarrow> dbtr_entry" where
  "demo_entry tdata1 = \<lparr>de_idx = 0, de_tdata1 = tdata1, de_tdata2 = 0x80201000, de_tdata3 = 0\<rparr>"

lemma demo_trig_hw: "trig_hw demo_trig"
  by (simp add: trig_hw_def demo_trig_def)

lemma demo_dbtr_wf: "dbtr_wf (fst demo_dbtr)" "dh_count (fst demo_dbtr) = 2"
  by code_simp+

lemma demo_dbtr_reach: "\<exists>d t. dbtr_reach demo_config demo_trig d t \<and> dh_count d = 2"
proof -
  obtain d t where i: "dbtr_hart_init demo_config demo_trig (\<lambda>i r. 0) = (d, t)" by (rule prod.exhaust)
  moreover from this demo_dbtr_wf(2) have "dh_count d = 2" by (simp add: demo_dbtr_def)
  ultimately show ?thesis by (blast intro: dbtr_reach.init)
qed




end
