(* ===== verification/Runtime.thy ===== *)
theory Runtime
  imports Isa Fwft Dbtr Sse
begin

text \<open>
  What is left of \<^verbatim>\<open>arch/riscv/runtime/hart.c\<close>: the features a hart turns out to have, the
  M-mode configuration it gets before it runs a lower privilege level, the way into S-mode, and
  the services' part in a change of domain. \<open>runtime\<close> is the state of the monitor with all of
  the services in it.

  What a service keeps per domain and hart is in its slots. Of the PMU the slot of the domain a
  hart runs is \<open>hart_pmu\<close> of the fabric; \<open>pmu_slots\<close> has those of the other domains.
\<close>

abbreviation CSR_TIME :: nat where "CSR_TIME \<equiv> 0xc01"
abbreviation CSR_SCOUNTOVF :: nat where "CSR_SCOUNTOVF \<equiv> 0xda0"
abbreviation CSR_MISELECT :: nat where "CSR_MISELECT \<equiv> 0x350"
abbreviation MSECCFG_SSEED :: ulong where "MSECCFG_SSEED \<equiv> 0x200"
abbreviation MIP_SEIP :: ulong where "MIP_SEIP \<equiv> BIT 9"
abbreviation COUNTEREN_TM :: ulong where "COUNTEREN_TM \<equiv> BIT 1"
abbreviation MSTATUS_MPRV :: ulong where "MSTATUS_MPRV \<equiv> BIT 17"
abbreviation MPXY_SHMEM_NONE :: ulong where "MPXY_SHMEM_NONE \<equiv> - 1"

text \<open>
  The units of a hart the monitor drives: the counters, the triggers, and what \<^verbatim>\<open>vsetvl\<close> makes of
  a length and a type on its vector unit.
\<close>

record units =
  u_pmu :: pmu
  u_trig :: sdtrig
  u_vset :: "ulong \<Rightarrow> ulong \<Rightarrow> ulong \<times> ulong"

record runtime = sse_world +
  pmu_slots :: "nat \<Rightarrow> nat \<Rightarrow> pmu_hart"
  fwft_slots :: "nat \<Rightarrow> nat \<Rightarrow> fwft_hart"
  dbtr_slots :: "nat \<Rightarrow> nat \<Rightarrow> dbtr_hart"
  trigs_of :: "nat \<Rightarrow> trigs"
  mpxy_shmem :: "nat \<Rightarrow> ulong"

section \<open>Features\<close>

text \<open>The extensions the monitor is built with.\<close>

record ext_config =
  RISCV_EXT_SSTC :: bool
  RISCV_EXT_SMEPMP :: bool
  RISCV_EXT_SMSTATEEN :: bool
  RISCV_EXT_SSCOFPMF :: bool

text \<open>Does a bit of a register stick; it is left as it was.\<close>

definition bits_stick :: "warl \<Rightarrow> nat \<Rightarrow> ulong \<Rightarrow> csrs \<Rightarrow> bool \<times> csrs" where
  "bits_stick legal n m c =
     (let old = csr_read n c; c1 = csr_set legal n m c in
      (csr_read n c1 AND m \<noteq> 0, csr_write legal n old c1))"

definition envcfg_bit_sticks :: "warl \<Rightarrow> nat \<Rightarrow> csrs \<Rightarrow> bool \<times> csrs" where
  "envcfg_bit_sticks legal b c = bits_stick legal CSR_MENVCFG (BIT b) c"

definition probe_if :: "bool \<Rightarrow> (csrs \<Rightarrow> bool \<times> csrs) \<Rightarrow> csrs \<Rightarrow> bool \<times> csrs" where
  "probe_if cond f c = (if cond then f c else (False, c))"

definition pmp_probe :: "warl \<Rightarrow> config \<Rightarrow> (nat \<Rightarrow> bool) \<Rightarrow> ulong \<Rightarrow> csrs \<Rightarrow> bool \<times> ulong \<times> csrs" where
  "pmp_probe legal cfg traps grain c =
     (if RISCV_PMP_COUNT cfg \<ge> 2 \<and> \<not> traps CSR_PMPADDR0 then
        let val = csr_read CSR_PMPADDR0 c; c1 = csr_write legal CSR_PMPADDR0 (- 1) c; ones = csr_read CSR_PMPADDR0 c1 in
        (ones \<noteq> 0, pmp_grain_set ones, csr_write legal CSR_PMPADDR0 val c1)
      else (False, grain, c))"

text \<open>\<open>traps n\<close>: an access to CSR \<open>n\<close> traps. The result: the features, the grain, the regions.\<close>

definition hart_detect_features ::
  "warl \<Rightarrow> config \<Rightarrow> ext_config \<Rightarrow> (nat \<Rightarrow> bool) \<Rightarrow> string option \<Rightarrow> ulong \<Rightarrow> memregion list \<Rightarrow> csrs \<Rightarrow>
     panic + features \<times> ulong \<times> memregion list \<times> csrs" where
  "hart_detect_features legal cfg ext traps isa grain0 mrs c =
     (let f_h = bit (csr_read CSR_MISA c) 7;
          f_menvcfg = (\<not> traps CSR_MENVCFG);
          (f_pmp, grain, c1) = pmp_probe legal cfg traps grain0 c;
          f_sstc = (RISCV_EXT_SSTC ext \<and> f_menvcfg \<and> \<not> traps CSR_STIMECMP);
          (f_dbl, c2) = probe_if f_menvcfg (envcfg_bit_sticks legal ENVCFG_DTE_BIT) c1;
          (f_smepmp, c3) = probe_if (RISCV_EXT_SMEPMP ext \<and> f_pmp \<and> \<not> traps CSR_MSECCFG \<and> isa_allows isa ''smepmp'')
                             (bits_stick legal CSR_MSECCFG MSECCFG_RLB) c2;
          (cde, c4) = probe_if f_menvcfg (envcfg_bit_sticks legal 60) c3;
          f_cde = (cde \<and> isa_allows isa ''smcdeleg'' \<and> isa_allows isa ''ssccfg'');
          (f_zkr, c5) = probe_if (\<not> traps CSR_MSECCFG \<and> isa_allows isa ''zkr'')
                          (bits_stick legal CSR_MSECCFG MSECCFG_SSEED) c4;
          (f_ras, c6) = ras_irqs_probe legal c5;
          feat = (\<lambda>f. case f of
              HART_FEAT_PMP \<Rightarrow> f_pmp
            | HART_FEAT_SMEPMP \<Rightarrow> f_smepmp
            | HART_FEAT_TIME_CSR \<Rightarrow> \<not> traps CSR_TIME
            | HART_FEAT_MENVCFG \<Rightarrow> f_menvcfg
            | HART_FEAT_SSTC \<Rightarrow> f_sstc
            | HART_FEAT_SSCOFPMF \<Rightarrow> RISCV_EXT_SSCOFPMF ext \<and> \<not> traps CSR_SCOUNTOVF
            | HART_FEAT_SMSTATEEN \<Rightarrow> RISCV_EXT_SMSTATEEN ext \<and> \<not> traps CSR_MSTATEEN0
            | HART_FEAT_SDTRIG \<Rightarrow> \<not> traps CSR_TSELECT
            | HART_FEAT_SSDBLTRP \<Rightarrow> f_dbl
            | HART_FEAT_H \<Rightarrow> f_h
            | HART_FEAT_SMCNTRPMF \<Rightarrow> \<not> traps CSR_MCYCLECFG \<and> isa_allows isa ''smcntrpmf''
            | HART_FEAT_SMCDELEG \<Rightarrow> f_cde
            | HART_FEAT_ZKR \<Rightarrow> f_zkr
            | HART_FEAT_AIA \<Rightarrow> \<not> traps CSR_MISELECT
            | HART_FEAT_RAS_IRQ \<Rightarrow> f_ras)
      in case monitor_regions_init cfg feat mrs of
           Inl q \<Rightarrow> Inl q
         | Inr mrs1 \<Rightarrow> Inr (feat, grain, mrs1, c6))"

section \<open>Before S-mode\<close>

definition envcfg_init :: "warl \<Rightarrow> features \<Rightarrow> csrs \<Rightarrow> csrs" where
  "envcfg_init legal feat c =
     (if \<not> feat HART_FEAT_MENVCFG then c
      else
        let c1 = csr_write legal CSR_MENVCFG 0 c;
            c2 = csr_set legal CSR_MENVCFG (GENMASK_UL 5 4 OR BIT 6 OR BIT 7) c1;
            c3 = (if feat HART_FEAT_SSTC then csr_write legal CSR_STIMECMP (- 1) c2 else c2);
            c4 = csr_set legal CSR_MENVCFG (BIT 62) c3;
            c5 = (if feat HART_FEAT_SSTC then csr_set legal CSR_MENVCFG (BIT 63) c4 else c4)
        in if feat HART_FEAT_SMCDELEG then csr_set legal CSR_MENVCFG (BIT 60) c5 else c5)"

definition STATEEN0_KNOWN :: ulong where
  "STATEEN0_KNOWN = foldl (\<lambda>m b. m OR BIT b) 0 [1, 2, 55, 56, 57, 58, 59, 60, 62, 63]"

definition stateen_init :: "warl \<Rightarrow> features \<Rightarrow> csrs \<Rightarrow> csrs" where
  "stateen_init legal feat c =
     (if \<not> feat HART_FEAT_SMSTATEEN then c
      else csr_write legal (CSR_MSTATEEN0 + 3) 0 (csr_write legal (CSR_MSTATEEN0 + 2) 0
             (csr_write legal (CSR_MSTATEEN0 + 1) 0 (csr_write legal CSR_MSTATEEN0 STATEEN0_KNOWN c))))"

definition medeleg_of :: "features \<Rightarrow> ulong" where
  "medeleg_of feat =
     foldl (\<lambda>m b. m OR BIT b) 0 ([0, 3, 8, 12, 13, 15] @ (if feat HART_FEAT_H then [10, 20, 21, 22, 23] else []))"

definition mideleg_of :: "features \<Rightarrow> ulong" where
  "mideleg_of feat =
     (MIP_SSIP OR MIP_STIP OR MIP_SEIP) OR (if feat HART_FEAT_SSCOFPMF then BIT IRQ_PMU_OVF else 0)"

text \<open>The part of \<^verbatim>\<open>hart_runtime_init\<close> that is about the CSRs alone, up to the protection unit.\<close>

definition hart_csrs_init :: "warl \<Rightarrow> features \<Rightarrow> csrs \<Rightarrow> csrs" where
  "hart_csrs_init legal feat c =
     (let c1 = csr_write legal CSR_MIDELEG (mideleg_of feat) (csr_write legal CSR_MEDELEG (medeleg_of feat) c);
          c2 = csr_write legal CSR_MCOUNTEREN (if feat HART_FEAT_TIME_CSR then - 1 else NOT COUNTEREN_TM) c1;
          c3 = envcfg_init legal feat (csr_write legal CSR_SCOUNTEREN 0 c2);
          c4 = (if feat HART_FEAT_ZKR then csr_set legal CSR_MSECCFG MSECCFG_SSEED c3 else c3)
      in stateen_init legal feat c4)"

definition mpxy_hart_init :: "nat \<Rightarrow> 'a runtime_scheme \<Rightarrow> 'a runtime_scheme" where
  "mpxy_hart_init self s = s\<lparr>mpxy_shmem := (mpxy_shmem s)(self := MPXY_SHMEM_NONE)\<rparr>"

definition mpxy_hart_shmem_swap :: "nat \<Rightarrow> ulong \<Rightarrow> 'a runtime_scheme \<Rightarrow> ulong \<times> 'a runtime_scheme" where
  "mpxy_hart_shmem_swap self addr s =
     (mpxy_shmem s self, s\<lparr>mpxy_shmem := (mpxy_shmem s)(self := addr)\<rparr>)"

text \<open>The services on the slots of the hart's domain.\<close>

definition slot_upd :: "(nat \<Rightarrow> nat \<Rightarrow> 'b) \<Rightarrow> nat \<Rightarrow> nat \<Rightarrow> 'b \<Rightarrow> nat \<Rightarrow> nat \<Rightarrow> 'b" where
  "slot_upd m k h v = m(k := (m k)(h := v))"

definition pmu_run ::
  "nat \<Rightarrow> (pmu_hart \<Rightarrow> csrs \<Rightarrow> pmu_hart \<times> csrs) \<Rightarrow> 'a runtime_scheme \<Rightarrow> 'a runtime_scheme" where
  "pmu_run self f s =
     (let (u, c) = f (hart_pmu s self) (hart_csrs s self) in
      s\<lparr>hart_pmu := (hart_pmu s)(self := u), hart_csrs := (hart_csrs s)(self := c)\<rparr>)"

definition dbtr_run ::
  "nat \<Rightarrow> (dbtr_hart \<Rightarrow> trigs \<Rightarrow> dbtr_hart \<times> trigs) \<Rightarrow> 'a runtime_scheme \<Rightarrow> 'a runtime_scheme" where
  "dbtr_run self f s =
     (let key = this_domain_key s self; (d, t) = f (dbtr_slots s key self) (trigs_of s self) in
      s\<lparr>dbtr_slots := slot_upd (dbtr_slots s) key self d, trigs_of := (trigs_of s)(self := t)\<rparr>)"

definition fwft_run ::
  "nat \<Rightarrow> (csrs \<Rightarrow> fwft_hart \<Rightarrow> csrs \<times> fwft_hart) \<Rightarrow> 'a runtime_scheme \<Rightarrow> 'a runtime_scheme" where
  "fwft_run self f s =
     (let key = this_domain_key s self; (c, w) = f (hart_csrs s self) (fwft_slots s key self) in
      s\<lparr>fwft_slots := slot_upd (fwft_slots s) key self w, hart_csrs := (hart_csrs s)(self := c)\<rparr>)"

definition timer_run ::
  "nat \<Rightarrow> (timer_hart \<times> csrs \<Rightarrow> timer_hart \<times> csrs) \<Rightarrow> 'a runtime_scheme \<Rightarrow> 'a runtime_scheme" where
  "timer_run self f s =
     (let (t, c) = f (timers s self, hart_csrs s self) in
      s\<lparr>timers := (timers s)(self := t), hart_csrs := (hart_csrs s)(self := c)\<rparr>)"

definition hart_runtime_init :: "platform \<Rightarrow> units \<Rightarrow> nat \<Rightarrow> 'a runtime_scheme \<Rightarrow> panic + 'a runtime_scheme" where
  "hart_runtime_init p u self s =
     (let legal = m_legal p; feat = m_feat p in
      case pmp_hart_init legal (m_cfg p) feat (m_grain p) (m_regions p) (this_domain s self)
             (hart_csrs_init legal feat (hart_csrs s self)) of
        Inl q \<Rightarrow> Inl q
      | Inr c \<Rightarrow>
          let s1 = s\<lparr>hart_csrs := (hart_csrs s)(self := c)\<rparr>;
              s2 = pmu_run self (pmu_hart_init legal feat (u_pmu u)) s1;
              s3 = fwft_run self (\<lambda>c w. (c, fwft_hart_init w)) s2;
              s4 = sse_hart_init p self s3;
              s5 = dbtr_run self (\<lambda>_. dbtr_hart_init (m_cfg p) (u_trig u)) s4;
              s6 = mpxy_hart_init self s5;
              s7 = regs_upd self (csr_clear legal CSR_MIP (MIP_SSIP OR MIP_STIP)) s6;
              s8 = timer_run self (timer_hart_init legal (p_timer p)) s7
          in Inr (ipi_hart_init p self s8))"

section \<open>Into S-mode\<close>

definition hart_sstateen_read :: "nat \<Rightarrow> csrs \<Rightarrow> ulong" where
  "hart_sstateen_read n c = csr_read (CSR_SSTATEEN0 + (if n < 3 then n else 3)) c"

definition hart_sstateen_write :: "warl \<Rightarrow> nat \<Rightarrow> ulong \<Rightarrow> csrs \<Rightarrow> csrs" where
  "hart_sstateen_write legal n v c = csr_write legal (CSR_SSTATEEN0 + (if n < 3 then n else 3)) v c"

definition hart_sstateen_reset :: "warl \<Rightarrow> features \<Rightarrow> csrs \<Rightarrow> csrs" where
  "hart_sstateen_reset legal feat c =
     (if \<not> feat HART_FEAT_SMSTATEEN then c else fold (\<lambda>i. hart_sstateen_write legal i (- 1)) [0..<4] c)"

text \<open>
  The mstatus S-mode starts with, and the CSRs; \<^verbatim>\<open>mret\<close> then goes to \<open>entry\<close> with a0 and a1 set,
  the result's second part (\<^verbatim>\<open>_hart_mret\<close> clears the other registers).
\<close>

definition smode_mstatus :: "ulong \<Rightarrow> ulong \<Rightarrow> ulong" where
  "smode_mstatus m mode =
     ((m AND NOT (MSTATUS_MPP OR MSTATUS_MPIE OR MSTATUS_MPRV OR MSTATUS_SIE OR MSTATUS_SPIE OR MSTATUS_SPP))
        OR mpp_of mode) AND NOT MSTATUS_MPV"

definition hart_enter_smode ::
  "platform \<Rightarrow> nat \<Rightarrow> ulong \<Rightarrow> ulong \<Rightarrow> ulong \<Rightarrow> ulong \<Rightarrow> 'a fabric_scheme \<Rightarrow> trap_regs \<times> 'a fabric_scheme" where
  "hart_enter_smode p self entry arg0 arg1 mode s =
     (let legal = m_legal p; m = smode_mstatus (csr_read CSR_MSTATUS (hart_csrs s self)) mode;
          s1 = regs_upd self (\<lambda>c. hart_sstateen_reset legal (m_feat p) (csr_write legal CSR_SATP 0
                 (csr_write legal CSR_SIE 0 (csr_write legal CSR_SSCRATCH 0
                   (csr_write legal CSR_STVEC entry (csr_write legal CSR_MSTATUS m c)))))) s
      in (\<lparr>gpr = (\<lambda>_. 0)(A0 := arg0, A1 := arg1), mepc = entry, mstatus = csr_read CSR_MSTATUS (hart_csrs s1 self)\<rparr>, s1))"

section \<open>Changing domain\<close>

definition hart_services_switch_out :: "platform \<Rightarrow> units \<Rightarrow> nat \<Rightarrow> 'a runtime_scheme \<Rightarrow> 'a runtime_scheme" where
  "hart_services_switch_out p u self s =
     (let legal = m_legal p; feat = m_feat p;
          s1 = pmu_run self (pmu_hart_switch_out legal feat (u_pmu u)) s;
          s2 = dbtr_run self (dbtr_hart_switch_out (u_trig u)) s1
      in fwft_run self (\<lambda>c w. (c, fwft_hart_switch_out feat c w)) s2)"

definition hart_services_switch_in :: "platform \<Rightarrow> units \<Rightarrow> nat \<Rightarrow> bool \<Rightarrow> 'a runtime_scheme \<Rightarrow> 'a runtime_scheme" where
  "hart_services_switch_in p u self fresh s =
     (let legal = m_legal p; feat = m_feat p;
          s1 = fwft_run self (fwft_hart_switch_in legal feat fresh) s;
          s2 = dbtr_run self (dbtr_hart_switch_in (m_cfg p) (u_trig u) fresh) s1;
          s3 = pmu_run self (pmu_hart_switch_in legal feat (u_pmu u) fresh) s2
      in sse_hart_switch_in p self fresh s3)"

text \<open>\<^verbatim>\<open>h->domain = to\<close>: with it the PMU slot of the hart is the new domain's.\<close>

definition hart_domain_set :: "nat \<Rightarrow> nat \<Rightarrow> 'a runtime_scheme \<Rightarrow> 'a runtime_scheme" where
  "hart_domain_set self key s =
     (let slots = slot_upd (pmu_slots s) (this_domain_key s self) self (hart_pmu s self) in
      hart_upd self (\<lambda>h. h\<lparr>hart_domain := key\<rparr>)
        (s\<lparr>pmu_slots := slots, hart_pmu := (hart_pmu s)(self := slots key self)\<rparr>))"

definition pmp_domain_switch :: "platform \<Rightarrow> nat \<Rightarrow> 'a runtime_scheme \<Rightarrow> 'a runtime_scheme" where
  "pmp_domain_switch p self s =
     regs_upd self (pmp_domain_set (m_legal p) (m_cfg p) (m_feat p) (m_grain p) (m_regions p) (this_domain s self)) s"

end
