(* ===== verification/Context.thy ===== *)
theory Context
  imports Runtime
begin

text \<open>
  Moving a hart between domains, and stopping and starting domains
  (\<^verbatim>\<open>arch/riscv/runtime/domain_context.c\<close>, \<^verbatim>\<open>domain_state.S\<close>), on RV64 and without
  \<^verbatim>\<open>CONFIG_MPXY_RPMI_FW\<close>, where \<^verbatim>\<open>mpxy_context_resumed\<close> does nothing. The flushes of the address
  translation caches have no counterpart here. Everything under \<^verbatim>\<open>domain_lock\<close> is one step; what
  the operations guarantee is in \<open>Switching\<close>.
\<close>

section \<open>Contexts\<close>

text \<open>The H extension's CSRs of a context, in the order of \<^verbatim>\<open>enum hyp_csr\<close>.\<close>

definition hyp_csrs :: "nat list" where
  "hyp_csrs = [0x600, 0x602, 0x603, 0x604, 0x606, 0x607, 0x643, 0x64a, 0x645, 0x680, 0x200, 0x204,
     0x205, 0x240, 0x241, 0x242, 0x243, 0x280, 0x608, 0x609, 0x646, 0x647, 0x250]"

abbreviation HYP_HSTATUS :: nat where "HYP_HSTATUS \<equiv> 0"
abbreviation HYP_FIRST_AIA :: nat where "HYP_FIRST_AIA \<equiv> 18"
abbreviation HYP_CSR_COUNT :: nat where "HYP_CSR_COUNT \<equiv> 23"
abbreviation CSR_HTIMEDELTA :: nat where "CSR_HTIMEDELTA \<equiv> 0x605"
abbreviation CSR_HENVCFG :: nat where "CSR_HENVCFG \<equiv> 0x60a"
abbreviation CSR_HSTATEEN0 :: nat where "CSR_HSTATEEN0 \<equiv> 0x60c"
abbreviation CSR_VSTIMECMP :: nat where "CSR_VSTIMECMP \<equiv> 0x24d"
abbreviation CSR_VLENB :: nat where "CSR_VLENB \<equiv> 0xc22"
abbreviation MSTATUS_VS :: ulong where "MSTATUS_VS \<equiv> GENMASK_UL 10 9"
abbreviation MSTATUS_FS :: ulong where "MSTATUS_FS \<equiv> GENMASK_UL 14 13"
abbreviation MSTATUS_SUM :: ulong where "MSTATUS_SUM \<equiv> BIT 18"
abbreviation MSTATUS_MXR :: ulong where "MSTATUS_MXR \<equiv> BIT 19"
abbreviation MSTATUS_GVA :: ulong where "MSTATUS_GVA \<equiv> BIT 38"
abbreviation HSTATUS_VSXL :: ulong where "HSTATUS_VSXL \<equiv> GENMASK_UL 33 32"

datatype context_state = CONTEXT_NONE | CONTEXT_RUNNING | CONTEXT_CALLING | CONTEXT_IDLE

record vec_state =
  vstart :: ulong
  vcsr :: ulong
  vl :: ulong
  vtype :: ulong
  vbytes :: "8 word list"

text \<open>A pointer to a context is its domain's index: contexts that refer to each other are one hart's.\<close>

record domain_context =
  ctx_state :: context_state
  caller :: "nat option"
  ctx_ipi :: bool
  quiet :: bool
  ctx_regs :: trap_regs
  ctx_sie :: ulong
  ctx_sip :: ulong
  ctx_stvec :: ulong
  ctx_sscratch :: ulong
  ctx_sepc :: ulong
  ctx_scause :: ulong
  ctx_stval :: ulong
  ctx_satp :: ulong
  ctx_scounteren :: ulong
  ctx_senvcfg :: ulong
  ctx_sstateen :: "ulong list"
  hyp :: "ulong list"
  htimedelta :: ulong
  henvcfg :: ulong
  hstateen0 :: ulong
  vstimecmp :: ulong
  ctx_timer :: ulong
  ctx_shmem :: ulong
  fp :: "ulong list"
  vec :: "vec_state option"

text \<open>The vector unit of a hart: its CSRs and v0 to v31.\<close>

record vec_unit =
  vu_start :: ulong
  vu_csr :: ulong
  vu_l :: ulong
  vu_type :: ulong
  vu_regs :: "nat \<Rightarrow> 8 word list"

record ctx_world = runtime +
  contexts :: "nat \<Rightarrow> nat \<Rightarrow> domain_context"
  fp_regs :: "nat \<Rightarrow> nat \<Rightarrow> ulong"
  vec_regs :: "nat \<Rightarrow> vec_unit"
  vec_bytes :: nat
  stop_lock :: bool

definition context_upd ::
  "nat \<Rightarrow> nat \<Rightarrow> (domain_context \<Rightarrow> domain_context) \<Rightarrow> 'a ctx_world_scheme \<Rightarrow> 'a ctx_world_scheme" where
  "context_upd key h f s = s\<lparr>contexts := slot_upd (contexts s) key h (f (contexts s key h))\<rparr>"

definition dom_upd :: "nat \<Rightarrow> (domain \<Rightarrow> domain) \<Rightarrow> 'a world_scheme \<Rightarrow> 'a world_scheme" where
  "dom_upd key f s = s\<lparr>doms := (doms s)[key := f (doms s ! key)]\<rparr>"

text \<open>A structure with every field zero.\<close>

definition zero_vec :: "nat \<Rightarrow> vec_state" where
  "zero_vec bytes = \<lparr>vstart = 0, vcsr = 0, vl = 0, vtype = 0, vbytes = replicate (32 * bytes) 0\<rparr>"

definition zero_context :: domain_context where
  "zero_context = \<lparr>ctx_state = CONTEXT_NONE, caller = None, ctx_ipi = False, quiet = False,
     ctx_regs = \<lparr>gpr = (\<lambda>_. 0), mepc = 0, mstatus = 0\<rparr>, ctx_sie = 0, ctx_sip = 0, ctx_stvec = 0,
     ctx_sscratch = 0, ctx_sepc = 0, ctx_scause = 0, ctx_stval = 0, ctx_satp = 0, ctx_scounteren = 0,
     ctx_senvcfg = 0, ctx_sstateen = replicate 4 0, hyp = replicate HYP_CSR_COUNT 0, htimedelta = 0,
     henvcfg = 0, hstateen0 = 0, vstimecmp = 0, ctx_timer = 0, ctx_shmem = 0, fp = replicate 33 0, vec = None\<rparr>"

definition domain_contexts_init :: "platform \<Rightarrow> nat \<Rightarrow> 'a ctx_world_scheme \<Rightarrow> 'a ctx_world_scheme" where
  "domain_contexts_init p self s =
     (if bit (csr_read CSR_MISA (hart_csrs s self)) 21 then
        let s1 = regs_upd self (csr_set (m_legal p) CSR_MSTATUS MSTATUS_VS) s;
            n = unat (csr_read CSR_VLENB (hart_csrs s1 self)) in
        s1\<lparr>vec_bytes := n, contexts := (\<lambda>_ _. zero_context\<lparr>vec := Some (zero_vec n)\<rparr>)\<rparr>
      else s\<lparr>contexts := (\<lambda>_ _. zero_context)\<rparr>)"

section \<open>Floating point and vectors\<close>

text \<open>Slots of 8 bytes: a single-precision unit uses their lower half. fcsr is in slot 32.\<close>

definition fp_state_save :: "bool \<Rightarrow> (nat \<Rightarrow> ulong) \<Rightarrow> ulong list \<Rightarrow> ulong list" where
  "fp_state_save is_double r buf =
     map (\<lambda>n. if n = 32 \<or> is_double then r n
              else (buf ! n AND NOT 0xffffffff) OR (r n AND 0xffffffff)) [0..<33]"

definition fp_state_restore :: "bool \<Rightarrow> ulong list \<Rightarrow> (nat \<Rightarrow> ulong) \<Rightarrow> nat \<Rightarrow> ulong" where
  "fp_state_restore is_double buf r n =
     (if n < 33 then if n = 32 \<or> is_double then buf ! n else buf ! n AND 0xffffffff else r n)"

text \<open>\<open>n\<close> is VLENB: the registers follow each other, that many bytes each.\<close>

definition vec_state_save :: "nat \<Rightarrow> vec_unit \<Rightarrow> vec_state \<Rightarrow> vec_state" where
  "vec_state_save n v st =
     \<lparr>vstart = vu_start v, vcsr = vu_csr v, vl = vu_l v, vtype = vu_type v,
      vbytes = concat (map (vu_regs v) [0..<32]) @ drop (32 * n) (vbytes st)\<rparr>"

definition vec_state_restore :: "(ulong \<Rightarrow> ulong \<Rightarrow> ulong \<times> ulong) \<Rightarrow> nat \<Rightarrow> vec_state \<Rightarrow> vec_unit" where
  "vec_state_restore vset n st =
     (let (l, ty) = vset (vl st) (vtype st) in
      \<lparr>vu_start = vstart st, vu_csr = vcsr st, vu_l = l, vu_type = ty,
       vu_regs = (\<lambda>i. take n (drop (i * n) (vbytes st)))\<rparr>)"

definition vec_state_clear :: "nat \<Rightarrow> vec_unit" where
  "vec_state_clear n = \<lparr>vu_start = 0, vu_csr = 0, vu_l = 0, vu_type = BIT 63, vu_regs = (\<lambda>_. replicate n 0)\<rparr>"

datatype vec_kind = VEC_NONE | VEC_SWITCHED | VEC_CLEARED

definition vector_unit :: "platform \<Rightarrow> nat \<Rightarrow> 'a ctx_world_scheme \<Rightarrow> vec_kind \<times> 'a ctx_world_scheme" where
  "vector_unit p self s =
     (if \<not> bit (csr_read CSR_MISA (hart_csrs s self)) 21 then (VEC_NONE, s)
      else let s1 = regs_upd self (csr_set (m_legal p) CSR_MSTATUS MSTATUS_VS) s in
        (if vec_bytes s1 \<noteq> 0 \<and> unat (csr_read CSR_VLENB (hart_csrs s1 self)) \<le> vec_bytes s1
         then VEC_SWITCHED else VEC_CLEARED, s1))"

definition vlenb :: "nat \<Rightarrow> 'a ctx_world_scheme \<Rightarrow> nat" where
  "vlenb self s = unat (csr_read CSR_VLENB (hart_csrs s self))"

definition unit_state_save :: "platform \<Rightarrow> nat \<Rightarrow> nat \<Rightarrow> 'a ctx_world_scheme \<Rightarrow> 'a ctx_world_scheme" where
  "unit_state_save p key self s =
     (let misa = csr_read CSR_MISA (hart_csrs s self);
          s1 = (if bit misa 5 then
                  let s' = regs_upd self (csr_set (m_legal p) CSR_MSTATUS MSTATUS_FS) s in
                  context_upd key self (\<lambda>x. x\<lparr>fp := fp_state_save (bit misa 3) (fp_regs s' self) (fp x)\<rparr>) s'
                else s);
          (kind, s2) = vector_unit p self s1
      in if kind = VEC_SWITCHED
         then context_upd key self
                (\<lambda>x. x\<lparr>vec := map_option (vec_state_save (vlenb self s2) (vec_regs s2 self)) (vec x)\<rparr>) s2
         else s2)"

definition unit_state_restore :: "platform \<Rightarrow> units \<Rightarrow> nat \<Rightarrow> nat \<Rightarrow> 'a ctx_world_scheme \<Rightarrow> 'a ctx_world_scheme" where
  "unit_state_restore p u key self s =
     (let misa = csr_read CSR_MISA (hart_csrs s self); x = contexts s key self;
          s1 = (if bit misa 5 then
                  let s' = regs_upd self (csr_set (m_legal p) CSR_MSTATUS MSTATUS_FS) s in
                  s'\<lparr>fp_regs := (fp_regs s')(self := fp_state_restore (bit misa 3) (fp x) (fp_regs s' self))\<rparr>
                else s);
          (kind, s2) = vector_unit p self s1
      in case kind of
           VEC_SWITCHED \<Rightarrow>
             (case vec x of None \<Rightarrow> s2
              | Some st \<Rightarrow> s2\<lparr>vec_regs := (vec_regs s2)(self := vec_state_restore (u_vset u) (vlenb self s2) st)\<rparr>)
         | VEC_CLEARED \<Rightarrow> s2\<lparr>vec_regs := (vec_regs s2)(self := vec_state_clear (vlenb self s2))\<rparr>
         | VEC_NONE \<Rightarrow> s2)"

section \<open>Saving and restoring\<close>

definition hyp_csr_read :: "nat \<Rightarrow> csrs \<Rightarrow> ulong" where
  "hyp_csr_read i c = (if i < HYP_CSR_COUNT then csr_read (hyp_csrs ! i) c else 0)"

definition hyp_csr_write :: "warl \<Rightarrow> nat \<Rightarrow> ulong \<Rightarrow> csrs \<Rightarrow> csrs" where
  "hyp_csr_write legal i v c = (if i < HYP_CSR_COUNT then csr_write legal (hyp_csrs ! i) v c else c)"

definition hyp_last :: "features \<Rightarrow> nat" where
  "hyp_last feat = (if feat HART_FEAT_AIA then HYP_CSR_COUNT else HYP_FIRST_AIA)"

definition hyp_state_save :: "features \<Rightarrow> csrs \<Rightarrow> domain_context \<Rightarrow> domain_context" where
  "hyp_state_save feat c x =
     (if \<not> feat HART_FEAT_H then x
      else x\<lparr>hyp := map (\<lambda>i. hyp_csr_read i c) [0..<hyp_last feat] @ drop (hyp_last feat) (hyp x),
             htimedelta := csr_read CSR_HTIMEDELTA c,
             henvcfg := if feat HART_FEAT_MENVCFG then csr_read CSR_HENVCFG c else henvcfg x,
             hstateen0 := if feat HART_FEAT_SMSTATEEN then csr_read CSR_HSTATEEN0 c else hstateen0 x,
             vstimecmp := if feat HART_FEAT_SSTC then csr_read CSR_VSTIMECMP c else vstimecmp x\<rparr>)"

definition hyp_state_restore :: "warl \<Rightarrow> features \<Rightarrow> domain_context \<Rightarrow> csrs \<Rightarrow> csrs" where
  "hyp_state_restore legal feat x c =
     (if \<not> feat HART_FEAT_H then c
      else
        let c1 = (if feat HART_FEAT_SSTC then csr_write legal CSR_VSTIMECMP (- 1) c else c);
            c2 = fold (\<lambda>i. hyp_csr_write legal i (hyp x ! i)) [0..<hyp_last feat] c1;
            c3 = csr_write legal CSR_HTIMEDELTA (htimedelta x) c2;
            c4 = (if feat HART_FEAT_MENVCFG then csr_write legal CSR_HENVCFG (henvcfg x) c3 else c3);
            c5 = (if feat HART_FEAT_SMSTATEEN then csr_write legal CSR_HSTATEEN0 (hstateen0 x) c4 else c4)
        in if feat HART_FEAT_SSTC then csr_write legal CSR_VSTIMECMP (vstimecmp x) c5 else c5)"

text \<open>The supervisor CSRs of a context, to and from its fields.\<close>

definition sup_save :: "features \<Rightarrow> csrs \<Rightarrow> domain_context \<Rightarrow> domain_context" where
  "sup_save feat c x =
     x\<lparr>ctx_sie := csr_read CSR_SIE c, ctx_sip := csr_read CSR_SIP c, ctx_stvec := csr_read CSR_STVEC c,
       ctx_sscratch := csr_read CSR_SSCRATCH c, ctx_sepc := csr_read CSR_SEPC c,
       ctx_scause := csr_read CSR_SCAUSE c, ctx_stval := csr_read CSR_STVAL c,
       ctx_satp := csr_read CSR_SATP c, ctx_scounteren := csr_read CSR_SCOUNTEREN c,
       ctx_senvcfg := if feat HART_FEAT_MENVCFG then csr_read CSR_SENVCFG c else ctx_senvcfg x,
       ctx_sstateen := if feat HART_FEAT_SMSTATEEN then map (\<lambda>i. hart_sstateen_read i c) [0..<4]
                       else ctx_sstateen x\<rparr>"

definition sup_restore :: "warl \<Rightarrow> features \<Rightarrow> domain_context \<Rightarrow> csrs \<Rightarrow> csrs" where
  "sup_restore legal feat x c =
     (let c1 = csr_write legal CSR_SCOUNTEREN (ctx_scounteren x) (csr_write legal CSR_SATP (ctx_satp x)
                (csr_write legal CSR_STVAL (ctx_stval x) (csr_write legal CSR_SCAUSE (ctx_scause x)
                (csr_write legal CSR_SEPC (ctx_sepc x) (csr_write legal CSR_SSCRATCH (ctx_sscratch x)
                (csr_write legal CSR_STVEC (ctx_stvec x) (csr_write legal CSR_SIE (ctx_sie x) c)))))));
          c2 = (if feat HART_FEAT_MENVCFG then csr_write legal CSR_SENVCFG (ctx_senvcfg x) c1 else c1)
      in if feat HART_FEAT_SMSTATEEN
         then fold (\<lambda>i. hart_sstateen_write legal i (ctx_sstateen x ! i)) [0..<4] c2 else c2)"

definition context_save ::
  "platform \<Rightarrow> units \<Rightarrow> nat \<Rightarrow> nat \<Rightarrow> trap_regs \<Rightarrow> 'a ctx_world_scheme \<Rightarrow> 'a ctx_world_scheme" where
  "context_save p u key self regs s =
     (let feat = m_feat p; c = hart_csrs s self;
          s1 = context_upd key self (\<lambda>x. (sup_save feat c (x\<lparr>ctx_regs := regs\<rparr>))
                 \<lparr>ctx_timer := timer_smode_get feat (timers s self, c)\<rparr>) s;
          (old, s2) = mpxy_hart_shmem_swap self MPXY_SHMEM_NONE s1;
          s3 = context_upd key self (\<lambda>x. hyp_state_save feat (hart_csrs s2 self) (x\<lparr>ctx_shmem := old\<rparr>)) s2
      in hart_services_switch_out p u self (unit_state_save p key self s3))"

definition ssip_restore :: "warl \<Rightarrow> bool \<Rightarrow> csrs \<Rightarrow> csrs" where
  "ssip_restore legal due c =
     (let c1 = csr_clear legal CSR_MIP MIP_SSIP c in if due then csr_set legal CSR_MIP MIP_SSIP c1 else c1)"

text \<open>The state of a context into the hart, and then the hart into its domain.\<close>

definition context_load :: "platform \<Rightarrow> units \<Rightarrow> nat \<Rightarrow> nat \<Rightarrow> 'a ctx_world_scheme \<Rightarrow> 'a ctx_world_scheme" where
  "context_load p u key self s =
     (let legal = m_legal p; feat = m_feat p; x = contexts s key self;
          s1 = regs_upd self (\<lambda>c. hyp_state_restore legal feat x (sup_restore legal feat x c)) s;
          s2 = unit_state_restore p u key self s1;
          s3 = timer_run self (timer_smode_restore legal feat (p_timer p) (ctx_timer x)) s2;
          s4 = regs_upd self (ssip_restore legal (bit (ctx_sip x) 1 \<or> ctx_ipi x)) s3
      in snd (mpxy_hart_shmem_swap self (ctx_shmem x) (context_upd key self (\<lambda>x. x\<lparr>ctx_ipi := False\<rparr>) s4)))"

definition context_restore ::
  "platform \<Rightarrow> units \<Rightarrow> nat \<Rightarrow> nat \<Rightarrow> bool \<Rightarrow> 'a ctx_world_scheme \<Rightarrow> 'a ctx_world_scheme" where
  "context_restore p u key self fresh s =
     (let from = this_domain_key s self;
          s1 = dom_upd from (\<lambda>d. d\<lparr>assigned := hartmask_clear (assigned d) self\<rparr>) (context_load p u key self s);
          s2 = dom_upd key (\<lambda>d. d\<lparr>parked := hartmask_clear (parked d) self\<rparr>) s1;
          s3 = dom_upd key (\<lambda>d. d\<lparr>assigned := hartmask_set (assigned d) self\<rparr>) s2;
          s4 = context_upd key self (\<lambda>x. x\<lparr>ctx_state := CONTEXT_RUNNING\<rparr>) (hart_domain_set self key s3)
      in hart_services_switch_in p u self fresh (pmp_domain_switch p self s4))"

definition context_park ::
  "platform \<Rightarrow> units \<Rightarrow> nat \<Rightarrow> context_state \<Rightarrow> trap_regs \<Rightarrow> bool \<Rightarrow> 'a ctx_world_scheme \<Rightarrow> 'a ctx_world_scheme" where
  "context_park p u self st regs q s =
     (let key = this_domain_key s self;
          s1 = context_upd key self (\<lambda>x. x\<lparr>ctx_state := st, quiet := q\<rparr>) (context_save p u key self regs s)
      in dom_upd key (\<lambda>d. d\<lparr>parked := hartmask_set (parked d) self\<rparr>) s1)"

text \<open>A context that has never run here: the domain's next stage, as a hart start would have it.\<close>

definition fresh_mstatus :: "ulong \<Rightarrow> ulong \<Rightarrow> ulong" where
  "fresh_mstatus m mode =
     (m AND NOT (MSTATUS_MPP OR MSTATUS_MPIE OR MSTATUS_MPRV OR MSTATUS_SIE OR MSTATUS_SPIE OR MSTATUS_SPP OR
        MSTATUS_FS OR MSTATUS_VS OR MSTATUS_SUM OR MSTATUS_MXR OR MSTATUS_SDT) AND NOT (MSTATUS_MPV OR MSTATUS_GVA))
     OR mpp_of mode"

definition fresh_context ::
  "platform \<Rightarrow> nat \<Rightarrow> domain \<Rightarrow> ulong \<Rightarrow> csrs \<Rightarrow> trap_regs \<Rightarrow> domain_context \<Rightarrow> domain_context" where
  "fresh_context p bytes dm hid c regs x =
     zero_context\<lparr>caller := caller x,
       ctx_regs := \<lparr>gpr = (\<lambda>_. 0)(A0 := hid, A1 := next_arg1 dm), mepc = next_addr dm,
                    mstatus = fresh_mstatus (mstatus regs) (next_mode dm)\<rparr>,
       ctx_stvec := next_addr dm, ctx_timer := - 1, vstimecmp := - 1, ctx_sstateen := replicate 4 (- 1),
       hyp := if m_feat p HART_FEAT_H
              then (hyp zero_context)[HYP_HSTATUS := csr_read CSR_HSTATUS c AND HSTATUS_VSXL] else hyp zero_context,
       ctx_shmem := MPXY_SHMEM_NONE,
       vec := map_option (\<lambda>_. (zero_vec bytes)\<lparr>vtype := BIT 63\<rparr>) (vec x)\<rparr>"

definition context_fresh ::
  "platform \<Rightarrow> nat \<Rightarrow> nat \<Rightarrow> trap_regs \<Rightarrow> 'a ctx_world_scheme \<Rightarrow> 'a ctx_world_scheme" where
  "context_fresh p key self regs s =
     context_upd key self
       (fresh_context p (vec_bytes s) (doms s ! key) (hartid (harts s self)) (hart_csrs s self) regs) s"

section \<open>Switching\<close>

definition sbi_word :: "sbi \<Rightarrow> ulong" where
  "sbi_word rc = word_of_int (sbi_code rc)"

text \<open>Where the hart is afterwards: on its way back to S-mode with a register file, or out of it.\<close>

datatype flow = Goes trap_regs | Halts hsm_exit

definition context_switch ::
  "platform \<Rightarrow> units \<Rightarrow> nat \<Rightarrow> nat \<Rightarrow> trap_regs \<Rightarrow> sbi \<Rightarrow> ulong \<Rightarrow> 'a ctx_world_scheme \<Rightarrow> flow \<times> 'a ctx_world_scheme" where
  "context_switch p u key self regs err v s =
     (if ctx_state (contexts s key self) = CONTEXT_NONE then
        let s1 = context_fresh p key self regs s in
        if boot_hart (doms s ! key) \<noteq> int self then
          let s2 = context_upd key self (\<lambda>x. x\<lparr>ctx_regs := (ctx_regs x)\<lparr>mstatus := mstatus regs\<rparr>\<rparr>) s1;
              s3 = context_restore p u key self True (hsm_store self SBI_HSM_STATE_STOP_PENDING s2);
              (e, s4) = hsm_hart_force_stop p self s3
          in (Halts e, s4)
        else
          let s2 = context_restore p u key self True (context_upd key self (\<lambda>x. x\<lparr>quiet := False\<rparr>) s1)
          in (Goes (ctx_regs (contexts s2 key self)), s2)
      else
        let s1 = (if quiet (contexts s key self) then s
                  else context_upd key self (\<lambda>x. x\<lparr>ctx_regs := gpr_set A1 v (gpr_set A0 (sbi_word err) (ctx_regs x))\<rparr>) s);
            s2 = context_restore p u key self False (context_upd key self (\<lambda>x. x\<lparr>quiet := False\<rparr>) s1)
        in (Goes (ctx_regs (contexts s2 key self)), s2))"

definition caller_waits :: "nat \<Rightarrow> nat \<Rightarrow> 'a ctx_world_scheme \<Rightarrow> nat option" where
  "caller_waits key self s =
     (case caller (contexts s key self) of
        None \<Rightarrow> None
      | Some k \<Rightarrow> if ctx_state (contexts s k self) = CONTEXT_CALLING then Some k else None)"

text \<open>The checks of \<^verbatim>\<open>enter()\<close>, in their order.\<close>

definition enter_check :: "platform \<Rightarrow> nat \<Rightarrow> nat \<Rightarrow> bool \<Rightarrow> 'a ctx_world_scheme \<Rightarrow> sbi" where
  "enter_check p self target q s =
     (let key = this_domain_key s self; dm = doms s ! target; st = ctx_state (contexts s target self) in
      if target = key \<or> \<not> hartmask_test (possible dm) self then SBI_ERR_INVALID_PARAM
      else if \<not> q \<and> \<not> domain_may_enter (doms s ! key) dm then SBI_ERR_DENIED
      else if stopping dm \<or> stopping (doms s ! key) then SBI_ERR_DENIED
      else if st = CONTEXT_RUNNING \<or> st = CONTEXT_CALLING then SBI_ERR_ALREADY_AVAILABLE
      else if st = CONTEXT_NONE \<and> \<not> domain_range_ok (m_regions p) (Some dm) (next_addr dm) 4 DOMAIN_PERM_SU_X
      then SBI_ERR_INVALID_ADDRESS
      else SBI_SUCCESS)"

definition enter ::
  "platform \<Rightarrow> units \<Rightarrow> nat \<Rightarrow> trap_regs \<Rightarrow> nat \<Rightarrow> ulong \<Rightarrow> bool \<Rightarrow> 'a ctx_world_scheme \<Rightarrow>
     sbi \<times> flow \<times> 'a ctx_world_scheme" where
  "enter p u self regs target arg q s =
     (let rc = enter_check p self target q s in
      if rc \<noteq> SBI_SUCCESS then (rc, Goes regs, s)
      else
        let cur = this_domain_key s self;
            s1 = context_park p u self CONTEXT_CALLING regs q s;
            s2 = context_upd target self (\<lambda>x. x\<lparr>caller := Some cur\<rparr>) s1
        in (SBI_SUCCESS, context_switch p u target self regs SBI_SUCCESS arg s2))"

definition domain_enter ::
  "platform \<Rightarrow> units \<Rightarrow> nat \<Rightarrow> trap_regs \<Rightarrow> nat \<Rightarrow> ulong \<Rightarrow> 'a ctx_world_scheme \<Rightarrow> sbi \<times> flow \<times> 'a ctx_world_scheme" where
  "domain_enter p u self regs target arg s = enter p u self regs target arg False s"

definition domain_enterable :: "nat \<Rightarrow> nat \<Rightarrow> 'a ctx_world_scheme \<Rightarrow> bool" where
  "domain_enterable self target s =
     (let dm = doms s ! target; st = ctx_state (contexts s target self) in
      \<not> (target = this_domain_key s self \<or> \<not> hartmask_test (possible dm) self \<or> stopping dm) \<and>
      (st = CONTEXT_IDLE \<or> st = CONTEXT_NONE \<and> boot_hart dm = int self))"

definition domain_switch_to ::
  "platform \<Rightarrow> units \<Rightarrow> nat \<Rightarrow> trap_regs \<Rightarrow> nat \<Rightarrow> 'a ctx_world_scheme \<Rightarrow> sbi \<times> flow \<times> 'a ctx_world_scheme" where
  "domain_switch_to p u self regs target s =
     (if domain_enterable self target s then enter p u self regs target 0 True s
      else (SBI_ERR_DENIED, Goes regs, s))"

definition domain_caller_key :: "nat \<Rightarrow> 'a ctx_world_scheme \<Rightarrow> int" where
  "domain_caller_key self s = (case caller_waits (this_domain_key s self) self s of None \<Rightarrow> - 1 | Some k \<Rightarrow> int k)"

text \<open>Where \<^verbatim>\<open>leave()\<close> goes, and whether that is a boot.\<close>

definition first_boots :: "platform \<Rightarrow> nat \<Rightarrow> nat \<Rightarrow> 'a ctx_world_scheme \<Rightarrow> bool" where
  "first_boots p self d s =
     (let dm = doms s ! d in
      d \<noteq> this_domain_key s self \<and> boot_hart dm = int self \<and> hartmask_test (possible dm) self \<and> \<not> stopping dm \<and>
      ctx_state (contexts s d self) = CONTEXT_NONE \<and>
      domain_range_ok (m_regions p) (Some dm) (next_addr dm) 4 DOMAIN_PERM_SU_X)"

definition next_boots :: "nat \<Rightarrow> nat \<Rightarrow> 'a ctx_world_scheme \<Rightarrow> bool" where
  "next_boots self d s =
     (let dm = doms s ! d in
      d \<noteq> this_domain_key s self \<and> hartmask_test (possible dm) self \<and>
      domain_may_enter (this_domain s self) dm \<and> \<not> stopping dm \<and>
      ctx_state (contexts s d self) = CONTEXT_NONE)"

definition leave_target :: "platform \<Rightarrow> nat \<Rightarrow> bool \<Rightarrow> nat option \<Rightarrow> 'a ctx_world_scheme \<Rightarrow> nat option \<times> bool" where
  "leave_target p self q first s =
     (case caller_waits (this_domain_key s self) self s of
        Some k \<Rightarrow> (Some k, False)
      | None \<Rightarrow>
          if q then ((case first of None \<Rightarrow> None | Some d \<Rightarrow> if first_boots p self d s then Some d else None), True)
          else (find (\<lambda>d. next_boots self d s) [1..<length (doms s)], True))"

definition leave ::
  "platform \<Rightarrow> units \<Rightarrow> nat \<Rightarrow> trap_regs \<Rightarrow> ulong \<Rightarrow> bool \<Rightarrow> nat option \<Rightarrow> 'a ctx_world_scheme \<Rightarrow>
     sbi \<times> flow \<times> 'a ctx_world_scheme" where
  "leave p u self regs v q first s =
     (case leave_target p self q first s of
        (None, _) \<Rightarrow> (SBI_ERR_DENIED, Goes regs, s)
      | (Some to, boots) \<Rightarrow>
          let s1 = (if boots then context_upd to self (\<lambda>x. x\<lparr>caller := None\<rparr>) s else s);
              cur = this_domain_key s self in
          if stopping (this_domain s self) then (SBI_ERR_DENIED, Goes regs, s1)
          else
            let s2 = context_park p u self CONTEXT_IDLE regs q (context_upd cur self (\<lambda>x. x\<lparr>caller := None\<rparr>) s1)
            in (SBI_SUCCESS, context_switch p u to self regs SBI_SUCCESS v s2))"

definition domain_exit ::
  "platform \<Rightarrow> units \<Rightarrow> nat \<Rightarrow> trap_regs \<Rightarrow> ulong \<Rightarrow> 'a ctx_world_scheme \<Rightarrow> sbi \<times> flow \<times> 'a ctx_world_scheme" where
  "domain_exit p u self regs v s = leave p u self regs v False None s"

definition domain_switch_back ::
  "platform \<Rightarrow> units \<Rightarrow> nat \<Rightarrow> trap_regs \<Rightarrow> nat option \<Rightarrow> 'a ctx_world_scheme \<Rightarrow> sbi \<times> flow \<times> 'a ctx_world_scheme" where
  "domain_switch_back p u self regs first s = leave p u self regs 0 True first s"

section \<open>Starting and stopping\<close>

definition domain_stop_self ::
  "platform \<Rightarrow> units \<Rightarrow> nat \<Rightarrow> trap_regs \<Rightarrow> 'a ctx_world_scheme \<Rightarrow> flow \<times> 'a ctx_world_scheme" where
  "domain_stop_self p u self regs s =
     (let cur = this_domain_key s self; to = caller_waits cur self s;
          s1 = context_upd cur self (\<lambda>x. x\<lparr>ctx_state := CONTEXT_NONE, caller := None\<rparr>) s in
      case to of
        None \<Rightarrow> (let (e, s2) = hsm_hart_force_stop p self s1 in (Halts e, s2))
      | Some k \<Rightarrow> context_switch p u k self regs SBI_ERR_FAILED 0 (hart_services_switch_out p u self s1))"

text \<open>What a hart the state machine starts does first; no flow: it goes on to S-mode. There is no
  register file then, and none is read where it goes back to a caller: that one has run before.\<close>

definition no_regs :: trap_regs where
  "no_regs = \<lparr>gpr = (\<lambda>_. 0), mepc = 0, mstatus = 0\<rparr>"

definition domain_context_started ::
  "platform \<Rightarrow> units \<Rightarrow> nat \<Rightarrow> 'a ctx_world_scheme \<Rightarrow> flow option \<times> 'a ctx_world_scheme" where
  "domain_context_started p u self s =
     (let s1 = context_upd (this_domain_key s self) self (\<lambda>x. x\<lparr>ctx_state := CONTEXT_RUNNING\<rparr>) s in
      if domain_stop_pending s1 self then
        let (f, s2) = domain_stop_self p u self no_regs s1 in (Some f, s2)
      else (None, s1))"

definition smode_start :: "platform \<Rightarrow> units \<Rightarrow> nat \<Rightarrow> 'a ctx_world_scheme \<Rightarrow> flow \<times> 'a ctx_world_scheme" where
  "smode_start p u self s =
     (case domain_context_started p u self s of
        (Some f, s1) \<Rightarrow> (f, s1)
      | (None, s1) \<Rightarrow>
          let h = harts s1 self;
              (r, s2) = hart_enter_smode p self (start_addr h) (hartid h) (start_arg h) (start_mode h)
                          (hsm_store self SBI_HSM_STATE_STARTED s1)
          in (Goes r, s2))"

definition hsm_hart_enter ::
  "platform \<Rightarrow> units \<Rightarrow> nat \<Rightarrow> bool \<Rightarrow> 'a ctx_world_scheme \<Rightarrow> panic + flow \<times> 'a ctx_world_scheme" where
  "hsm_hart_enter p u self resume s =
     (if resume then Inr (smode_start p u self s)
      else case hart_runtime_init p u self s of Inl q \<Rightarrow> Inl q | Inr s1 \<Rightarrow> Inr (smode_start p u self s1))"

definition domain_ipi_parked :: "platform \<Rightarrow> nat \<Rightarrow> nat \<Rightarrow> 'a ctx_world_scheme \<Rightarrow> 'a ctx_world_scheme" where
  "domain_ipi_parked p self index s =
     (let key = this_domain_key s self in
      if this_domain_key s index = key then ipi_send p self index IPI_EVENT_SMODE s
      else if ctx_state (contexts s key index) \<noteq> CONTEXT_NONE
      then context_upd key index (\<lambda>x. x\<lparr>ctx_ipi := True\<rparr>) s
      else s)"

definition domain_running :: "platform \<Rightarrow> nat \<Rightarrow> 'a world_scheme \<Rightarrow> bool" where
  "domain_running p key s \<longleftrightarrow>
     list_ex (\<lambda>i. domain_hart_assigned (doms s ! key) i \<and> hart_index_valid p s i \<and>
                  hsm_state (harts s i) \<noteq> SBI_HSM_STATE_STOPPED) [0..<p_harts p] \<or>
     domain_has_parked (PLATFORM_HART_COUNT (m_cfg p)) (doms s ! key)"

definition start_check :: "platform \<Rightarrow> nat \<Rightarrow> 'a world_scheme \<Rightarrow> sbi" where
  "start_check p key s =
     (let dm = doms s ! key in
      if stopping dm then SBI_ERR_DENIED
      else if domain_running p key s then SBI_ERR_ALREADY_AVAILABLE
      else if boot_hart dm < 0 \<or> \<not> domain_hart_assigned dm (nat (boot_hart dm)) then SBI_ERR_INVALID_STATE
      else if \<not> domain_range_ok (m_regions p) (Some dm) (next_addr dm) 4 DOMAIN_PERM_SU_X then SBI_ERR_INVALID_ADDRESS
      else SBI_SUCCESS)"

definition contexts_forget :: "nat \<Rightarrow> nat list \<Rightarrow> 'a ctx_world_scheme \<Rightarrow> 'a ctx_world_scheme" where
  "contexts_forget key hs s = fold (\<lambda>i. context_upd key i (\<lambda>x. x\<lparr>ctx_state := CONTEXT_NONE\<rparr>)) hs s"

definition domain_start ::
  "platform \<Rightarrow> (ulong \<Rightarrow> bool) \<Rightarrow> nat \<Rightarrow> 'a ctx_world_scheme \<Rightarrow> sbi \<times> 'a ctx_world_scheme" where
  "domain_start p fails key s =
     (let rc = start_check p key s; dm = doms s ! key in
      if rc \<noteq> SBI_SUCCESS then (rc, s)
      else hsm_hart_boot p fails (nat (boot_hart dm)) (next_addr dm) (next_arg1 dm) (next_mode dm)
             (sse_domain_reset key (contexts_forget key [0..<p_harts p] s)))"

text \<open>
  \<^verbatim>\<open>domain_stop\<close> up to the wait, a round of the wait, and what follows it. The wait is for the
  harts that run the domain; they leave it at the end of their next trap.
\<close>

definition stop_one :: "nat \<Rightarrow> nat \<Rightarrow> 'a ctx_world_scheme \<Rightarrow> 'a ctx_world_scheme" where
  "stop_one key i s =
     (if ctx_state (contexts s key i) = CONTEXT_CALLING \<or> ctx_state (contexts s key i) = CONTEXT_IDLE then
        dom_upd key (\<lambda>d. d\<lparr>parked := hartmask_clear (parked d) i\<rparr>)
          (context_upd key i (\<lambda>x. x\<lparr>ctx_state := CONTEXT_NONE, caller := None\<rparr>) s)
      else s)"

definition stop_begin :: "platform \<Rightarrow> nat \<Rightarrow> nat \<Rightarrow> 'a ctx_world_scheme \<Rightarrow> 'a ctx_world_scheme" where
  "stop_begin p self key s =
     (let s1 = dom_upd key (\<lambda>d. d\<lparr>stopping := True\<rparr>) (s\<lparr>stop_lock := True\<rparr>);
          s2 = fold (stop_one key) [0..<p_harts p] s1
      in fold (\<lambda>i s. if i \<noteq> self \<and> domain_hart_assigned (doms s ! key) i then ipi_kick p i s else s)
           [0..<p_harts p] s2)"

definition stop_busy :: "platform \<Rightarrow> nat \<Rightarrow> nat \<Rightarrow> 'a world_scheme \<Rightarrow> bool" where
  "stop_busy p self key s =
     list_ex (\<lambda>i. i \<noteq> self \<and> domain_hart_assigned (doms s ! key) i \<and> hart_index_valid p s i \<and>
                  hsm_state (harts s i) \<noteq> SBI_HSM_STATE_STOPPED) [0..<p_harts p]"

text \<open>The wait when no other hart does anything: it ends only if there is nothing to wait for.\<close>

partial_function (option) stop_wait :: "platform \<Rightarrow> nat \<Rightarrow> nat \<Rightarrow> 'a ctx_world_scheme \<Rightarrow> 'a ctx_world_scheme option" where
  "stop_wait p self key s =
     (let busy = stop_busy p self key s; (halted, s1) = ipi_process p self s in
      if halted then None else if busy then stop_wait p self key s1 else Some s1)"

definition stop_end ::
  "platform \<Rightarrow> units \<Rightarrow> nat \<Rightarrow> trap_regs \<Rightarrow> nat \<Rightarrow> 'a ctx_world_scheme \<Rightarrow> sbi \<times> flow \<times> 'a ctx_world_scheme" where
  "stop_end p u self regs key s =
     (let s1 = dom_upd key (\<lambda>d. d\<lparr>stopping := False\<rparr>) (sse_domain_reset key s)\<lparr>stop_lock := False\<rparr> in
      (SBI_SUCCESS, if key = this_domain_key s1 self then domain_stop_self p u self regs s1 else (Goes regs, s1)))"

definition domain_stop ::
  "platform \<Rightarrow> units \<Rightarrow> nat \<Rightarrow> trap_regs \<Rightarrow> nat \<Rightarrow> 'a ctx_world_scheme \<Rightarrow> (sbi \<times> flow \<times> 'a ctx_world_scheme) option" where
  "domain_stop p u self regs key s =
     (if stop_lock s then Some (SBI_ERR_FAILED, Goes regs, s)
      else map_option (stop_end p u self regs key) (stop_wait p self key (stop_begin p self key s)))"

end
