(* ===== verification/Switching.thy ===== *)
theory Switching
  imports Context
begin

text \<open>
  What the domain switch of \<open>Context\<close> guarantees: the data it keeps is well-formed, and the hart
  masks of the domains say where every hart is and where it is waited for.
\<close>

section \<open>What the rest of the monitor leaves alone\<close>

definition ctx_view :: "'a ctx_world_scheme \<Rightarrow> (nat \<Rightarrow> nat \<Rightarrow> domain_context) \<times> domain list \<times> (nat \<Rightarrow> nat)" where
  "ctx_view s = (contexts s, doms s, \<lambda>h. hart_domain (harts s h))"

lemma ctx_viewD:
  assumes "ctx_view s' = ctx_view s"
  shows "contexts s' = contexts s" "doms s' = doms s" "hart_domain (harts s' h) = hart_domain (harts s h)"
  using assms by (auto simp: ctx_view_def dest: fun_cong)

named_theorems view

lemma view_fold:
  assumes "\<And>x s. ctx_view (f x s) = ctx_view s"
  shows "ctx_view (fold f xs s) = ctx_view s"
  by (induction xs arbitrary: s) (auto simp: assms)

lemma view_fabric [view]:
  "ctx_view (regs_upd h f s) = ctx_view s" "ctx_view (fw_event ev h s) = ctx_view s"
  "ctx_view (ipi_kick p t s) = ctx_view s" "ctx_view (ipi_send p self t e s) = ctx_view s"
  "ctx_view (ipi_clear h s) = ctx_view s" "ctx_view (ipi_smode p h w s) = ctx_view s"
  "ctx_view (ipi_hart_init p h s) = ctx_view s" "ctx_view (snd (ipi_swap h s)) = ctx_view s"
  by (auto simp: ctx_view_def fabric_defs ipi_kick_def ipi_send_def ipi_hart_init_def Let_def split: option.splits)

lemma view_rfence_serve: "ctx_view (rfence_serve h e s) = ctx_view s"
  by (simp add: ctx_view_def rfence_serve_def Let_def fw_event_def log_fence_def)

lemma view_rfence_process [view]: "ctx_view (rfence_process h s) = ctx_view s"
proof (induction "q_count (queues s h)" arbitrary: s rule: less_induct)
  case less
  show ?case
  proof (cases "dequeue h s")
    case None
    then show ?thesis by (subst rfence_process.simps) simp
  next
    case (Some es)
    obtain e s1 where es: "es = (e, s1)" by (cases es)
    have "q_count (queues (rfence_serve h e s1) h) < q_count (queues s h)" "ctx_view s1 = ctx_view s"
      using Some by (auto simp: es dequeue_def ring_take_def ctx_view_def split: option.splits if_splits)
    then show ?thesis using Some less es by (subst rfence_process.simps) (simp add: view_rfence_serve)
  qed
qed

lemma view_ipi_process [view]: "ctx_view (snd (ipi_process p h s)) = ctx_view s"
  using view_fabric(8) [of h "ipi_clear h s"]
  by (simp add: ipi_process_def view case_prod_beta Let_def split: if_splits)

lemma view_hsm [view]:
  "ctx_view (hsm_store h st s) = ctx_view s" "ctx_view (start_args h a b c s) = ctx_view s"
  "ctx_view (snd (hsm_transition h f t s)) = ctx_view s" "ctx_view (timer_stop p h s) = ctx_view s"
  by (auto simp: ctx_view_def hsm_defs timer_stop_def Let_def case_prod_beta)

lemma view_hsm_hart_wait [view]: "ctx_view (snd (hsm_hart_wait p h s)) = ctx_view s"
  by (simp add: hsm_hart_wait_def hsm_wait_enter_def view)

lemma view_hsm_hart_force_stop [view]: "ctx_view (snd (hsm_hart_force_stop p h s)) = ctx_view s"
  by (simp add: hsm_hart_force_stop_def view)

lemma view_hsm_claim [view]: "ctx_view (snd (hsm_claim i a b c s)) = ctx_view s"
  by (simp add: hsm_claim_def Let_def view)

lemma view_hsm_hart_boot [view]: "ctx_view (snd (hsm_hart_boot p fails i a b c s)) = ctx_view s"
proof -
  have "ctx_view (snd (hsm_launch p fails i s')) = ctx_view s'" for s' :: "'a ctx_world_scheme"
    by (simp add: hsm_launch_def view)
  then show ?thesis using view_hsm_claim [of i a b c s]
    by (auto simp: hsm_hart_boot_def split: prod.splits option.splits)
qed

lemma view_runs [view]:
  "ctx_view (pmu_run h f1 s) = ctx_view s" "ctx_view (dbtr_run h f2 s) = ctx_view s"
  "ctx_view (fwft_run h f3 s) = ctx_view s" "ctx_view (timer_run h f4 s) = ctx_view s"
  "ctx_view (snd (mpxy_hart_shmem_swap h a s)) = ctx_view s" "ctx_view (mpxy_hart_init h s) = ctx_view s"
  "ctx_view (pmp_domain_switch p h s) = ctx_view s"
  by (auto simp: ctx_view_def pmu_run_def dbtr_run_def fwft_run_def timer_run_def mpxy_hart_shmem_swap_def
    mpxy_hart_init_def pmp_domain_switch_def regs_upd_def Let_def case_prod_beta)

lemma view_sse [view]:
  "ctx_view (set_kick h v s) = ctx_view s" "ctx_view (set_unmasked k h v s) = ctx_view s"
  "ctx_view (set_event r e s) = ctx_view s" "ctx_view (sse_domain_reset k s) = ctx_view s"
  by (cases r; simp add: ctx_view_def set_kick_def set_unmasked_def sse_domain_reset_def)+

lemma view_event_source_update [view]: "ctx_view (event_source_update p h e s) = ctx_view s"
  unfolding event_source_update_def ras_event_arm_def
  by (simp add: view ctx_view_def Let_def case_prod_beta regs_upd_def)

lemma view_ras_sources_update [view]: "ctx_view (ras_sources_update p h s) = ctx_view s"
  unfolding ras_sources_update_def by (rule view_fold) (simp add: view)

lemma view_set_events [view]: "ctx_view (fold (\<lambda>i. set_event (r i) (e i)) is s) = ctx_view s"
  by (rule view_fold) (simp add: view)

lemma view_fields [view]:
  "ctx_view (s\<lparr>sse_domains := d\<rparr>) = ctx_view s" "ctx_view (s\<lparr>hart_csrs := c\<rparr>) = ctx_view s"
  "ctx_view (s\<lparr>fp_regs := a\<rparr>) = ctx_view s" "ctx_view (s\<lparr>vec_regs := b\<rparr>) = ctx_view s"
  "ctx_view (s\<lparr>stop_lock := l\<rparr>) = ctx_view s" "ctx_view (s\<lparr>mpxy_shmem := m\<rparr>) = ctx_view s"
  by (simp_all add: ctx_view_def)

lemma view_sse_hart_init [view]: "ctx_view (sse_hart_init p h s) = ctx_view s"
  unfolding sse_hart_init_def Let_def by (simp add: view del: upt_rec_numeral)

lemma view_sse_hart_switch_in [view]: "ctx_view (sse_hart_switch_in p h fresh s) = ctx_view s"
  by (simp add: sse_hart_switch_in_def view)

lemma view_services [view]:
  "ctx_view (hart_services_switch_out p u h s) = ctx_view s"
  "ctx_view (hart_services_switch_in p u h fresh s) = ctx_view s"
  by (simp_all add: hart_services_switch_out_def hart_services_switch_in_def Let_def view)

lemma view_hart_enter_smode [view]: "ctx_view (snd (hart_enter_smode p h e a b m s)) = ctx_view s"
  by (simp add: hart_enter_smode_def Let_def view)

lemma view_hart_runtime_init: "hart_runtime_init p u h s = Inr s' \<Longrightarrow> ctx_view s' = ctx_view s"
  unfolding hart_runtime_init_def Let_def by (auto simp: view split: sum.splits)

section \<open>What saving and restoring changes\<close>

text \<open>The parts of a context that are about where it stands, not what it holds.\<close>

definition standing :: "domain_context \<Rightarrow> context_state \<times> nat option" where
  "standing x = (ctx_state x, caller x)"

lemma standing_simps [simp]:
  "standing (sup_save feat c x) = standing x" "standing (hyp_state_save feat c x) = standing x"
  "standing (x\<lparr>ctx_regs := r\<rparr>) = standing x" "standing (x\<lparr>ctx_timer := t\<rparr>) = standing x"
  "standing (x\<lparr>ctx_shmem := a\<rparr>) = standing x" "standing (x\<lparr>fp := b\<rparr>) = standing x"
  "standing (x\<lparr>vec := v\<rparr>) = standing x" "standing (x\<lparr>quiet := q\<rparr>) = standing x"
  "standing (x\<lparr>ctx_ipi := i\<rparr>) = standing x"
  by (simp_all add: standing_def sup_save_def hyp_state_save_def)

definition places :: "'a ctx_world_scheme \<Rightarrow> (nat \<Rightarrow> nat \<Rightarrow> context_state \<times> nat option) \<times> domain list \<times> (nat \<Rightarrow> nat)" where
  "places s = (\<lambda>k h. standing (contexts s k h), doms s, \<lambda>h. hart_domain (harts s h))"

lemma places_view: "ctx_view s' = ctx_view s \<Longrightarrow> places s' = places s"
  by (auto simp: places_def ctx_view_def dest: fun_cong)

lemma places_context_upd:
  "(\<And>x. standing (f x) = standing x) \<Longrightarrow> places (context_upd k h f s) = places s"
  by (auto simp: places_def context_upd_def slot_upd_def fun_eq_iff)

lemma places_fp [simp]: "places (context_upd k h (\<lambda>x. x\<lparr>fp := f x\<rparr>) s) = places s"
  and places_vec [simp]: "places (context_upd k h (\<lambda>x. x\<lparr>vec := g x\<rparr>) s) = places s"
  and places_ipi [simp]: "places (context_upd k h (\<lambda>x. x\<lparr>ctx_ipi := i\<rparr>) s) = places s"
  and places_quiet [simp]: "places (context_upd k h (\<lambda>x. x\<lparr>quiet := i\<rparr>) s) = places s"
  and places_regs [simp]: "places (context_upd k h (\<lambda>x. x\<lparr>ctx_regs := r x\<rparr>) s) = places s"
  by (simp_all add: places_context_upd)

lemmas places_simps = view [THEN places_view]

lemma places_vector_unit: "places (snd (vector_unit p h s)) = places s"
  by (simp add: vector_unit_def Let_def places_simps)

lemma places_unit_state_save: "places (unit_state_save p k h s) = places s"
  by (simp add: unit_state_save_def Let_def case_prod_beta places_vector_unit places_simps)

lemma places_unit_state_restore: "places (unit_state_restore p u k h s) = places s"
  by (simp add: unit_state_restore_def Let_def case_prod_beta places_vector_unit places_simps
      split: vec_kind.split option.split)

lemma places_context_save: "places (context_save p u k h regs s) = places s"
  unfolding context_save_def Let_def mpxy_hart_shmem_swap_def prod.case
  by (simp add: places_simps places_unit_state_save places_context_upd)

type_synonym places = "(nat \<Rightarrow> nat \<Rightarrow> context_state \<times> nat option) \<times> domain list \<times> (nat \<Rightarrow> nat)"

text \<open>The same operations on where contexts stand and harts are.\<close>

definition put_standing :: "nat \<Rightarrow> nat \<Rightarrow> (context_state \<times> nat option \<Rightarrow> context_state \<times> nat option) \<Rightarrow> places \<Rightarrow> places" where
  "put_standing k h f = (\<lambda>(st, ds, hd). (slot_upd st k h (f (st k h)), ds, hd))"

definition put_dom :: "nat \<Rightarrow> (domain \<Rightarrow> domain) \<Rightarrow> places \<Rightarrow> places" where
  "put_dom k f = (\<lambda>(st, ds, hd). (st, ds[k := f (ds ! k)], hd))"

definition put_hart :: "nat \<Rightarrow> nat \<Rightarrow> places \<Rightarrow> places" where
  "put_hart h k = (\<lambda>(st, ds, hd). (st, ds, hd(h := k)))"

lemma places_dom_upd: "places (dom_upd k f s) = put_dom k f (places s)"
  by (simp add: places_def dom_upd_def put_dom_def)

lemma places_hart_domain_set: "places (hart_domain_set h k s) = put_hart h k (places s)"
  by (auto simp: places_def hart_domain_set_def put_hart_def hart_upd_def Let_def)

lemma places_context_put:
  "(\<And>x. standing (f x) = g (standing x)) \<Longrightarrow> places (context_upd k h f s) = put_standing k h g (places s)"
  by (auto simp: places_def context_upd_def put_standing_def slot_upd_def fun_eq_iff)

lemma places_put_state:
  "places (context_upd k h (\<lambda>x. x\<lparr>ctx_state := v\<rparr>) s) = put_standing k h (\<lambda>(_, c). (v, c)) (places s)"
  "places (context_upd k h (\<lambda>x. x\<lparr>caller := w\<rparr>) s) = put_standing k h (\<lambda>(v, _). (v, w)) (places s)"
  "places (context_upd k h (\<lambda>x. x\<lparr>ctx_state := v, caller := w\<rparr>) s) = put_standing k h (\<lambda>_. (v, w)) (places s)"
  "places (context_upd k h (\<lambda>x. x\<lparr>ctx_state := v, quiet := q\<rparr>) s) = put_standing k h (\<lambda>(_, c). (v, c)) (places s)"
  by (auto intro!: places_context_put simp: standing_def)

definition at_home :: "places \<Rightarrow> nat \<Rightarrow> nat" where
  "at_home = (\<lambda>(st, ds, hd) h. hd h)"

lemma this_domain_key_places: "this_domain_key s h = at_home (places s) h"
  by (simp add: this_domain_key_def places_def at_home_def)

definition run_places :: "nat \<Rightarrow> nat \<Rightarrow> places \<Rightarrow> places" where
  "run_places self key v =
     put_standing key self (\<lambda>(_, c). (CONTEXT_RUNNING, c)) (put_hart self key
       (put_dom key (\<lambda>d. d\<lparr>assigned := hartmask_set (assigned d) self\<rparr>)
       (put_dom key (\<lambda>d. d\<lparr>parked := hartmask_clear (parked d) self\<rparr>)
       (put_dom (at_home v self) (\<lambda>d. d\<lparr>assigned := hartmask_clear (assigned d) self\<rparr>) v))))"

definition park_places :: "nat \<Rightarrow> context_state \<Rightarrow> places \<Rightarrow> places" where
  "park_places self t v =
     put_dom (at_home v self) (\<lambda>d. d\<lparr>parked := hartmask_set (parked d) self\<rparr>)
       (put_standing (at_home v self) self (\<lambda>(_, c). (t, c)) v)"

lemma places_context_restore: "places (context_restore p u key self fresh s) = run_places self key (places s)"
  unfolding context_restore_def context_load_def Let_def
  by (simp add: places_simps places_put_state places_hart_domain_set places_dom_upd
      places_unit_state_restore this_domain_key_places run_places_def)

lemma places_context_park: "places (context_park p u self t regs q s) = park_places self t (places s)"
  unfolding context_park_def Let_def
  by (simp add: places_dom_upd places_put_state places_context_save this_domain_key_places park_places_def)

lemma places_context_fresh:
  "places (context_fresh p key self regs s) = put_standing key self (\<lambda>(_, c). (CONTEXT_NONE, c)) (places s)"
  unfolding context_fresh_def
  by (rule places_context_put) (simp add: standing_def fresh_context_def zero_context_def)

lemma put_standing_state_twice:
  "put_standing k h (\<lambda>(_, c). (w, c)) (put_standing k h (\<lambda>(_, c). (w', c)) v) = put_standing k h (\<lambda>(_, c). (w, c)) v"
  by (auto simp: put_standing_def slot_upd_def fun_eq_iff split: prod.splits)

lemma at_home_put [simp]:
  "at_home (put_standing k h f v) = at_home v" "at_home (put_dom k g v) = at_home v"
  "at_home (put_hart h k v) = (at_home v)(h := k)"
  by (auto simp: at_home_def put_standing_def put_dom_def put_hart_def split: prod.splits)

lemma put_commute:
  "put_hart h' k' (put_standing k h f v) = put_standing k h f (put_hart h' k' v)"
  "put_dom k' g (put_standing k h f v) = put_standing k h f (put_dom k' g v)"
  by (auto simp: put_standing_def put_dom_def put_hart_def split: prod.splits)

lemma run_places_fresh: "run_places self key (put_standing key self (\<lambda>(_, c). (CONTEXT_NONE, c)) v) = run_places self key v"
  by (simp add: run_places_def put_commute put_standing_state_twice)

text \<open>Whatever the switch does, the hart is in the domain it was meant for.\<close>

lemma places_context_switch: "places (snd (context_switch p u key self regs err v s)) = run_places self key (places s)"
  unfolding context_switch_def Let_def
  by (simp add: case_prod_beta places_context_restore places_context_fresh run_places_fresh places_simps)

section \<open>Well-formedness and the hart masks\<close>

text \<open>
  \<open>places_wf\<close> is about types and ranges: a domain's index is its place in the table, masks have
  the size of the hart table, the domain of every hart and every caller exists.
\<close>

definition places_wf :: "nat \<Rightarrow> nat \<Rightarrow> places \<Rightarrow> bool" where
  "places_wf count n = (\<lambda>(st, ds, hd).
     n \<le> count \<and>
     (\<forall>k < length ds. dom_index (ds ! k) = k \<and> hartmask_wf count (possible (ds ! k)) \<and>
        hartmask_wf count (assigned (ds ! k)) \<and> hartmask_wf count (parked (ds ! k))) \<and>
     (\<forall>h < n. hd h < length ds) \<and>
     (\<forall>k h j. snd (st k h) = Some j \<longrightarrow> j < length ds))"

text \<open>
  The masks: a hart is assigned to the domain it runs and to no other; it is parked in the domains
  that have a context on it that waits; and no other context than the running domain's runs.
\<close>

definition waiting :: "context_state \<Rightarrow> bool" where
  "waiting t \<longleftrightarrow> t = CONTEXT_CALLING \<or> t = CONTEXT_IDLE"

definition places_masks :: "nat \<Rightarrow> places \<Rightarrow> bool" where
  "places_masks n = (\<lambda>(st, ds, hd).
     \<forall>h < n. \<forall>k < length ds.
       (hartmask_test (assigned (ds ! k)) h \<longleftrightarrow> hd h = k) \<and>
       (hartmask_test (parked (ds ! k)) h \<longleftrightarrow> waiting (fst (st k h))) \<and>
       (fst (st k h) = CONTEXT_RUNNING \<longrightarrow> hd h = k))"

definition places_ok :: "nat \<Rightarrow> nat \<Rightarrow> places \<Rightarrow> bool" where
  "places_ok count n v \<longleftrightarrow> places_wf count n v \<and> places_masks n v"

text \<open>The running context may go away and come back; a waiting one too, with its mask.\<close>

lemma nth_upd: "j < length xs \<Longrightarrow> xs[i := x] ! j = (if i = j then x else xs ! j)"
  by (cases "i < length xs") auto

lemma places_wf_put_standing:
  assumes "places_wf count n v" "\<And>x j. snd (f x) = Some j \<Longrightarrow> snd x = Some j \<or> j < length (fst (snd v))"
  shows "places_wf count n (put_standing k h f v)"
proof -
  obtain st ds hd where v: "v = (st, ds, hd)" by (cases v)
  have "j < length ds" if "snd (slot_upd st k h (f (st k h)) k' h') = Some j" for k' h' j
    using that assms(1) assms(2) [of "st k h" j] unfolding v places_wf_def slot_upd_def
    by (auto split: if_splits)
  then show ?thesis using assms(1) by (simp add: v places_wf_def put_standing_def)
qed

definition keeps_domain :: "nat \<Rightarrow> (domain \<Rightarrow> domain) \<Rightarrow> bool" where
  "keeps_domain count f \<longleftrightarrow> (\<forall>d. dom_index (f d) = dom_index d \<and> possible (f d) = possible d \<and>
     (hartmask_wf count (assigned d) \<longrightarrow> hartmask_wf count (assigned (f d))) \<and>
     (hartmask_wf count (parked d) \<longrightarrow> hartmask_wf count (parked (f d))))"

lemma keeps_domain_masks:
  assumes "self < count"
  shows "keeps_domain count (\<lambda>d. d\<lparr>assigned := hartmask_set (assigned d) self\<rparr>)"
    "keeps_domain count (\<lambda>d. d\<lparr>assigned := hartmask_clear (assigned d) self\<rparr>)"
    "keeps_domain count (\<lambda>d. d\<lparr>parked := hartmask_set (parked d) self\<rparr>)"
    "keeps_domain count (\<lambda>d. d\<lparr>parked := hartmask_clear (parked d) self\<rparr>)"
    "keeps_domain count (\<lambda>d. d\<lparr>stopping := b\<rparr>)"
  using assms by (simp_all add: keeps_domain_def hm.wf_add hm.wf_del)

lemma places_wf_put_dom:
  assumes "places_wf count n v" "keeps_domain count f"
  shows "places_wf count n (put_dom k f v)"
proof -
  obtain st ds hd where v: "v = (st, ds, hd)" by (cases v)
  show ?thesis using assms by (simp add: v places_wf_def put_dom_def nth_upd keeps_domain_def)
qed

lemma places_wf_put_hart: "places_wf count n v \<Longrightarrow> k < length (fst (snd v)) \<Longrightarrow> places_wf count n (put_hart h k v)"
  by (auto simp: places_wf_def put_hart_def split: prod.splits)

lemma length_doms_put [simp]:
  "length (fst (snd (put_standing k h f v))) = length (fst (snd v))"
  "length (fst (snd (put_dom k g v))) = length (fst (snd v))"
  "fst (snd (put_hart h k v)) = fst (snd v)"
  by (auto simp: put_standing_def put_dom_def put_hart_def split: prod.splits)

lemma places_wf_count: "places_wf count n v \<Longrightarrow> self < n \<Longrightarrow> self < count"
  by (auto simp: places_wf_def split: prod.splits)

lemma places_wf_run:
  assumes "places_wf count n v" "key < length (fst (snd v))" "self < n"
  shows "places_wf count n (run_places self key v)"
  unfolding run_places_def
  by (intro places_wf_put_standing places_wf_put_hart places_wf_put_dom
      keeps_domain_masks places_wf_count [OF assms(1,3)] assms(1)) (simp_all add: assms(2) case_prod_beta)

lemma places_wf_park: "places_wf count n v \<Longrightarrow> self < n \<Longrightarrow> places_wf count n (park_places self t v)"
  unfolding park_places_def
  by (intro places_wf_put_standing places_wf_put_dom keeps_domain_masks)
     (simp_all add: places_wf_count case_prod_beta)

lemma places_masks_put_standing:
  assumes "places_masks n v" "h < n"
    and "waiting (fst (f (fst v k h))) \<longleftrightarrow> waiting (fst (fst v k h))"
    and "fst (f (fst v k h)) = CONTEXT_RUNNING \<longrightarrow> at_home v h = k"
  shows "places_masks n (put_standing k h f v)"
proof -
  obtain st ds hd where v: "v = (st, ds, hd)" by (cases v)
  show ?thesis using assms by (simp add: v places_masks_def put_standing_def slot_upd_def at_home_def)
qed

lemma test_masks:
  assumes "self < count"
  shows "hartmask_wf count m \<Longrightarrow> hartmask_test (hartmask_set m self) h \<longleftrightarrow> h = self \<or> hartmask_test m h"
    "hartmask_wf count m \<Longrightarrow> hartmask_test (hartmask_clear m self) h \<longleftrightarrow> h \<noteq> self \<and> hartmask_test m h"
  using assms by (simp_all add: hm.member_add hm.member_del)

lemma places_ok_park:
  assumes "places_ok count n v" "self < n" "waiting t"
  shows "places_ok count n (park_places self t v)"
proof -
  obtain st ds hd where v: "v = (st, ds, hd)" by (cases v)
  have c: "self < count" using assms(1,2) places_wf_count [of count n v self] by (simp add: places_ok_def)
  have "places_masks n (park_places self t v)"
    using assms unfolding places_ok_def places_wf_def places_masks_def v park_places_def put_dom_def put_standing_def at_home_def
    by (auto simp: nth_upd slot_upd_def test_masks [OF c] waiting_def split: prod.splits)
  then show ?thesis using assms places_wf_park by (simp add: places_ok_def)
qed

lemma places_ok_run:
  assumes "places_ok count n v" "self < n" "key < length (fst (snd v))"
    and "fst (fst v (at_home v self) self) \<noteq> CONTEXT_RUNNING"
  shows "places_ok count n (run_places self key v)"
proof -
  obtain st ds hd where v: "v = (st, ds, hd)" by (cases v)
  have c: "self < count" using assms(1,2) places_wf_count [of count n v self] by (simp add: places_ok_def)
  have wf: "hartmask_wf count (assigned (ds ! k))" "hartmask_wf count (parked (ds ! k))" if "k < length ds" for k
    using assms(1) that by (simp_all add: places_ok_def places_wf_def v)
  define es where "es = ds[hd self := (ds ! hd self)\<lparr>assigned := hartmask_clear (assigned (ds ! hd self)) self\<rparr>]"
  define fs where "fs = es[key := (es ! key)\<lparr>parked := hartmask_clear (parked (es ! key)) self,
     assigned := hartmask_set (assigned (es ! key)) self\<rparr>]"
  have run: "run_places self key v = (slot_upd st key self (CONTEXT_RUNNING, snd (st key self)), fs, hd(self := key))"
    using assms(3)
    by (simp add: run_places_def v put_dom_def put_standing_def put_hart_def at_home_def es_def fs_def case_prod_beta)
  have hds: "hd self < length ds" using assms(1,2) by (simp add: places_ok_def places_wf_def v)
  have tests: "hartmask_test (assigned (fs ! k)) h \<longleftrightarrow>
      (if h = self then k = key else hartmask_test (assigned (ds ! k)) h)"
    "hartmask_test (parked (fs ! k)) h \<longleftrightarrow> hartmask_test (parked (ds ! k)) h \<and> \<not> (h = self \<and> k = key)"
    if "h < n" "k < length ds" for h k
  proof -
    have "hartmask_test (assigned (ds ! k)) self \<longleftrightarrow> hd self = k"
      using assms(1,2) that(2) by (simp add: places_ok_def places_masks_def v)
    then show "hartmask_test (assigned (fs ! k)) h \<longleftrightarrow>
      (if h = self then k = key else hartmask_test (assigned (ds ! k)) h)"
      using that wf [of k] hds hm.wf_del c
      by (auto simp: fs_def es_def nth_upd test_masks [OF c])
    show "hartmask_test (parked (fs ! k)) h \<longleftrightarrow> hartmask_test (parked (ds ! k)) h \<and> \<not> (h = self \<and> k = key)"
      using that wf [of k] by (auto simp: fs_def es_def nth_upd test_masks [OF c])
  qed
  have len: "length fs = length ds" by (simp add: fs_def es_def)
  have old: "(hartmask_test (assigned (ds ! k)) h \<longleftrightarrow> hd h = k) \<and>
      (hartmask_test (parked (ds ! k)) h \<longleftrightarrow> waiting (fst (st k h))) \<and>
      (fst (st k h) = CONTEXT_RUNNING \<longrightarrow> hd h = k)" if "h < n" "k < length ds" for h k
    using assms(1) that by (simp add: places_ok_def places_masks_def v)
  have "places_masks n (run_places self key v)"
    unfolding run places_masks_def prod.case len
    using old tests assms(4) by (auto simp: slot_upd_def v at_home_def waiting_def)
  then show ?thesis using assms places_wf_run by (simp add: places_ok_def)
qed

text \<open>Between operations the domain a hart runs does not wait for it as well.\<close>

definition places_inv :: "nat \<Rightarrow> nat \<Rightarrow> places \<Rightarrow> bool" where
  "places_inv count n v \<longleftrightarrow> places_ok count n v \<and> (\<forall>h < n. \<not> waiting (fst (fst v (at_home v h) h)))"

lemma places_inv_run:
  assumes "places_ok count n v" "self < n" "key < length (fst (snd v))"
    and "\<forall>h < n. h \<noteq> self \<longrightarrow> \<not> waiting (fst (fst v (at_home v h) h))"
    and "fst (fst v (at_home v self) self) \<noteq> CONTEXT_RUNNING"
  shows "places_inv count n (run_places self key v)"
proof -
  have "fst (run_places self key v) k h = (if h = self \<and> k = key then (CONTEXT_RUNNING, snd (fst v k h)) else fst v k h)"
    "at_home (run_places self key v) h = (if h = self then key else at_home v h)" for k h
    by (auto simp: run_places_def put_dom_def put_standing_def put_hart_def at_home_def slot_upd_def split: prod.splits)
  then show ?thesis using places_ok_run [OF assms(1,2,3,5)] assms(4) by (simp add: places_inv_def waiting_def)
qed

lemma places_inv_at_home: "places_inv count n v \<Longrightarrow> h < n \<Longrightarrow> at_home v h < length (fst (snd v))"
  by (cases v) (simp add: places_inv_def places_ok_def places_wf_def at_home_def)

lemma fst_park: "fst (park_places self t v) k h =
    (if k = at_home v self \<and> h = self then (t, snd (fst v k h)) else fst v k h)"
  "at_home (park_places self t v) = at_home v" "length (fst (snd (park_places self t v))) = length (fst (snd v))"
  by (auto simp: park_places_def put_dom_def put_standing_def at_home_def slot_upd_def split: prod.splits)

lemma places_ok_put_caller:
  assumes "places_ok count n v" "h < n" "\<And>j. w = Some j \<Longrightarrow> j < length (fst (snd v))"
  shows "places_ok count n (put_standing k h (\<lambda>(t, _). (t, w)) v)"
proof -
  have "places_masks n v" using assms(1) by (simp add: places_ok_def)
  moreover have "fst (fst v k h) = CONTEXT_RUNNING \<longrightarrow> at_home v h = k" if "k < length (fst (snd v))"
    using assms(1,2) that by (cases v) (simp add: places_ok_def places_masks_def at_home_def)
  ultimately have "places_masks n (put_standing k h (\<lambda>(t, _). (t, w)) v)"
    using assms(2) by (cases v) (auto simp: places_masks_def put_standing_def slot_upd_def split: prod.splits)
  then show ?thesis using assms by (auto simp: places_ok_def case_prod_beta intro!: places_wf_put_standing)
qed

lemma fst_put_standing: "fst (put_standing k h f v) k' h' = (if k' = k \<and> h' = h then f (fst v k h) else fst v k' h')"
  by (cases v) (auto simp: put_standing_def slot_upd_def)

text \<open>A hart that parks its context and runs another: the shape of every switch.\<close>

lemma places_inv_switch:
  assumes "places_inv count n v" "self < n" "key < length (fst (snd v))" "waiting t"
    and "\<And>j. w = Some j \<Longrightarrow> j < length (fst (snd v))"
  shows "places_inv count n (run_places self key (put_standing k self (\<lambda>(t, _). (t, w)) (park_places self t v)))"
proof (rule places_inv_run)
  show "places_ok count n (put_standing k self (\<lambda>(t, _). (t, w)) (park_places self t v))"
    using assms by (intro places_ok_put_caller places_ok_park) (auto simp: places_inv_def fst_park)
qed (use assms in \<open>auto simp: fst_put_standing fst_park places_inv_def waiting_def case_prod_beta\<close>)

lemma places_inv_put_caller:
  assumes "places_inv count n v" "h < n" "\<And>j. w = Some j \<Longrightarrow> j < length (fst (snd v))"
  shows "places_inv count n (put_standing k h (\<lambda>(t, _). (t, w)) v)"
  using assms places_ok_put_caller [of count n v h w k]
  by (auto simp: places_inv_def fst_put_standing case_prod_beta)

lemma put_standing_park:
  "park_places self t (put_standing k h (\<lambda>(t, _). (t, w)) v) = put_standing k h (\<lambda>(t, _). (t, w)) (park_places self t v)"
  by (cases v) (auto simp: park_places_def put_dom_def put_standing_def at_home_def slot_upd_def fun_eq_iff split: prod.splits)

text \<open>The domain a hart runs loses its context there, or gets it.\<close>

lemma places_inv_put_home:
  assumes "places_inv count n v" "h < n" "t = CONTEXT_NONE \<or> t = CONTEXT_RUNNING"
    and "\<And>x. f x = (t, snd x) \<or> f x = (t, None)"
  shows "places_inv count n (put_standing (at_home v h) h f v)"
proof -
  have a: "\<not> waiting (fst (fst v (at_home v h) h))" "places_masks n v" "places_wf count n v"
    using assms(1,2) unfolding places_inv_def places_ok_def by blast+
  have nt: "\<not> waiting t" using assms(3) by (auto simp: waiting_def)
  have f: "fst (f x) = t" for x using assms(4) [of x] by auto
  have "places_masks n (put_standing (at_home v h) h f v)"
    by (rule places_masks_put_standing [OF a(2) assms(2)]) (simp_all add: f a(1) nt)
  moreover have "places_wf count n (put_standing (at_home v h) h f v)"
  proof (rule places_wf_put_standing [OF a(3)])
    fix x j assume "snd (f x) = Some j"
    then show "snd x = Some j \<or> j < length (fst (snd v))" using assms(4) [of x] by auto
  qed
  ultimately show ?thesis using assms(1) by (simp add: places_inv_def places_ok_def fst_put_standing f nt)
qed

section \<open>Runs\<close>

definition ctx_inv :: "platform \<Rightarrow> 'a ctx_world_scheme \<Rightarrow> bool" where
  "ctx_inv p s \<longleftrightarrow> places_inv (PLATFORM_HART_COUNT (m_cfg p)) (p_harts p) (places s)"

text \<open>
  The steps: what harts do to contexts and masks, each under the lock, in any order. \<open>other\<close> is
  everything the monitor does besides; it leaves alone where contexts stand and harts are.
\<close>

inductive ctx_step :: "platform \<Rightarrow> units \<Rightarrow> 'a ctx_world_scheme \<Rightarrow> 'a ctx_world_scheme \<Rightarrow> bool" for p u where
  enter: "self < p_harts p \<Longrightarrow> target < length (doms s) \<Longrightarrow>
    ctx_step p u s (snd (snd (enter p u self regs target arg q s)))"
| leave: "self < p_harts p \<Longrightarrow> (\<And>d. first = Some d \<Longrightarrow> d < length (doms s)) \<Longrightarrow>
    ctx_step p u s (snd (snd (leave p u self regs v q first s)))"
| stop_self: "self < p_harts p \<Longrightarrow> ctx_step p u s (snd (domain_stop_self p u self regs s))"
| hart_enter: "self < p_harts p \<Longrightarrow> hsm_hart_enter p u self resume s = Inr (f, s') \<Longrightarrow> ctx_step p u s s'"
| ipi_parked: "self < p_harts p \<Longrightarrow> ctx_step p u s (domain_ipi_parked p self index s)"
| start: "key < length (doms s) \<Longrightarrow> ctx_step p u s (snd (domain_start p fails key s))"
| stop_begin: "key < length (doms s) \<Longrightarrow> \<not> stop_lock s \<Longrightarrow> ctx_step p u s (stop_begin p self key s)"
| stop_end: "self < p_harts p \<Longrightarrow> key < length (doms s) \<Longrightarrow>
    ctx_step p u s (snd (snd (stop_end p u self regs key s)))"
| other: "places s' = places s \<Longrightarrow> ctx_step p u s s'"

text \<open>
  At boot: the harts are dealt out to the domains (\<open>partition\<close>, which \<^verbatim>\<open>domains_init\<close> establishes),
  no context has run, none is parked.
\<close>

definition ctx_boot :: "platform \<Rightarrow> 'a ctx_world_scheme \<Rightarrow> bool" where
  "ctx_boot p s \<longleftrightarrow>
     p_harts p \<le> PLATFORM_HART_COUNT (m_cfg p) \<and>
     partition (m_cfg p) (p_harts p) (doms s, map (\<lambda>h. hart_domain (harts s h)) [0..<p_harts p]) \<and>
     (\<forall>k < length (doms s). dom_index (doms s ! k) = k \<and>
        hartmask_wf (PLATFORM_HART_COUNT (m_cfg p)) (possible (doms s ! k)) \<and> parked (doms s ! k) = no_harts (m_cfg p)) \<and>
     (\<forall>k h. ctx_state (contexts s k h) = CONTEXT_NONE \<and> caller (contexts s k h) = None)"

inductive ctx_reach :: "platform \<Rightarrow> units \<Rightarrow> 'a ctx_world_scheme \<Rightarrow> bool" for p u where
  boot: "ctx_boot p s \<Longrightarrow> ctx_reach p u s"
| step: "ctx_reach p u s \<Longrightarrow> ctx_step p u s s' \<Longrightarrow> ctx_reach p u s'"

lemma ctx_inv_boot: "ctx_boot p s \<Longrightarrow> ctx_inv p s"
  by (auto simp: ctx_boot_def ctx_inv_def places_inv_def places_ok_def places_wf_def places_masks_def places_def
    standing_def partition_def at_home_def waiting_def no_harts_def hartmask_wf_def hartmask_test_def bit_test_none)

lemma places_doms: "fst (snd (places s)) = doms s"
  by (simp add: places_def)

lemma ctx_inv_home: "ctx_inv p s \<Longrightarrow> h < p_harts p \<Longrightarrow> this_domain_key s h < length (doms s)"
  using places_inv_at_home [of _ _ "places s" h] by (simp add: ctx_inv_def this_domain_key_places places_doms)

lemma ctx_inv_caller: "ctx_inv p s \<Longrightarrow> caller (contexts s k h) = Some j \<Longrightarrow> j < length (doms s)"
  by (auto simp: ctx_inv_def places_inv_def places_ok_def places_wf_def places_def standing_def)

lemma caller_waits_caller: "caller_waits k h s = Some j \<Longrightarrow> caller (contexts s k h) = Some j"
  by (auto simp: caller_waits_def split: option.splits if_splits)

lemma ctx_inv_enter:
  assumes "ctx_inv p s" "self < p_harts p" "target < length (doms s)"
  shows "ctx_inv p (snd (snd (enter p u self regs target arg q s)))"
proof -
  have "places_inv (PLATFORM_HART_COUNT (m_cfg p)) (p_harts p)
     (run_places self target (put_standing target self (\<lambda>(t, _). (t, Some (this_domain_key s self)))
       (park_places self CONTEXT_CALLING (places s))))"
    using assms ctx_inv_home [OF assms(1,2)]
    by (intro places_inv_switch) (auto simp: ctx_inv_def places_doms waiting_def)
  then show ?thesis using assms(1)
    by (simp add: enter_def Let_def ctx_inv_def places_context_switch places_put_state places_context_park)
qed

lemma leave_target_less:
  assumes "ctx_inv p s" "leave_target p self q first s = (Some to, b)" "\<And>d. first = Some d \<Longrightarrow> d < length (doms s)"
  shows "to < length (doms s)"
  using assms by (auto simp: leave_target_def find_Some_iff dest: caller_waits_caller ctx_inv_caller
    split: option.splits if_splits)

lemma ctx_inv_leave:
  assumes "ctx_inv p s" "self < p_harts p" "\<And>d. first = Some d \<Longrightarrow> d < length (doms s)"
  shows "ctx_inv p (snd (snd (leave p u self regs v q first s)))"
proof (cases "leave_target p self q first s")
  case (Pair to boots)
  show ?thesis
  proof (cases to)
    case None
    then show ?thesis using Pair assms(1) by (simp add: leave_def)
  next
    case (Some k)
    have k: "k < length (doms s)" using leave_target_less [OF assms(1) _ assms(3)] Pair Some by blast
    define s1 where "s1 = (if boots then context_upd k self (\<lambda>x. x\<lparr>caller := None\<rparr>) s else s)"
    have s1: "ctx_inv p s1" "length (doms s1) = length (doms s)" "this_domain_key s1 self = this_domain_key s self"
      using assms(1,2) places_inv_put_caller [of _ "p_harts p" "places s" self None k]
      by (auto simp: s1_def ctx_inv_def places_put_state) (auto simp: context_upd_def this_domain_key_def)
    have "places_inv (PLATFORM_HART_COUNT (m_cfg p)) (p_harts p)
      (run_places self k (put_standing (this_domain_key s self) self (\<lambda>(t, _). (t, None))
        (park_places self CONTEXT_IDLE (places s1))))"
      using s1 k assms(2) by (intro places_inv_switch) (auto simp: ctx_inv_def places_doms waiting_def)
    then show ?thesis using s1(1) Pair Some s1(3)
      by (simp add: leave_def Let_def ctx_inv_def places_context_switch places_context_park places_put_state
          put_standing_park flip: s1_def)
  qed
qed

lemma ctx_inv_stop_self:
  assumes "ctx_inv p s" "self < p_harts p"
  shows "ctx_inv p (snd (domain_stop_self p u self regs s))"
proof -
  define s1 where "s1 = context_upd (this_domain_key s self) self (\<lambda>x. x\<lparr>ctx_state := CONTEXT_NONE, caller := None\<rparr>) s"
  have pl: "places s1 = put_standing (at_home (places s) self) self (\<lambda>_. (CONTEXT_NONE, None)) (places s)"
    by (simp add: s1_def places_put_state this_domain_key_places)
  have s1: "ctx_inv p s1"
    unfolding ctx_inv_def pl by (rule places_inv_put_home [where t = CONTEXT_NONE]) (use assms in \<open>auto simp: ctx_inv_def\<close>)
  have nr: "fst (fst (places s1) (at_home (places s1) self) self) \<noteq> CONTEXT_RUNNING" by (simp add: pl fst_put_standing)
  have "ctx_inv p (snd (context_switch p u k self regs SBI_ERR_FAILED 0 (hart_services_switch_out p u self s1)))"
    if "caller_waits (this_domain_key s self) self s = Some k" for k
  proof -
    have "k < length (doms s)" using that assms(1) by (blast dest: caller_waits_caller ctx_inv_caller)
    then have "k < length (fst (snd (places s1)))" by (simp add: pl places_doms)
    then have "places_inv (PLATFORM_HART_COUNT (m_cfg p)) (p_harts p) (run_places self k (places s1))"
      by (intro places_inv_run) (use s1 assms(2) nr in \<open>auto simp: ctx_inv_def places_inv_def\<close>)
    then show ?thesis by (simp add: ctx_inv_def places_context_switch places_simps)
  qed
  then show ?thesis using s1
    by (auto simp: domain_stop_self_def Let_def case_prod_beta ctx_inv_def places_simps simp flip: s1_def split: option.splits)
qed

lemma ctx_inv_started:
  assumes "ctx_inv p s" "self < p_harts p"
  shows "ctx_inv p (snd (domain_context_started p u self s))"
proof -
  define s1 where "s1 = context_upd (this_domain_key s self) self (\<lambda>x. x\<lparr>ctx_state := CONTEXT_RUNNING\<rparr>) s"
  have inv: "ctx_inv p s1"
    unfolding ctx_inv_def s1_def places_put_state this_domain_key_places
    by (rule places_inv_put_home [where t = CONTEXT_RUNNING]) (use assms in \<open>auto simp: ctx_inv_def\<close>)
  then show ?thesis using ctx_inv_stop_self [OF inv assms(2), of u no_regs]
    by (simp add: domain_context_started_def Let_def case_prod_beta flip: s1_def)
qed

lemma ctx_inv_view: "ctx_view s' = ctx_view s \<Longrightarrow> ctx_inv p s \<Longrightarrow> ctx_inv p s'"
  unfolding ctx_inv_def by (drule places_view) simp

lemma view_smode_start: "ctx_view (snd (smode_start p u self s)) = ctx_view (snd (domain_context_started p u self s))"
proof -
  obtain fo s1 where st: "domain_context_started p u self s = (fo, s1)" by force
  show ?thesis unfolding smode_start_def st by (cases fo) (simp_all add: Let_def case_prod_beta view)
qed

lemma ctx_inv_hart_enter:
  assumes "ctx_inv p s" "self < p_harts p" "hsm_hart_enter p u self resume s = Inr (f, s')"
  shows "ctx_inv p s'"
proof -
  obtain s1 where s1: "ctx_view s1 = ctx_view s" "s' = snd (smode_start p u self s1)"
  proof (cases resume)
    case True
    then show ?thesis using that [of s] assms(3) by (simp add: hsm_hart_enter_def)
  next
    case False
    then obtain s1 where r: "hart_runtime_init p u self s = Inr s1" "smode_start p u self s1 = (f, s')"
      using assms(3) by (auto simp: hsm_hart_enter_def split: sum.splits)
    then show ?thesis using that [of s1] view_hart_runtime_init [OF r(1)] by simp
  qed
  have "ctx_inv p s1" by (rule ctx_inv_view [OF s1(1) assms(1)])
  then have "ctx_inv p (snd (domain_context_started p u self s1))" by (rule ctx_inv_started) (rule assms(2))
  then show ?thesis unfolding s1(2) by (rule ctx_inv_view [OF view_smode_start])
qed

lemma no_parked:
  assumes "ctx_inv p s" "key < length (doms s)" "\<not> domain_running p key s" "h < p_harts p"
  shows "\<not> waiting (ctx_state (contexts s key h))"
proof -
  have "hartmask_empty (PLATFORM_HART_COUNT (m_cfg p)) (parked (doms s ! key))"
    using assms(3) by (auto simp: domain_running_def domain_has_parked_def)
  moreover have "h < PLATFORM_HART_COUNT (m_cfg p)"
    using assms(1,4) by (auto simp: ctx_inv_def places_inv_def places_ok_def places_wf_def places_def)
  ultimately have "\<not> hartmask_test (parked (doms s ! key)) h"
    using bit_word_less by (auto simp: hartmask_empty_def hartmask_test_def bit_test_iff list_all_iff)
  then show ?thesis
    using assms by (auto simp: ctx_inv_def places_inv_def places_ok_def places_masks_def places_def standing_def)
qed

lemma ctx_inv_put_none:
  assumes "ctx_inv p s" "h < p_harts p" "\<not> waiting (ctx_state (contexts s key h))"
  shows "ctx_inv p (context_upd key h (\<lambda>x. x\<lparr>ctx_state := CONTEXT_NONE\<rparr>) s)"
proof -
  let ?f = "\<lambda>(_, c). (CONTEXT_NONE, c)" and ?v = "places s"
  have v: "places_masks (p_harts p) ?v" "places_wf (PLATFORM_HART_COUNT (m_cfg p)) (p_harts p) ?v"
    "\<forall>h < p_harts p. \<not> waiting (fst (fst ?v (at_home ?v h) h))"
    using assms(1) by (simp_all add: ctx_inv_def places_inv_def places_ok_def)
  have "\<not> waiting (fst (fst ?v key h))" using assms(3) by (simp add: places_def standing_def)
  then have "places_masks (p_harts p) (put_standing key h ?f ?v)"
    by (intro places_masks_put_standing [OF v(1) assms(2)]) (auto simp: waiting_def case_prod_beta)
  moreover have "places_wf (PLATFORM_HART_COUNT (m_cfg p)) (p_harts p) (put_standing key h ?f ?v)"
    by (rule places_wf_put_standing [OF v(2)]) (simp add: case_prod_beta)
  ultimately show ?thesis using v(3)
    by (simp add: ctx_inv_def places_put_state places_inv_def places_ok_def fst_put_standing waiting_def case_prod_beta)
qed

lemma ctx_inv_forget:
  assumes "ctx_inv p s" "\<And>h. h \<in> set hs \<Longrightarrow> h < p_harts p" "\<And>h. h \<in> set hs \<Longrightarrow> \<not> waiting (ctx_state (contexts s key h))"
  shows "ctx_inv p (contexts_forget key hs s)"
  using assms
proof (induction hs arbitrary: s)
  case (Cons h hs)
  let ?s = "context_upd key h (\<lambda>x. x\<lparr>ctx_state := CONTEXT_NONE\<rparr>) s"
  have "ctx_inv p ?s" using Cons.prems by (intro ctx_inv_put_none) auto
  moreover have "\<not> waiting (ctx_state (contexts ?s key i))" if "i \<in> set hs" for i
    using Cons.prems(3) [of i] that by (auto simp: context_upd_def slot_upd_def waiting_def)
  ultimately have "ctx_inv p (contexts_forget key hs ?s)" using Cons.prems(2) by (intro Cons.IH) auto
  then show ?case by (simp add: contexts_forget_def)
qed (simp add: contexts_forget_def)

lemma ctx_inv_start:
  assumes "ctx_inv p s" "key < length (doms s)"
  shows "ctx_inv p (snd (domain_start p fails key s))"
proof (cases "start_check p key s = SBI_SUCCESS")
  case True
  then have "\<not> domain_running p key s" by (auto simp: start_check_def Let_def split: if_splits)
  then have "ctx_inv p (contexts_forget key [0..<p_harts p] s)"
    using no_parked [OF assms] by (intro ctx_inv_forget assms(1)) auto
  then show ?thesis using True by (simp add: domain_start_def Let_def ctx_inv_def places_simps)
qed (use assms in \<open>simp add: domain_start_def Let_def\<close>)

lemma places_stop_one:
  "places (stop_one key i s) =
     (if waiting (fst (fst (places s) key i))
      then put_dom key (\<lambda>d. d\<lparr>parked := hartmask_clear (parked d) i\<rparr>)
             (put_standing key i (\<lambda>_. (CONTEXT_NONE, None)) (places s))
      else places s)"
proof -
  have w: "fst (fst (places s) key i) = ctx_state (contexts s key i)" by (simp add: places_def standing_def)
  show ?thesis unfolding w stop_one_def waiting_def by (simp add: places_dom_upd places_put_state)
qed

lemma fst_put_dom: "fst (put_dom k f v) = fst v"
  by (simp add: put_dom_def split: prod.split)

lemma places_inv_stop_one:
  assumes "places_inv count n v" "i < n" "waiting (fst (fst v key i))"
  shows "places_inv count n (put_dom key (\<lambda>d. d\<lparr>parked := hartmask_clear (parked d) i\<rparr>)
    (put_standing key i (\<lambda>_. (CONTEXT_NONE, None)) v))"
proof -
  obtain st ds hd where v: "v = (st, ds, hd)" by (cases v)
  have ok: "places_wf count n v" "places_masks n v" "\<forall>h < n. \<not> waiting (fst (fst v (at_home v h) h))"
    using assms(1) by (simp_all add: places_inv_def places_ok_def)
  have c: "i < count" using places_wf_count [OF ok(1) assms(2)] .
  have pw: "hartmask_wf count (parked (ds ! k))" if "k < length ds" for k
    using ok(1) that by (simp add: places_wf_def v)
  have "places_wf count n (put_dom key (\<lambda>d. d\<lparr>parked := hartmask_clear (parked d) i\<rparr>)
    (put_standing key i (\<lambda>_. (CONTEXT_NONE, None)) v))"
    by (intro places_wf_put_dom places_wf_put_standing ok(1) keeps_domain_masks c) simp
  moreover have "places_masks n (put_dom key (\<lambda>d. d\<lparr>parked := hartmask_clear (parked d) i\<rparr>)
    (put_standing key i (\<lambda>_. (CONTEXT_NONE, None)) v))"
    using ok(2) pw unfolding v places_masks_def put_dom_def put_standing_def prod.case
    by (auto simp: nth_upd slot_upd_def test_masks [OF c] waiting_def)
  moreover have "\<not> waiting (fst (if at_home v h = key \<and> h = i then (CONTEXT_NONE, None) else fst v (at_home v h) h))"
    if "h < n" for h
    using ok(3) that by (auto simp: waiting_def)
  ultimately show ?thesis unfolding places_inv_def places_ok_def
    by (simp add: fst_put_dom fst_put_standing)
qed

lemma ctx_inv_stop_one: "ctx_inv p s \<Longrightarrow> i < p_harts p \<Longrightarrow> ctx_inv p (stop_one key i s)"
  by (simp add: ctx_inv_def places_stop_one places_inv_stop_one)

lemma ctx_inv_stopping: "ctx_inv p s \<Longrightarrow> ctx_inv p (dom_upd key (\<lambda>d. d\<lparr>stopping := b\<rparr>) s)"
proof -
  assume "ctx_inv p s"
  moreover have "(ds[key := (ds ! key)\<lparr>stopping := b\<rparr>] ! k) \<in> {ds ! k, (ds ! k)\<lparr>stopping := b\<rparr>}"
    if "k < length ds" for ds k using that by (simp add: nth_upd)
  ultimately show ?thesis unfolding ctx_inv_def places_dom_upd
    by (cases "places s") (auto simp: places_inv_def places_ok_def places_wf_def places_masks_def put_dom_def at_home_def nth_upd)
qed

lemma ctx_inv_fold:
  assumes "ctx_inv p s" "\<And>x s. x \<in> set xs \<Longrightarrow> ctx_inv p s \<Longrightarrow> ctx_inv p (f x s)"
  shows "ctx_inv p (fold f xs s)"
  using assms by (induction xs arbitrary: s) auto

lemma ctx_inv_stop_begin: "ctx_inv p s \<Longrightarrow> ctx_inv p (stop_begin p self key s)"
  unfolding stop_begin_def Let_def
proof (intro ctx_inv_fold ctx_inv_stop_one ctx_inv_stopping)
  show "ctx_inv p s \<Longrightarrow> ctx_inv p (s\<lparr>stop_lock := True\<rparr>)" by (simp add: ctx_inv_def places_simps)
qed (auto simp: ctx_inv_def places_simps)

lemma ctx_inv_stop_end:
  assumes "ctx_inv p s" "self < p_harts p"
  shows "ctx_inv p (snd (snd (stop_end p u self regs key s)))"
proof -
  define s1 where "s1 = dom_upd key (\<lambda>d. d\<lparr>stopping := False\<rparr>) (sse_domain_reset key s)\<lparr>stop_lock := False\<rparr>"
  have "ctx_inv p (sse_domain_reset key s)" using assms(1) by (simp add: ctx_inv_def places_simps)
  from ctx_inv_stopping [OF this, of key False] have s1: "ctx_inv p s1" by (simp add: s1_def ctx_inv_def places_simps)
  then show ?thesis using ctx_inv_stop_self [OF s1 assms(2)]
    by (simp add: stop_end_def Let_def flip: s1_def)
qed

lemma ctx_inv_ipi_parked: "ctx_inv p s \<Longrightarrow> ctx_inv p (domain_ipi_parked p self index s)"
  by (simp add: domain_ipi_parked_def Let_def ctx_inv_def places_simps)

lemma ctx_inv_step: "ctx_step p u s s' \<Longrightarrow> ctx_inv p s \<Longrightarrow> ctx_inv p s'"
proof (induction rule: ctx_step.induct)
  case (other s' s)
  then show ?case by (simp add: ctx_inv_def)
qed (simp_all add: ctx_inv_enter ctx_inv_leave ctx_inv_stop_self ctx_inv_hart_enter ctx_inv_ipi_parked
    ctx_inv_start ctx_inv_stop_begin ctx_inv_stop_end)

lemma ctx_inv_reach: "ctx_reach p u s \<Longrightarrow> ctx_inv p s"
  by (induction rule: ctx_reach.induct) (auto intro: ctx_inv_boot ctx_inv_step)


text \<open>
  C36. The hart masks of the domains are exact, whatever the harts do, in any order: a hart is
  assigned to the domain it runs and to no other; it is parked in exactly the domains that have a
  context on it which waits to be gone back to or entered again, never in the one it runs; and no
  context of another domain counts as running on it.
\<close>

theorem hart_masks_exact:
  assumes "ctx_reach p u s" "h < p_harts p" "k < length (doms s)"
  shows "(domain_hart_assigned (doms s ! k) h \<longleftrightarrow> this_domain_key s h = k) \<and>
    (hartmask_test (parked (doms s ! k)) h \<longleftrightarrow> ctx_state (contexts s k h) \<in> {CONTEXT_CALLING, CONTEXT_IDLE}) \<and>
    (ctx_state (contexts s k h) = CONTEXT_RUNNING \<longrightarrow> this_domain_key s h = k) \<and>
    (this_domain_key s h = k \<longrightarrow> \<not> hartmask_test (parked (doms s ! k)) h)"
  using ctx_inv_reach [OF assms(1)] assms(2,3)
  by (auto simp: ctx_inv_def places_inv_def places_ok_def places_masks_def places_def standing_def at_home_def
      this_domain_key_def domain_hart_assigned_def waiting_def)

section \<open>An example\<close>

text \<open>Two harts of the root domain, and a domain that hart 0 may visit and boots.\<close>

definition visit_domains :: "domain list" where
  "visit_domains = [demo_domain\<lparr>possible := [3], assigned := [3]\<rparr>,
     demo_domain\<lparr>dom_index := 1, possible := [1], boot_hart := 0, next_addr := 0x80400000, next_mode := PRV_S,
       entry_from := Some [1]\<rparr>]"

definition visit_units :: units where
  "visit_units = \<lparr>u_pmu = demo_pmu, u_trig = demo_trig, u_vset = (\<lambda>l t. (l, t))\<rparr>"

definition visit_boot :: ctx_world where
  "visit_boot = \<lparr>queues = (\<lambda>h. ring_init), outs = (\<lambda>h. 0), ipi_pending = (\<lambda>h. 0), ipi_line = (\<lambda>h. False),
     hart_csrs = (\<lambda>h n. 0), hart_pmu = (\<lambda>h. demo_slot), fenced = (\<lambda>h. []),
     harts = (\<lambda>h. pair_hart (of_nat h)), doms = visit_domains, timers = (\<lambda>h. \<lparr>deadline = 0, compare = None\<rparr>),
     sse_harts = (\<lambda>k h. \<lparr>sh_local = (\<lambda>i. event_reset duo 0 0), unmasked = False\<rparr>),
     sse_domains = (\<lambda>k. \<lparr>sd_global = (\<lambda>i. event_reset duo 0 0), globals_ready = False\<rparr>),
     kick = (\<lambda>h. False), sources = 0,
     pmu_slots = (\<lambda>k h. demo_slot), fwft_slots = (\<lambda>k h. fwft_zero), dbtr_slots = (\<lambda>k h. fst demo_dbtr),
     trigs_of = (\<lambda>h. snd demo_dbtr), mpxy_shmem = (\<lambda>h. MPXY_SHMEM_NONE),
     contexts = (\<lambda>k h. zero_context), fp_regs = (\<lambda>h n. 0), vec_regs = (\<lambda>h. vec_state_clear 0), vec_bytes = 0,
     stop_lock = False\<rparr>"

definition visit_regs :: trap_regs where
  "visit_regs = \<lparr>gpr = (\<lambda>n. of_nat n), mepc = 0x80200004, mstatus = mpp_of PRV_S\<rparr>"

definition visit_in :: "sbi \<times> flow \<times> ctx_world" where
  "visit_in = domain_enter duo visit_units 0 visit_regs 1 7 visit_boot"

lemma visit_boot_ok: "ctx_boot duo visit_boot"
proof -
  have n: "p_harts duo = 2" "m_cfg duo = demo_config" by (simp add: duo_ok, simp add: duo_def)
  have d: "i < 2 \<Longrightarrow> i = 0 \<or> i = 1" for i :: nat by auto
  have two: "hartmask_test [3] 0" "hartmask_test [3] 1" "\<not> hartmask_test [0] 0" "\<not> hartmask_test [0] 1"
    by (simp_all add: hartmask_test_def bit_test_iff bit_word_def bit_numeral_rec)
  show ?thesis
    unfolding ctx_boot_def partition_def n
    by (auto simp: visit_boot_def visit_domains_def demo_config_def demo_domain_def zero_domain_def
        zero_context_def pair_hart_def no_harts_def hartmask_wf_def bitstr_size_def less_Suc_eq two [simplified]
        dest!: d)
qed

lemma visit_checks: "enter_check duo 0 1 False visit_boot = SBI_SUCCESS"
  by code_simp

lemma visit_reach: "ctx_reach duo visit_units (snd (snd visit_in))"
  unfolding visit_in_def domain_enter_def
  by (rule ctx_reach.step [OF ctx_reach.boot [OF visit_boot_ok] ctx_step.enter])
     (simp_all add: duo_ok visit_boot_def visit_domains_def)


lemma length_doms_enter: "length (doms (snd (snd (enter p u self regs target arg q s)))) = length (doms s)"
proof -
  have "length (fst (snd (places (snd (snd (enter p u self regs target arg q s)))))) = length (fst (snd (places s)))"
    by (simp add: enter_def Let_def places_context_switch places_put_state places_context_park run_places_def park_places_def)
  then show ?thesis by (simp add: places_doms)
qed

lemma visit_in_doms: "length (doms (snd (snd visit_in))) = 2"
  by (simp add: visit_in_def domain_enter_def length_doms_enter visit_boot_def visit_domains_def)

lemma visit_in_ok: "fst visit_in = SBI_SUCCESS"
  by (simp add: visit_in_def domain_enter_def enter_def visit_checks [simplified] Let_def)


lemma visit_in_home: "this_domain_key (snd (snd visit_in)) 0 = 1"
  by (simp add: visit_in_def domain_enter_def enter_def visit_checks [simplified] Let_def this_domain_key_places
      places_context_switch run_places_def)

theorem hart_masks_exact_witness:
  "domain_hart_assigned (doms (snd (snd visit_in)) ! 1) 0 \<and> \<not> domain_hart_assigned (doms (snd (snd visit_in)) ! 0) 0"
  using hart_masks_exact [OF visit_reach, of 0 1] hart_masks_exact [OF visit_reach, of 0 0]
  by (simp add: duo_ok visit_in_doms visit_in_home)

end
