(* ===== verification/Sparing.thy ===== *)
theory Sparing
  imports Switching
begin

text \<open>
  What a change of domain leaves alone on a hart. The services and the protection unit write their own
  CSRs; every other register, the floating-point and vector registers, the timer and the shared
  memory are only touched where a context is saved and restored.
\<close>

section \<open>Registers nobody else writes\<close>

text \<open>The CSRs the services and the protection unit write, besides the S-mode timer's.\<close>

definition svc_csr :: "nat \<Rightarrow> bool" where
  "svc_csr n \<longleftrightarrow> n \<in> {CSR_MSTATUS, CSR_MIE, CSR_MIP, CSR_MIDELEG, CSR_MEDELEG, CSR_MENVCFG, CSR_SIE, CSR_SIP} \<or>
     pmp_csr n \<or> CSR_MHPMEVENT0 \<le> n \<and> n < CSR_MHPMEVENT0 + 32 \<or> CSR_MCYCLE \<le> n \<and> n < CSR_MCYCLE + 32"

text \<open>A step of a hart on its CSRs that keeps to them.\<close>

definition spares :: "(csrs \<Rightarrow> csrs) \<Rightarrow> bool" where
  "spares f \<longleftrightarrow> (\<forall>c n. \<not> svc_csr n \<longrightarrow> f c n = c n)"

lemma sparesD: "spares f \<Longrightarrow> \<not> svc_csr n \<Longrightarrow> f c n = c n"
  by (simp add: spares_def)

lemma spares_id: "spares (\<lambda>c. c)"
  by (simp add: spares_def)

lemma spares_if: "(b \<Longrightarrow> spares f) \<Longrightarrow> (\<not> b \<Longrightarrow> spares g) \<Longrightarrow> spares (\<lambda>c. if b then f c else g c)"
  by (simp add: spares_def)

lemma spares_fold: "(\<And>x. x \<in> set xs \<Longrightarrow> spares (f x)) \<Longrightarrow> spares (\<lambda>c. fold f xs c)"
proof (induction xs)
  case (Cons x xs)
  then have "spares (\<lambda>c. fold f xs c)" "spares (f x)" by auto
  then show ?case by (simp add: spares_def)
qed (simp add: spares_def)

lemma svc_csrs [simp]:
  "svc_csr CSR_MSTATUS" "svc_csr CSR_MIE" "svc_csr CSR_MIP" "svc_csr CSR_MIDELEG" "svc_csr CSR_MEDELEG"
  "svc_csr CSR_MENVCFG" "svc_csr CSR_MCOUNTINHIBIT" "svc_csr CSR_MCYCLECFG" "svc_csr CSR_MINSTRETCFG"
  unfolding svc_csr_def by simp_all

lemma svc_csr_pmp: "pmp_csr n \<Longrightarrow> svc_csr n"
  unfolding svc_csr_def by blast

lemma svc_csr_hpm: "i < 32 \<Longrightarrow> svc_csr (CSR_MHPMEVENT0 + i)" "i < 32 \<Longrightarrow> svc_csr (CSR_MCYCLE + i)"
  unfolding svc_csr_def by simp_all

lemma csr_write_keeps:
  assumes "svc_csr m" "\<not> svc_csr n"
  shows "csr_write legal m v c n = c n"
proof -
  have "n \<noteq> m" "n \<noteq> CSR_MIE" "n \<noteq> CSR_MIP" using assms svc_csrs by metis+
  then show ?thesis by (rule csr_write_plain_other)
qed

lemma spares_csr: "svc_csr m \<Longrightarrow> spares (csr_write legal m v)" "svc_csr m \<Longrightarrow> spares (csr_set legal m v)"
  "svc_csr m \<Longrightarrow> spares (csr_clear legal m v)"
  by (simp_all add: spares_def csr_set_def csr_clear_def csr_write_keeps)

section \<open>The services keep to theirs\<close>

lemma spares_pmp_entry_set: "spares (pmp_entry_set legal i a cfg)"
  unfolding spares_def
proof (intro allI impI)
  fix c n assume "\<not> svc_csr n"
  then have "\<not> pmp_csr n" using svc_csr_pmp by blast
  then show "pmp_entry_set legal i a cfg c n = c n"
    using pmp_entry_set_other [of i n legal a cfg c] by (cases "i < 16") (simp_all add: pmp_entry_set_def)
qed

lemma spares_pmp_range_set: "spares (\<lambda>c. fst (pmp_range_set legal g i b z perm c))"
  by (simp add: spares_def pmp_range_set_def sparesD [OF spares_pmp_entry_set])

lemma spares_pmp_all_set: "spares (pmp_all_set legal i perm)"
  using spares_pmp_entry_set by (simp add: pmp_all_set_def [abs_def])

lemma shared_regions_loop_spares: "\<not> svc_csr n \<Longrightarrow> shared_regions_loop legal feat g mrs dm i rs c n = c n"
  by (induction rs arbitrary: i c) (simp_all add: Let_def sparesD [OF spares_pmp_range_set])

lemma domain_regions_loop_spares: "\<not> svc_csr n \<Longrightarrow> fst (domain_regions_loop legal cfg g i rs c) n = c n"
proof (induction rs arbitrary: i c)
  case (Cons r rs)
  then show ?case
    by (simp add: Let_def case_prod_beta sparesD [OF spares_pmp_range_set] sparesD [OF spares_pmp_all_set])
qed simp

lemma clear_entries_spares: "\<not> svc_csr n \<Longrightarrow> clear_entries legal i k c n = c n"
  by (induction k arbitrary: i c) (simp_all add: sparesD [OF spares_pmp_entry_set])

lemma spares_pmp_domain_set: "spares (pmp_domain_set legal cfg feat g mrs dm)"
  by (simp add: spares_def pmp_domain_set_def shared_regions_set_def Let_def case_prod_beta
      clear_entries_spares domain_regions_loop_spares shared_regions_loop_spares)

lemma spares_fwft: "spares (\<lambda>c. fst (fwft_hart_switch_in legal feat fresh c w))"
  by (simp add: spares_def fwft_hart_switch_in_def Let_def envcfg_write_def sparesD [OF spares_csr(1)]
      sparesD [OF spares_csr(2)] sparesD [OF spares_csr(3)])

lemmas svc_sparesD = sparesD [OF spares_csr(1)] sparesD [OF spares_csr(2)] sparesD [OF spares_csr(3)]

lemma spares_hw_event_write: "spares (hw_event_write legal feat i v)"
  by (simp add: spares_def hw_event_write_def fixed_cfg_write_def mhpmevent_write_def svc_sparesD svc_csr_hpm)

lemma spares_hw_counter_write: "spares (hw_counter_write legal i v)"
proof -
  have "svc_csr CSR_MCYCLE" using svc_csr_hpm(2) [of 0] by simp
  then show ?thesis by (simp add: spares_def hw_counter_write_def mcounter_write_def svc_sparesD svc_csr_hpm)
qed

lemma spares_fold_events:
  "spares (\<lambda>c. fold (\<lambda>n c. if bit w n then hw_event_write legal feat n 0 c else c) ns c)"
  by (rule spares_fold) (simp add: spares_def sparesD [OF spares_hw_event_write])

lemma spares_pmu_hart_init: "spares (\<lambda>c. snd (pmu_hart_init legal feat u p c))"
  by (simp add: spares_def pmu_hart_init_def Let_def svc_sparesD sparesD [OF spares_hw_event_write]
      sparesD [OF spares_fold_events] del: upt_rec_numeral)

lemma spares_pmu_switch_out: "spares (\<lambda>c. snd (pmu_hart_switch_out legal feat u p c))"
  by (simp add: spares_def pmu_hart_switch_out_def Let_def svc_sparesD del: upt_rec_numeral)

lemma spares_fold_restore: "spares (\<lambda>c. fold (restore_one legal feat u h) ns c)"
  by (rule spares_fold) (simp add: spares_def restore_one_def sparesD [OF spares_hw_event_write]
      sparesD [OF spares_hw_counter_write])

lemma spares_pmu_switch_in: "spares (\<lambda>c. snd (pmu_hart_switch_in legal feat u fresh p c))"
  by (simp add: spares_def pmu_hart_switch_in_def Let_def case_prod_beta svc_sparesD
      sparesD [OF spares_pmu_hart_init] sparesD [OF spares_fold_restore] del: upt_rec_numeral)

section \<open>The state of a hart through a change of domain\<close>

text \<open>What a hart has that no step of a change of domain but saving and restoring touches.\<close>

definition hart_keeps :: "nat \<Rightarrow> 'a ctx_world_scheme \<Rightarrow> 'a ctx_world_scheme \<Rightarrow> bool" where
  "hart_keeps self s s' \<longleftrightarrow>
     (\<forall>n. \<not> svc_csr n \<longrightarrow> hart_csrs s' self n = hart_csrs s self n) \<and>
     fp_regs s' self = fp_regs s self \<and> vec_regs s' self = vec_regs s self \<and> vec_bytes s' = vec_bytes s \<and>
     timers s' self = timers s self \<and> mpxy_shmem s' self = mpxy_shmem s self"

lemma hart_keeps_refl: "hart_keeps self s s"
  by (simp add: hart_keeps_def)

lemma hart_keeps_trans: "hart_keeps self s s' \<Longrightarrow> hart_keeps self s' s'' \<Longrightarrow> hart_keeps self s s''"
  by (simp add: hart_keeps_def)

lemma hart_keeps_regs: "spares f \<Longrightarrow> hart_keeps self s (regs_upd self f s)"
  by (simp add: hart_keeps_def regs_upd_def sparesD)

lemma hart_keeps_pmu: "(\<And>u. spares (\<lambda>c. snd (f u c))) \<Longrightarrow> hart_keeps self s (pmu_run self f s)"
  by (simp add: hart_keeps_def pmu_run_def Let_def case_prod_beta spares_def)

lemma hart_keeps_fwft: "(\<And>w. spares (\<lambda>c. fst (f c w))) \<Longrightarrow> hart_keeps self s (fwft_run self f s)"
  by (simp add: hart_keeps_def fwft_run_def Let_def case_prod_beta spares_def)

lemma hart_keeps_dbtr: "hart_keeps self s (dbtr_run self f s)"
  by (simp add: hart_keeps_def dbtr_run_def Let_def case_prod_beta)

lemma hart_keeps_book:
  "hart_keeps self s (context_upd k h f s)" "hart_keeps self s (dom_upd k g s)" "hart_keeps self s (hart_domain_set h k s)"
  "hart_keeps self s (set_kick h v s)" "hart_keeps self s (set_unmasked k h v s)" "hart_keeps self s (set_event r e s)"
  "hart_keeps self s (s\<lparr>sse_domains := d\<rparr>)" "hart_keeps self s (hsm_store h t s)"
  by (cases r; simp add: hart_keeps_def context_upd_def dom_upd_def hart_domain_set_def set_kick_def set_unmasked_def
      hsm_store_def hart_upd_def Let_def)+

lemma hart_keeps_fold: "(\<And>x s. hart_keeps self s (f x s)) \<Longrightarrow> hart_keeps self s (fold f xs s)"
proof (induction xs arbitrary: s)
  case (Cons x xs)
  then show ?case using hart_keeps_trans [OF Cons.prems [of s x]] by simp
qed (simp add: hart_keeps_refl)

lemma hart_keeps_event_source: "hart_keeps self s (event_source_update p self e s)"
proof -
  have "spares (\<lambda>c. snd (pmu_sse_enable (m_legal p) b u c))" for b u
    by (simp add: spares_def pmu_sse_enable_def Let_def svc_sparesD)
  then have "hart_keeps self s (pmu_run self (pmu_sse_enable (m_legal p) b) s)" for b by (rule hart_keeps_pmu)
  moreover have "hart_keeps self s (ras_event_arm p self i b s)" for i b
    unfolding ras_event_arm_def by (simp add: hart_keeps_refl hart_keeps_regs spares_csr)
  ultimately show ?thesis
    by (simp add: event_source_update_def hart_keeps_refl pmu_run_def)
qed

lemma hart_keeps_ras_sources: "hart_keeps self s (ras_sources_update p self s)"
  unfolding ras_sources_update_def by (rule hart_keeps_fold) (simp add: hart_keeps_event_source hart_keeps_refl)

lemma hart_keeps_sse_init: "hart_keeps self s (sse_hart_init p self s)"
proof -
  have e: "hart_keeps self s' (fold (\<lambda>i. set_event (r i) (e i)) is s')" for r e "is" and s' :: "'a ctx_world_scheme"
    by (rule hart_keeps_fold) (rule hart_keeps_book)
  show ?thesis unfolding sse_hart_init_def Let_def
    by (rule hart_keeps_trans [OF _ hart_keeps_ras_sources], rule hart_keeps_trans [OF _ hart_keeps_book(7)])
       (auto intro: hart_keeps_trans [OF hart_keeps_book(5) e] hart_keeps_trans [OF hart_keeps_trans [OF hart_keeps_book(5) e] e])
qed

lemma hart_keeps_switch_out: "hart_keeps self s (hart_services_switch_out p u self s)"
  unfolding hart_services_switch_out_def Let_def
  by (rule hart_keeps_trans [OF hart_keeps_trans [OF hart_keeps_pmu hart_keeps_dbtr] hart_keeps_fwft])
     (simp_all add: spares_pmu_switch_out spares_id)

lemma hart_keeps_switch_in: "hart_keeps self s (hart_services_switch_in p u self fresh s)"
proof -
  have "hart_keeps self s' (sse_hart_switch_in p self fresh s')" for s' :: "'a ctx_world_scheme"
    unfolding sse_hart_switch_in_def
    by (rule hart_keeps_trans [OF _ hart_keeps_book(4)]) (simp add: hart_keeps_sse_init hart_keeps_ras_sources)
  then show ?thesis unfolding hart_services_switch_in_def Let_def
    by (rule hart_keeps_trans [rotated], intro hart_keeps_trans [OF hart_keeps_trans [OF hart_keeps_fwft hart_keeps_dbtr] hart_keeps_pmu])
       (simp_all add: spares_pmu_switch_in spares_fwft)
qed

end
