(* ===== verification/Saved.thy ===== *)
theory Saved
  imports Sparing
begin

text \<open>
  What a context gets back when the hart returns to it: the supervisor and hypervisor CSRs, the
  floating-point and vector registers, the timer and the shared memory.
\<close>

section \<open>Registers written back\<close>

definition wr :: "warl \<Rightarrow> nat \<times> ulong \<Rightarrow> csrs \<Rightarrow> csrs" where
  "wr legal = (\<lambda>(n, v). csr_write legal n v)"

definition plain :: "nat \<times> ulong \<Rightarrow> bool" where
  "plain w \<longleftrightarrow> fst w \<noteq> CSR_SIE \<and> fst w \<noteq> CSR_SIP"

lemma fold_wr_other:
  assumes "n \<notin> fst ` set ws" "list_all plain ws"
  shows "fold (wr legal) ws c n = c n"
  using assms
proof (induction ws arbitrary: c)
  case (Cons w ws)
  have "wr legal w c n = c n" using Cons.prems by (auto simp: plain_def wr_def csr_write_def split: prod.split)
  then show ?case using Cons.IH [of "wr legal w c"] Cons.prems by simp
qed simp

lemma fold_wr_same:
  assumes "distinct (map fst ws)" "(n, v) \<in> set ws" "list_all plain ws" and "\<And>c. legal c n v = v"
  shows "fold (wr legal) ws c n = v"
  using assms(1-3)
proof (induction ws arbitrary: c)
  case (Cons w ws)
  show ?case
  proof (cases "w = (n, v)")
    case True
    then have "fold (wr legal) ws (wr legal w c) n = wr legal w c n" using Cons.prems by (intro fold_wr_other) auto
    moreover have "wr legal w c n = v" using True Cons.prems(3) assms(4) by (simp add: wr_def csr_write_def plain_def)
    ultimately show ?thesis by simp
  next
    case False
    then show ?thesis using Cons by simp
  qed
qed simp

definition sup_list :: "features \<Rightarrow> domain_context \<Rightarrow> (nat \<times> ulong) list" where
  "sup_list feat x =
     [(CSR_STVEC, ctx_stvec x), (CSR_SSCRATCH, ctx_sscratch x), (CSR_SEPC, ctx_sepc x), (CSR_SCAUSE, ctx_scause x),
      (CSR_STVAL, ctx_stval x), (CSR_SATP, ctx_satp x), (CSR_SCOUNTEREN, ctx_scounteren x)] @
     (if feat HART_FEAT_MENVCFG then [(CSR_SENVCFG, ctx_senvcfg x)] else []) @
     (if feat HART_FEAT_SMSTATEEN then map (\<lambda>i. (CSR_SSTATEEN0 + i, ctx_sstateen x ! i)) [0..<4] else [])"

definition hyp_list :: "features \<Rightarrow> domain_context \<Rightarrow> (nat \<times> ulong) list" where
  "hyp_list feat x =
     map (\<lambda>i. (hyp_csrs ! i, hyp x ! i)) [0..<hyp_last feat] @ [(CSR_HTIMEDELTA, htimedelta x)] @
     (if feat HART_FEAT_MENVCFG then [(CSR_HENVCFG, henvcfg x)] else []) @
     (if feat HART_FEAT_SMSTATEEN then [(CSR_HSTATEEN0, hstateen0 x)] else []) @
     (if feat HART_FEAT_SSTC then [(CSR_VSTIMECMP, vstimecmp x)] else [])"

definition ctx_csrs :: "features \<Rightarrow> nat list" where
  "ctx_csrs feat = map fst (sup_list feat zero_context) @
     (if feat HART_FEAT_H then map fst (hyp_list feat zero_context) else [])"

lemma fold_sstateen: "k \<le> 4 \<Longrightarrow>
  fold (\<lambda>i. hart_sstateen_write legal i (ctx_sstateen x ! i)) [0..<k] c =
  fold (wr legal) (map (\<lambda>i. (CSR_SSTATEEN0 + i, ctx_sstateen x ! i)) [0..<k]) c"
  by (induction k arbitrary: c) (auto simp: hart_sstateen_write_def wr_def)

lemma sup_restore_list: "sup_restore legal feat x c = fold (wr legal) (sup_list feat x) (csr_write legal CSR_SIE (ctx_sie x) c)"
  unfolding sup_restore_def Let_def sup_list_def fold_sstateen [OF order_refl] by (simp add: wr_def)

lemma fold_hyp: "k \<le> HYP_CSR_COUNT \<Longrightarrow>
  fold (\<lambda>i. hyp_csr_write legal i (hyp x ! i)) [0..<k] c = fold (wr legal) (map (\<lambda>i. (hyp_csrs ! i, hyp x ! i)) [0..<k]) c"
  by (induction k arbitrary: c) (auto simp: hyp_csr_write_def wr_def)

lemma hyp_state_restore_list:
  "hyp_state_restore legal feat x c =
     (if feat HART_FEAT_H
      then fold (wr legal) (hyp_list feat x) (if feat HART_FEAT_SSTC then csr_write legal CSR_VSTIMECMP (- 1) c else c)
      else c)"
proof -
  have "hyp_last feat \<le> HYP_CSR_COUNT" by (simp add: hyp_last_def)
  note h = fold_hyp [OF this]
  show ?thesis unfolding hyp_state_restore_def Let_def h hyp_list_def
    by (simp add: wr_def del: upt_rec_numeral)
qed

text \<open>No register is written twice, none of them is another's.\<close>

lemma hyp_csrs_nth: "length hyp_csrs = HYP_CSR_COUNT" "distinct hyp_csrs"
  "\<forall>n \<in> set hyp_csrs. n \<notin> {CSR_HTIMEDELTA, CSR_HENVCFG, CSR_HSTATEEN0, CSR_VSTIMECMP, CSR_SIE, CSR_SIP, CSR_STVEC,
     CSR_SSCRATCH, CSR_SEPC, CSR_SCAUSE, CSR_STVAL, CSR_SATP, CSR_SCOUNTEREN, CSR_SENVCFG, CSR_STIMECMP,
     CSR_SSTATEEN0, CSR_SSTATEEN0 + 1, CSR_SSTATEEN0 + 2, CSR_SSTATEEN0 + 3}"
  "\<forall>n \<in> set hyp_csrs. \<not> svc_csr n"
  by (simp_all add: hyp_csrs_def svc_csr_def pmp_csr_def)

lemma hyp_list_keys:
  "set (map fst (hyp_list feat x)) \<subseteq> set hyp_csrs \<union> {CSR_HTIMEDELTA, CSR_HENVCFG, CSR_HSTATEEN0, CSR_VSTIMECMP}"
proof -
  have "hyp_last feat \<le> length hyp_csrs" by (simp add: hyp_last_def hyp_csrs_def)
  then have "hyp_csrs ! i \<in> set hyp_csrs" if "i < hyp_last feat" for i using that by (simp add: nth_mem)
  then show ?thesis by (auto simp: hyp_list_def)
qed

lemma hyp_list_distinct: "distinct (map fst (hyp_list feat x))"
proof -
  have l: "hyp_last feat \<le> length hyp_csrs" by (simp add: hyp_last_def hyp_csrs_def)
  then have t: "map (\<lambda>i. hyp_csrs ! i) [0..<hyp_last feat] = take (hyp_last feat) hyp_csrs"
    by (intro nth_equalityI) auto
  have s: "set (take (hyp_last feat) hyp_csrs) \<subseteq> set hyp_csrs" by (rule set_take_subset)
  have "map fst (hyp_list feat x) = take (hyp_last feat) hyp_csrs @ CSR_HTIMEDELTA #
     (if feat HART_FEAT_MENVCFG then [CSR_HENVCFG] else []) @
     (if feat HART_FEAT_SMSTATEEN then [CSR_HSTATEEN0] else []) @ (if feat HART_FEAT_SSTC then [CSR_VSTIMECMP] else [])"
    by (simp add: hyp_list_def comp_def t del: upt_rec_numeral)
  moreover have "n \<notin> set (take (hyp_last feat) hyp_csrs)"
    if "n \<in> {CSR_HTIMEDELTA, CSR_HENVCFG, CSR_HSTATEEN0, CSR_VSTIMECMP}" for n
    using that s hyp_csrs_nth(3) by blast
  ultimately show ?thesis using distinct_take [OF hyp_csrs_nth(2)] by simp
qed

lemma sup_list_fst: "map fst (sup_list feat x) =
    [CSR_STVEC, CSR_SSCRATCH, CSR_SEPC, CSR_SCAUSE, CSR_STVAL, CSR_SATP, CSR_SCOUNTEREN] @
    (if feat HART_FEAT_MENVCFG then [CSR_SENVCFG] else []) @
    (if feat HART_FEAT_SMSTATEEN then [CSR_SSTATEEN0, CSR_SSTATEEN0 + 1, CSR_SSTATEEN0 + 2, CSR_SSTATEEN0 + 3] else [])"
  by (simp add: sup_list_def upt_conv_Cons)

lemma sup_list_distinct: "distinct (map fst (sup_list feat x))"
  by (simp add: sup_list_fst)

lemma sup_list_keys:
  "set (map fst (sup_list feat x)) \<subseteq> {CSR_STVEC, CSR_SSCRATCH, CSR_SEPC, CSR_SCAUSE, CSR_STVAL, CSR_SATP,
     CSR_SCOUNTEREN, CSR_SENVCFG, CSR_SSTATEEN0, CSR_SSTATEEN0 + 1, CSR_SSTATEEN0 + 2, CSR_SSTATEEN0 + 3}"
  unfolding sup_list_fst by auto

lemma lists_plain: "list_all plain (sup_list feat x)" "list_all plain (hyp_list feat x)"
proof -
  have p: "list_all plain ws" if "CSR_SIE \<notin> set (map fst ws)" "CSR_SIP \<notin> set (map fst ws)" for ws :: "(nat \<times> ulong) list"
    using that by (auto simp: list_all_iff plain_def image_iff)
  show "list_all plain (sup_list feat x)"
    by (rule p; rule contra_subsetD [OF sup_list_keys]; simp)
  have "CSR_SIE \<notin> set hyp_csrs" "CSR_SIP \<notin> set hyp_csrs" using hyp_csrs_nth(3) by blast+
  then show "list_all plain (hyp_list feat x)"
    by (intro p; intro contra_subsetD [OF hyp_list_keys]; simp)
qed

lemma sup_not_hyp:
  assumes "n \<in> set (map fst (sup_list feat x))"
  shows "n \<notin> set (map fst (hyp_list feat y))" "n \<noteq> CSR_VSTIMECMP"
proof -
  have n: "n \<in> {CSR_STVEC, CSR_SSCRATCH, CSR_SEPC, CSR_SCAUSE, CSR_STVAL, CSR_SATP, CSR_SCOUNTEREN, CSR_SENVCFG,
      CSR_SSTATEEN0, CSR_SSTATEEN0 + 1, CSR_SSTATEEN0 + 2, CSR_SSTATEEN0 + 3}"
    using subsetD [OF sup_list_keys assms] .
  then show "n \<noteq> CSR_VSTIMECMP" by auto
  have "n \<notin> set hyp_csrs" using n hyp_csrs_nth(3) by blast
  moreover have "n \<notin> {CSR_HTIMEDELTA, CSR_HENVCFG, CSR_HSTATEEN0, CSR_VSTIMECMP}" using n by auto
  ultimately show "n \<notin> set (map fst (hyp_list feat y))" by (intro contra_subsetD [OF hyp_list_keys]) blast
qed

lemma restored_csr:
  assumes "(n, v) \<in> set (sup_list feat x) \<or> feat HART_FEAT_H \<and> (n, v) \<in> set (hyp_list feat x)" "\<And>c. legal c n v = v"
  shows "hyp_state_restore legal feat x (sup_restore legal feat x c) n = v"
proof (cases "(n, v) \<in> set (sup_list feat x)")
  case True
  have "n \<in> set (map fst (sup_list feat x))" using True by force
  note n = sup_not_hyp(1) [OF this, of x] sup_not_hyp(2) [OF this]
  have "sup_restore legal feat x c n = v"
    unfolding sup_restore_list by (rule fold_wr_same [where legal = legal, OF sup_list_distinct True lists_plain(1) assms(2)])
  then show ?thesis
    using n by (simp add: hyp_state_restore_list fold_wr_other lists_plain csr_write_def)
next
  case False
  then have h: "feat HART_FEAT_H" "(n, v) \<in> set (hyp_list feat x)" using assms(1) by auto
  show ?thesis unfolding hyp_state_restore_list
    using fold_wr_same [where legal = legal, OF hyp_list_distinct h(2) lists_plain(2) assms(2)] h(1) by simp
qed

text \<open>What was read is what is written back.\<close>

lemma sup_list_saved:
  "n \<in> set (map fst (sup_list feat zero_context)) \<Longrightarrow> (n, c n) \<in> set (sup_list feat (sup_save feat c x))"
  unfolding sup_list_fst
  by (auto simp: sup_list_def sup_save_def hart_sstateen_read_def csr_read_def upt_conv_Cons split: if_splits)

lemma hyp_list_nth: "i < hyp_last feat \<Longrightarrow> feat HART_FEAT_H \<Longrightarrow>
    (hyp_csrs ! i, c (hyp_csrs ! i)) \<in> set (hyp_list feat (hyp_state_save feat c x))"
proof -
  assume i: "i < hyp_last feat" "feat HART_FEAT_H"
  have l: "hyp_last feat \<le> HYP_CSR_COUNT" by (simp add: hyp_last_def)
  then have m: "hyp_csrs ! i \<in> set hyp_csrs" using i hyp_csrs_nth(1) by (intro nth_mem) linarith
  have "hyp_csrs ! i \<noteq> CSR_SIE" "hyp_csrs ! i \<noteq> CSR_SIP" using m hyp_csrs_nth(3) by blast+
  then have r: "csr_read (hyp_csrs ! i) c = c (hyp_csrs ! i)" by (rule csr_read_plain)
  have "hyp (hyp_state_save feat c x) ! i = hyp_csr_read i c"
    using i by (simp add: hyp_state_save_def nth_append del: upt_rec_numeral)
  moreover have "hyp_csr_read i c = c (hyp_csrs ! i)" using i l r by (simp add: hyp_csr_read_def)
  ultimately have "hyp (hyp_state_save feat c x) ! i = c (hyp_csrs ! i)" by simp
  moreover have "(hyp_csrs ! i, hyp (hyp_state_save feat c x) ! i) \<in>
      set (map (\<lambda>i. (hyp_csrs ! i, hyp (hyp_state_save feat c x) ! i)) [0..<hyp_last feat])"
    using i(1) by auto
  ultimately show ?thesis by (simp add: hyp_list_def)
qed

lemma hyp_list_saved:
  assumes "feat HART_FEAT_H" "n \<in> set (map fst (hyp_list feat zero_context))"
  shows "(n, c n) \<in> set (hyp_list feat (hyp_state_save feat c x))"
proof -
  have "(\<exists>i < hyp_last feat. n = hyp_csrs ! i) \<or> n = CSR_HTIMEDELTA \<or> n = CSR_HENVCFG \<and> feat HART_FEAT_MENVCFG \<or>
      n = CSR_HSTATEEN0 \<and> feat HART_FEAT_SMSTATEEN \<or> n = CSR_VSTIMECMP \<and> feat HART_FEAT_SSTC"
    using assms(2) by (auto simp: hyp_list_def split: if_splits simp del: upt_rec_numeral)
  then show ?thesis
  proof
    assume "\<exists>i < hyp_last feat. n = hyp_csrs ! i"
    then show ?thesis using hyp_list_nth [where feat = feat, OF _ assms(1)] by blast
  qed (use assms(1) in \<open>auto simp: hyp_list_def hyp_state_save_def csr_read_plain simp del: upt_rec_numeral\<close>)
qed

section \<open>What is in a context\<close>

lemmas contexts_simps = view [THEN ctx_viewD(1)]

lemma contexts_upd:
  "contexts (context_upd k h f s) k' h' = (if k' = k \<and> h' = h then f (contexts s k h) else contexts s k' h')"
  "contexts (dom_upd k g s) = contexts s" "contexts (hart_domain_set h k s) = contexts s"
  by (auto simp: context_upd_def slot_upd_def dom_upd_def hart_domain_set_def hart_upd_def Let_def)

lemma contexts_vector_unit: "contexts (snd (vector_unit p h s)) = contexts s"
  by (simp add: vector_unit_def Let_def contexts_simps)

lemma contexts_unit_state_restore: "contexts (unit_state_restore p u k h s) = contexts s"
  by (simp add: unit_state_restore_def Let_def case_prod_beta contexts_vector_unit contexts_simps
      split: vec_kind.split option.split)

lemma contexts_unit_state_save_other: "k' \<noteq> k \<Longrightarrow> contexts (unit_state_save p k h s) k' h' = contexts s k' h'"
  by (simp add: unit_state_save_def Let_def case_prod_beta contexts_vector_unit contexts_simps contexts_upd)

lemma contexts_shmem: "contexts (snd (mpxy_hart_shmem_swap h a s)) = contexts s"
  by (simp add: mpxy_hart_shmem_swap_def)

lemma contexts_context_save_other: "k' \<noteq> k \<Longrightarrow> contexts (context_save p u k h regs s) k' h' = contexts s k' h'"
  unfolding context_save_def Let_def case_prod_beta
  by (simp add: contexts_simps contexts_unit_state_save_other contexts_upd)

lemma contexts_context_restore:
  "contexts (context_restore p u k h fresh s) k' h' =
     (if k' = k \<and> h' = h then (contexts s k h)\<lparr>ctx_ipi := False, ctx_state := CONTEXT_RUNNING\<rparr> else contexts s k' h')"
  unfolding context_restore_def context_load_def Let_def
  by (simp add: contexts_simps contexts_upd contexts_unit_state_restore)

lemma contexts_context_switch_other:
  "k' \<noteq> k \<Longrightarrow> contexts (snd (context_switch p u k h regs err v s)) k' h' = contexts s k' h'"
  unfolding context_switch_def Let_def case_prod_beta
  by (simp add: contexts_simps contexts_upd contexts_context_restore context_fresh_def)

lemma contexts_context_park_other: "k' \<noteq> this_domain_key s h \<Longrightarrow> contexts (context_park p u h st regs q s) k' h' = contexts s k' h'"
  by (simp add: context_park_def Let_def contexts_upd contexts_context_save_other)

text \<open>A saved context holds the state of the hart.\<close>

definition has_vectors :: "nat \<Rightarrow> 'a ctx_world_scheme \<Rightarrow> bool" where
  "has_vectors self s \<longleftrightarrow> bit (hart_csrs s self CSR_MISA) 21 \<and> vec_bytes s \<noteq> 0 \<and> unat (hart_csrs s self CSR_VLENB) \<le> vec_bytes s"

lemma misa_kept: "\<not> svc_csr CSR_MISA" "\<not> svc_csr CSR_VLENB" "\<not> svc_csr CSR_STIMECMP"
  by (simp_all add: svc_csr_def pmp_csr_def)

lemma unit_csrs_kept:
  "hart_csrs (regs_upd self (csr_set legal CSR_MSTATUS v) s) self CSR_MISA = hart_csrs s self CSR_MISA"
  "hart_csrs (regs_upd self (csr_set legal CSR_MSTATUS v) s) self CSR_VLENB = hart_csrs s self CSR_VLENB"
  by (simp_all add: regs_upd_def svc_sparesD misa_kept)

lemma regs_upd_fields:
  "vec_bytes (regs_upd self f s) = vec_bytes s" "fp_regs (regs_upd self f s) = fp_regs s"
  "vec_regs (regs_upd self f s) = vec_regs s" "mpxy_shmem (regs_upd self f s) = mpxy_shmem s"
  "timers (regs_upd self f s) = timers s" "contexts (regs_upd self f s) = contexts s"
  by (simp_all add: regs_upd_def)

lemma vector_unit_fields:
  "fst (vector_unit p self s) = VEC_SWITCHED \<longleftrightarrow> has_vectors self s"
  "vlenb self (snd (vector_unit p self s)) = unat (hart_csrs s self CSR_VLENB)"
  "vec_regs (snd (vector_unit p self s)) = vec_regs s" "fp_regs (snd (vector_unit p self s)) = fp_regs s"
  by (simp_all add: vector_unit_def has_vectors_def vlenb_def Let_def csr_read_plain regs_upd_fields unit_csrs_kept)

lemma has_vectors_upd:
  "has_vectors self (regs_upd self (csr_set legal CSR_MSTATUS v) s) = has_vectors self s"
  "has_vectors self (context_upd k h f s) = has_vectors self s"
  "has_vectors self (s\<lparr>fp_regs := a\<rparr>) = has_vectors self s"
  by (simp_all add: has_vectors_def unit_csrs_kept regs_upd_fields context_upd_def)

lemma context_upd_fields:
  "hart_csrs (context_upd k h f s) = hart_csrs s" "fp_regs (context_upd k h f s) = fp_regs s"
  "vec_regs (context_upd k h f s) = vec_regs s" "timers (context_upd k h f s) = timers s"
  "mpxy_shmem (context_upd k h f s) = mpxy_shmem s"
  by (simp_all add: context_upd_def)

lemma contexts_unit_state_save:
  "contexts (unit_state_save p key self s) key self =
    (let x = contexts s key self; misa = hart_csrs s self CSR_MISA;
         y = (if bit misa 5 then x\<lparr>fp := fp_state_save (bit misa 3) (fp_regs s self) (fp x)\<rparr> else x)
     in if has_vectors self s
        then y\<lparr>vec := map_option (vec_state_save (unat (hart_csrs s self CSR_VLENB)) (vec_regs s self)) (vec x)\<rparr> else y)"
  unfolding unit_state_save_def Let_def case_prod_beta csr_read_plain
  by (simp add: vector_unit_fields contexts_vector_unit contexts_upd has_vectors_upd context_upd_fields regs_upd_fields
      unit_csrs_kept csr_read_plain)

text \<open>The context \<open>x\<close> holds the state hart \<open>self\<close> has in \<open>s\<close>.\<close>

definition holds :: "features \<Rightarrow> nat \<Rightarrow> 'a ctx_world_scheme \<Rightarrow> domain_context \<Rightarrow> bool" where
  "holds feat self s x \<longleftrightarrow>
     (\<forall>n \<in> set (ctx_csrs feat). (n, hart_csrs s self n) \<in> set (sup_list feat x) \<or>
        feat HART_FEAT_H \<and> (n, hart_csrs s self n) \<in> set (hyp_list feat x)) \<and>
     ctx_timer x = timer_smode_get feat (timers s self, hart_csrs s self) \<and> ctx_shmem x = mpxy_shmem s self \<and>
     (bit (hart_csrs s self CSR_MISA) 5 \<longrightarrow>
        (\<exists>buf. fp x = fp_state_save (bit (hart_csrs s self CSR_MISA) 3) (fp_regs s self) buf)) \<and>
     (has_vectors self s \<longrightarrow>
        (\<exists>st. vec x = map_option (vec_state_save (unat (hart_csrs s self CSR_VLENB)) (vec_regs s self)) st))"

lemma lists_upd:
  "sup_list feat (x\<lparr>fp := a\<rparr>) = sup_list feat x" "hyp_list feat (x\<lparr>fp := a\<rparr>) = hyp_list feat x"
  "sup_list feat (x\<lparr>vec := b\<rparr>) = sup_list feat x" "hyp_list feat (x\<lparr>vec := b\<rparr>) = hyp_list feat x"
  "sup_list feat (x\<lparr>ctx_regs := r\<rparr>) = sup_list feat x" "hyp_list feat (x\<lparr>ctx_regs := r\<rparr>) = hyp_list feat x"
  "sup_list feat (x\<lparr>ctx_state := t\<rparr>) = sup_list feat x" "hyp_list feat (x\<lparr>ctx_state := t\<rparr>) = hyp_list feat x"
  "sup_list feat (x\<lparr>quiet := q\<rparr>) = sup_list feat x" "hyp_list feat (x\<lparr>quiet := q\<rparr>) = hyp_list feat x"
  "sup_list feat (x\<lparr>ctx_ipi := i\<rparr>) = sup_list feat x" "hyp_list feat (x\<lparr>ctx_ipi := i\<rparr>) = hyp_list feat x"
  "sup_list feat (x\<lparr>ctx_shmem := m\<rparr>) = sup_list feat x" "sup_list feat (x\<lparr>ctx_timer := w\<rparr>) = sup_list feat x"
  "sup_list feat (hyp_state_save feat c x) = sup_list feat x"
  by (simp_all add: sup_list_def hyp_list_def hyp_state_save_def del: upt_rec_numeral)

lemma hyp_state_save_fields:
  "ctx_timer (hyp_state_save feat c x) = ctx_timer x" "ctx_shmem (hyp_state_save feat c x) = ctx_shmem x"
  "fp (hyp_state_save feat c x) = fp x" "vec (hyp_state_save feat c x) = vec x" "ctx_regs (hyp_state_save feat c x) = ctx_regs x"
  "ctx_regs (sup_save feat c x) = ctx_regs x" "vec (sup_save feat c x) = vec x"
  by (simp_all add: hyp_state_save_def sup_save_def)

lemma holds_upd [simp]:
  "holds feat self s (x\<lparr>ctx_regs := r\<rparr>) = holds feat self s x" "holds feat self s (x\<lparr>ctx_state := t\<rparr>) = holds feat self s x"
  "holds feat self s (x\<lparr>quiet := q\<rparr>) = holds feat self s x" "holds feat self s (x\<lparr>ctx_ipi := i\<rparr>) = holds feat self s x"
  by (simp_all add: holds_def lists_upd)

lemma ctx_csrs_saved:
  assumes "n \<in> set (ctx_csrs feat)"
  shows "(n, c n) \<in> set (sup_list feat (sup_save feat c x)) \<or>
    feat HART_FEAT_H \<and> (n, c n) \<in> set (hyp_list feat (hyp_state_save feat c y))"
proof -
  have "n \<in> set (map fst (sup_list feat zero_context)) \<or>
      feat HART_FEAT_H \<and> n \<in> set (map fst (hyp_list feat zero_context))"
    using assms by (simp add: ctx_csrs_def split: if_splits)
  then show ?thesis using sup_list_saved [of n feat c x] hyp_list_saved [where feat = feat and n = n and c = c and x = y] by blast
qed

lemma context_save_holds:
  "holds (m_feat p) self s (contexts (context_save p u key self regs s) key self)"
  "ctx_regs (contexts (context_save p u key self regs s) key self) = regs"
proof -
  define feat where "feat = m_feat p"
  define c where "c = hart_csrs s self"
  define x where "x = (sup_save feat c ((contexts s key self)\<lparr>ctx_regs := regs\<rparr>))
    \<lparr>ctx_timer := timer_smode_get feat (timers s self, c)\<rparr>"
  define y where "y = hyp_state_save feat c (x\<lparr>ctx_shmem := mpxy_shmem s self\<rparr>)"
  obtain s3 :: "'a ctx_world_scheme" where s3: "contexts (context_save p u key self regs s) = contexts (unit_state_save p key self s3)"
      "contexts s3 key self = y" "hart_csrs s3 = hart_csrs s" "fp_regs s3 = fp_regs s" "vec_regs s3 = vec_regs s" "vec_bytes s3 = vec_bytes s"
    by (rule that [of "context_upd key self (\<lambda>x. hyp_state_save feat c (x\<lparr>ctx_shmem := mpxy_shmem s self\<rparr>))
          (snd (mpxy_hart_shmem_swap self MPXY_SHMEM_NONE (context_upd key self (\<lambda>x. (sup_save feat c (x\<lparr>ctx_regs := regs\<rparr>))
                 \<lparr>ctx_timer := timer_smode_get feat (timers s self, c)\<rparr>) s)))"])
       (simp_all add: context_save_def Let_def contexts_simps contexts_upd mpxy_hart_shmem_swap_def context_upd_def
         slot_upd_def x_def y_def feat_def c_def)
  have hv: "has_vectors self s3 = has_vectors self s" by (simp add: has_vectors_def s3)
  have y: "ctx_timer y = timer_smode_get feat (timers s self, c)" "ctx_shmem y = mpxy_shmem s self" "ctx_regs y = regs"
      "sup_list feat y = sup_list feat (sup_save feat c ((contexts s key self)\<lparr>ctx_regs := regs\<rparr>))"
    by (simp_all add: y_def x_def hyp_state_save_fields lists_upd)
  have "(n, c n) \<in> set (sup_list feat y) \<or> feat HART_FEAT_H \<and> (n, c n) \<in> set (hyp_list feat y)"
    if "n \<in> set (ctx_csrs feat)" for n
    using ctx_csrs_saved [OF that, of c "(contexts s key self)\<lparr>ctx_regs := regs\<rparr>" "x\<lparr>ctx_shmem := mpxy_shmem s self\<rparr>"]
    unfolding y(4) unfolding y_def .
  then show "holds (m_feat p) self s (contexts (context_save p u key self regs s) key self)"
    unfolding s3(1) contexts_unit_state_save s3(2-5) hv Let_def holds_def feat_def [symmetric] c_def [symmetric]
    by (auto simp: y lists_upd)
  show "ctx_regs (contexts (context_save p u key self regs s) key self) = regs"
    unfolding s3(1) contexts_unit_state_save s3(2-5) hv Let_def by (simp add: y)
qed

section \<open>What a hart has of a context it returns to\<close>

lemma fp_state_round_trip:
  assumes "n < 33"
  shows "fp_state_restore d (fp_state_save d r buf) r' n = (if n = 32 \<or> d then r n else r n AND 0xffffffff)"
proof -
  have "((b AND NOT m) OR (v AND m)) AND m = v AND m" for b v m :: ulong by (auto simp: bit_eq_iff bit_and_iff bit_or_iff bit_not_iff)
  from this [of "buf ! n" "0xffffffff" "r n"] show ?thesis
    using assms by (simp add: fp_state_restore_def fp_state_save_def del: upt_rec_numeral)
qed

lemma take_drop_concat:
  assumes "\<And>j. j < k \<Longrightarrow> length (r j) = n" "i < k"
  shows "take n (drop (i * n) (concat (map r [0..<k]) @ rest)) = r i"
  using assms
proof (induction k arbitrary: rest)
  case (Suc k)
  have "length (concat (map r [0..<j])) = j * n" if "j \<le> k" for j
    using that Suc.prems(1) by (induction j) auto
  note len = this [OF order_refl]
  show ?case
  proof (cases "i = k")
    case True
    then show ?thesis using len Suc.prems(1) [of k] by simp
  next
    case False
    then have "take n (drop (i * n) (concat (map r [0..<k]) @ r k @ rest)) = r i"
      using Suc.prems by (intro Suc.IH) auto
    then show ?thesis by simp
  qed
qed simp

text \<open>\<open>vsetvl\<close> takes a length and a type it has given before, and the registers are as long as VLENB says.\<close>

definition vec_ok :: "units \<Rightarrow> nat \<Rightarrow> 'a ctx_world_scheme \<Rightarrow> bool" where
  "vec_ok u self s \<longleftrightarrow>
     (let v = vec_regs s self in u_vset u (vu_l v) (vu_type v) = (vu_l v, vu_type v) \<and>
        (\<forall>i < 32. length (vu_regs v i) = unat (hart_csrs s self CSR_VLENB)))"

lemma vec_state_round_trip:
  assumes "\<And>i. i < 32 \<Longrightarrow> length (vu_regs v i) = n" "vset (vu_l v) (vu_type v) = (vu_l v, vu_type v)"
  shows "let v' = vec_state_restore vset n (vec_state_save n v st) in
    vu_start v' = vu_start v \<and> vu_csr v' = vu_csr v \<and> vu_l v' = vu_l v \<and> vu_type v' = vu_type v \<and>
    (\<forall>i < 32. vu_regs v' i = vu_regs v i)"
  using assms take_drop_concat [of 32 "vu_regs v" n]
  by (simp add: vec_state_restore_def vec_state_save_def del: upt_rec_numeral take_append drop_append)

lemma unit_state_restore_fields:
  "\<not> svc_csr n \<Longrightarrow> hart_csrs (unit_state_restore p u key self t) self n = hart_csrs t self n"
  "timers (unit_state_restore p u key self t) = timers t"
  "mpxy_shmem (unit_state_restore p u key self t) = mpxy_shmem t"
proof -
  have v: "\<not> svc_csr n \<Longrightarrow> hart_csrs (snd (vector_unit p self s)) self n = hart_csrs s self n"
    "timers (snd (vector_unit p self s)) = timers s" "mpxy_shmem (snd (vector_unit p self s)) = mpxy_shmem s"
    for s :: "'a ctx_world_scheme"
    by (simp_all add: vector_unit_def Let_def regs_upd_def svc_sparesD)
  show "\<not> svc_csr n \<Longrightarrow> hart_csrs (unit_state_restore p u key self t) self n = hart_csrs t self n"
    "timers (unit_state_restore p u key self t) = timers t" "mpxy_shmem (unit_state_restore p u key self t) = mpxy_shmem t"
    unfolding unit_state_restore_def Let_def case_prod_beta
    by (simp_all add: v regs_upd_def svc_sparesD split: vec_kind.split option.split)
qed

lemma unit_state_restore_regs:
  "bit (hart_csrs t self CSR_MISA) 5 \<Longrightarrow> fp_regs (unit_state_restore p u key self t) self =
     fp_state_restore (bit (hart_csrs t self CSR_MISA) 3) (fp (contexts t key self)) (fp_regs t self)"
  "has_vectors self t \<Longrightarrow> vec (contexts t key self) = Some st \<Longrightarrow> vec_regs (unit_state_restore p u key self t) self =
     vec_state_restore (u_vset u) (unat (hart_csrs t self CSR_VLENB)) st"
proof -
  show "bit (hart_csrs t self CSR_MISA) 5 \<Longrightarrow> fp_regs (unit_state_restore p u key self t) self =
     fp_state_restore (bit (hart_csrs t self CSR_MISA) 3) (fp (contexts t key self)) (fp_regs t self)"
    unfolding unit_state_restore_def Let_def case_prod_beta
    by (simp add: vector_unit_fields regs_upd_fields csr_read_plain split: vec_kind.split option.split)
  assume v: "has_vectors self t" "vec (contexts t key self) = Some st"
  then have k: "fst (vector_unit p self s) = VEC_SWITCHED" if "has_vectors self s = has_vectors self t" for s :: "'a ctx_world_scheme"
    using that vector_unit_fields(1) [of p self s] by simp
  show "vec_regs (unit_state_restore p u key self t) self =
     vec_state_restore (u_vset u) (unat (hart_csrs t self CSR_VLENB)) st"
    unfolding unit_state_restore_def Let_def case_prod_beta
    by (simp add: v k has_vectors_upd vector_unit_fields unit_csrs_kept)
qed

lemma ctx_csrs_plain:
  assumes "n \<in> set (ctx_csrs feat)"
  shows "\<not> svc_csr n" "n \<noteq> CSR_STIMECMP"
proof -
  have n: "n \<in> {CSR_STVEC, CSR_SSCRATCH, CSR_SEPC, CSR_SCAUSE, CSR_STVAL, CSR_SATP, CSR_SCOUNTEREN, CSR_SENVCFG,
      CSR_SSTATEEN0, CSR_SSTATEEN0 + 1, CSR_SSTATEEN0 + 2, CSR_SSTATEEN0 + 3} \<or>
      n \<in> set hyp_csrs \<or> n \<in> {CSR_HTIMEDELTA, CSR_HENVCFG, CSR_HSTATEEN0, CSR_VSTIMECMP}"
    using assms subsetD [OF sup_list_keys, of n feat zero_context] subsetD [OF hyp_list_keys, of n feat zero_context]
    unfolding ctx_csrs_def set_append Un_iff by (cases "feat HART_FEAT_H") auto
  have a: "\<not> svc_csr m \<and> m \<noteq> CSR_STIMECMP"
    if "m \<in> {CSR_STVEC, CSR_SSCRATCH, CSR_SEPC, CSR_SCAUSE, CSR_STVAL, CSR_SATP, CSR_SCOUNTEREN, CSR_SENVCFG,
      CSR_SSTATEEN0, CSR_SSTATEEN0 + 1, CSR_SSTATEEN0 + 2, CSR_SSTATEEN0 + 3,
      CSR_HTIMEDELTA, CSR_HENVCFG, CSR_HSTATEEN0, CSR_VSTIMECMP}" for m
    using that unfolding insert_iff empty_iff by (elim disjE) (simp_all add: svc_csr_def pmp_csr_def)
  have b: "\<not> svc_csr m \<and> m \<noteq> CSR_STIMECMP" if "m \<in> set hyp_csrs" for m
    using that hyp_csrs_nth(3,4) by blast
  show "\<not> svc_csr n" "n \<noteq> CSR_STIMECMP" using n a [of n] b [of n] by blast+
qed

lemma restored_other:
  assumes "n = CSR_MISA \<or> n = CSR_VLENB"
  shows "hyp_state_restore legal feat x (sup_restore legal feat x c) n = c n"
proof -
  have "CSR_MISA \<notin> set hyp_csrs" "CSR_VLENB \<notin> set hyp_csrs" by (simp_all add: hyp_csrs_def)
  then have "n \<notin> set (map fst (hyp_list feat x))" using assms by (intro contra_subsetD [OF hyp_list_keys]) auto
  moreover have "n \<notin> set (map fst (sup_list feat x))" using assms by (intro contra_subsetD [OF sup_list_keys]) auto
  moreover have "n \<noteq> CSR_VSTIMECMP" "n \<noteq> CSR_SIE" "n \<noteq> CSR_MIE" using assms by auto
  ultimately show ?thesis
    by (simp add: hyp_state_restore_list sup_restore_list fold_wr_other lists_plain csr_write_def)
qed

text \<open>Hart \<open>self\<close> has the state in \<open>s'\<close> that it has in \<open>s\<close>, as far as a context holds it.\<close>

definition state_back :: "features \<Rightarrow> nat \<Rightarrow> 'a ctx_world_scheme \<Rightarrow> 'a ctx_world_scheme \<Rightarrow> bool" where
  "state_back feat self s s' \<longleftrightarrow>
     (\<forall>n \<in> set (ctx_csrs feat). hart_csrs s' self n = hart_csrs s self n) \<and>
     timer_smode_get feat (timers s' self, hart_csrs s' self) = timer_smode_get feat (timers s self, hart_csrs s self) \<and>
     mpxy_shmem s' self = mpxy_shmem s self \<and>
     (bit (hart_csrs s self CSR_MISA) 5 \<longrightarrow>
        (\<forall>n < 33. fp_regs s' self n =
           (if n = 32 \<or> bit (hart_csrs s self CSR_MISA) 3 then fp_regs s self n else fp_regs s self n AND 0xffffffff)))"

definition vec_back :: "nat \<Rightarrow> 'a ctx_world_scheme \<Rightarrow> 'a ctx_world_scheme \<Rightarrow> bool" where
  "vec_back self s s' \<longleftrightarrow>
     (let v = vec_regs s self; v' = vec_regs s' self in
      vu_start v' = vu_start v \<and> vu_csr v' = vu_csr v \<and> vu_l v' = vu_l v \<and> vu_type v' = vu_type v \<and>
      (\<forall>i < 32. vu_regs v' i = vu_regs v i))"

lemma state_back_keeps:
  assumes "hart_keeps self t t'"
  shows "state_back feat self s t \<Longrightarrow> state_back feat self s t'" "vec_back self s t \<Longrightarrow> vec_back self s t'"
  using assms ctx_csrs_plain(1) misa_kept(3)
  by (auto simp: hart_keeps_def state_back_def vec_back_def timer_smode_get_def csr_read_plain)

lemma context_restore_keeps: "hart_keeps self (context_load p u key self s) (context_restore p u key self fresh s)"
  unfolding context_restore_def Let_def
  by (rule hart_keeps_trans [OF _ hart_keeps_switch_in], unfold pmp_domain_switch_def,
      rule hart_keeps_trans [OF _ hart_keeps_regs [OF spares_pmp_domain_set]],
      rule hart_keeps_trans [OF _ hart_keeps_book(1)], rule hart_keeps_trans [OF _ hart_keeps_book(3)],
      rule hart_keeps_trans [OF _ hart_keeps_book(2)], rule hart_keeps_trans [OF _ hart_keeps_book(2)],
      rule hart_keeps_trans [OF _ hart_keeps_book(2)])
     (rule hart_keeps_refl)

lemma timer_restore_other:
  "\<not> svc_csr n \<Longrightarrow> n \<noteq> CSR_STIMECMP \<Longrightarrow> snd (timer_smode_restore legal feat av w (t, c)) n = c n"
  using svc_csrs by (auto simp: timer_smode_restore_def csr_defs)

lemma timer_restore_get:
  assumes "timer_hw legal" "feat HART_FEAT_SSTC \<or> av"
  shows "timer_smode_get feat (timer_smode_restore legal feat av w tc) = w"
  using assms by (auto simp: timer_hw_def timer_smode_get_def timer_smode_restore_def csr_defs split: prod.split)

lemma ssip_restore_spares: "spares (ssip_restore legal due)"
  by (simp add: spares_def ssip_restore_def Let_def svc_sparesD)

lemma context_load_fields:
  fixes t :: "'a ctx_world_scheme" and key self :: nat
  defines "x \<equiv> contexts t key self"
  shows "n \<in> set (ctx_csrs (m_feat p)) \<Longrightarrow> hart_csrs (context_load p u key self t) self n =
      hyp_state_restore (m_legal p) (m_feat p) x (sup_restore (m_legal p) (m_feat p) x (hart_csrs t self)) n"
    "timer_hw (m_legal p) \<Longrightarrow> m_feat p HART_FEAT_SSTC \<or> p_timer p \<Longrightarrow>
      timer_smode_get (m_feat p) (timers (context_load p u key self t) self, hart_csrs (context_load p u key self t) self) = ctx_timer x"
    "mpxy_shmem (context_load p u key self t) self = ctx_shmem x"
proof -
  define t1 where "t1 = regs_upd self (\<lambda>c. hyp_state_restore (m_legal p) (m_feat p) x (sup_restore (m_legal p) (m_feat p) x c)) t"
  define t2 where "t2 = unit_state_restore p u key self t1"
  define tc where "tc = timer_smode_restore (m_legal p) (m_feat p) (p_timer p) (ctx_timer x) (timers t2 self, hart_csrs t2 self)"
  have r: "hart_csrs (context_load p u key self t) self = ssip_restore (m_legal p) (bit (ctx_sip x) 1 \<or> ctx_ipi x) (snd tc)"
    "timers (context_load p u key self t) self = fst tc" "mpxy_shmem (context_load p u key self t) self = ctx_shmem x"
    by (simp_all add: context_load_def Let_def mpxy_hart_shmem_swap_def context_upd_def regs_upd_def timer_run_def
        case_prod_beta tc_def t2_def t1_def x_def)
  show "mpxy_shmem (context_load p u key self t) self = ctx_shmem x" by (rule r(3))
  show "hart_csrs (context_load p u key self t) self n =
      hyp_state_restore (m_legal p) (m_feat p) x (sup_restore (m_legal p) (m_feat p) x (hart_csrs t self)) n"
    if "n \<in> set (ctx_csrs (m_feat p))"
    unfolding r sparesD [OF ssip_restore_spares ctx_csrs_plain(1) [OF that]] tc_def timer_restore_other [OF ctx_csrs_plain [OF that]]
      t2_def unit_state_restore_fields(1) [OF ctx_csrs_plain(1) [OF that]] by (simp add: t1_def regs_upd_def)
  assume "timer_hw (m_legal p)" "m_feat p HART_FEAT_SSTC \<or> p_timer p"
  then have "timer_smode_get (m_feat p) tc = ctx_timer x" unfolding tc_def by (rule timer_restore_get)
  then show "timer_smode_get (m_feat p) (timers (context_load p u key self t) self, hart_csrs (context_load p u key self t) self) = ctx_timer x"
    using sparesD [OF ssip_restore_spares misa_kept(3)] by (simp add: r timer_smode_get_def csr_read_plain case_prod_beta split: if_splits)
qed

lemma context_load_regs:
  fixes t :: "'a ctx_world_scheme" and key self :: nat
  defines "x \<equiv> contexts t key self"
  shows "bit (hart_csrs t self CSR_MISA) 5 \<Longrightarrow> \<exists>r. fp_regs (context_load p u key self t) self =
      fp_state_restore (bit (hart_csrs t self CSR_MISA) 3) (fp x) r"
    "has_vectors self t \<Longrightarrow> vec x = Some st \<Longrightarrow> vec_regs (context_load p u key self t) self =
      vec_state_restore (u_vset u) (unat (hart_csrs t self CSR_VLENB)) st"
proof -
  define t1 where "t1 = regs_upd self (\<lambda>c. hyp_state_restore (m_legal p) (m_feat p) x (sup_restore (m_legal p) (m_feat p) x c)) t"
  have t1: "hart_csrs t1 self CSR_MISA = hart_csrs t self CSR_MISA" "hart_csrs t1 self CSR_VLENB = hart_csrs t self CSR_VLENB"
    by (simp_all add: t1_def regs_upd_def restored_other)
  have x: "contexts t1 key self = x" "has_vectors self t1 = has_vectors self t"
    using t1 by (simp_all add: x_def has_vectors_def, simp_all add: t1_def regs_upd_fields)
  have r: "fp_regs (context_load p u key self t) = fp_regs (unit_state_restore p u key self t1)"
    "vec_regs (context_load p u key self t) = vec_regs (unit_state_restore p u key self t1)"
    by (simp_all add: context_load_def Let_def mpxy_hart_shmem_swap_def context_upd_def regs_upd_def timer_run_def
        case_prod_beta t1_def x_def)
  show "bit (hart_csrs t self CSR_MISA) 5 \<Longrightarrow> \<exists>r. fp_regs (context_load p u key self t) self =
      fp_state_restore (bit (hart_csrs t self CSR_MISA) 3) (fp x) r"
    using unit_state_restore_regs(1) [of t1 self p u key] unfolding t1 x r by blast
  show "has_vectors self t \<Longrightarrow> vec x = Some st \<Longrightarrow> vec_regs (context_load p u key self t) self =
      vec_state_restore (u_vset u) (unat (hart_csrs t self CSR_VLENB)) st"
    using unit_state_restore_regs(2) [of self t1 key st p u] unfolding t1 x r by blast
qed

text \<open>The registers the hardware has and does not change: which units there are, how long vectors are.\<close>

definition same_hardware :: "nat \<Rightarrow> 'a ctx_world_scheme \<Rightarrow> 'a ctx_world_scheme \<Rightarrow> bool" where
  "same_hardware self s t \<longleftrightarrow> hart_csrs t self CSR_MISA = hart_csrs s self CSR_MISA \<and>
     hart_csrs t self CSR_VLENB = hart_csrs s self CSR_VLENB \<and> vec_bytes t = vec_bytes s"

lemma context_restore_back:
  assumes "holds (m_feat p) self s (contexts t key self)" "same_hardware self s t"
    and "\<And>n c. n \<in> set (ctx_csrs (m_feat p)) \<Longrightarrow> m_legal p c n (hart_csrs s self n) = hart_csrs s self n"
    and "timer_hw (m_legal p)" "m_feat p HART_FEAT_SSTC \<or> p_timer p"
  shows "state_back (m_feat p) self s (context_restore p u key self fresh t)"
proof (rule state_back_keeps(1) [OF context_restore_keeps])
  define x where "x = contexts t key self"
  have h: "holds (m_feat p) self s x" using assms(1) by (simp add: x_def)
  have "hart_csrs (context_load p u key self t) self n = hart_csrs s self n" if "n \<in> set (ctx_csrs (m_feat p))" for n
    unfolding context_load_fields(1) [OF that] x_def [symmetric]
    by (rule restored_csr) (use h that assms(3) in \<open>auto simp: holds_def\<close>)
  moreover have "fp_regs (context_load p u key self t) self n =
      (if n = 32 \<or> bit (hart_csrs s self CSR_MISA) 3 then fp_regs s self n else fp_regs s self n AND 0xffffffff)"
    if f: "bit (hart_csrs s self CSR_MISA) 5" "n < 33" for n
  proof -
    obtain buf where "fp x = fp_state_save (bit (hart_csrs s self CSR_MISA) 3) (fp_regs s self) buf"
      using h f(1) by (auto simp: holds_def)
    moreover obtain r where "fp_regs (context_load p u key self t) self =
        fp_state_restore (bit (hart_csrs s self CSR_MISA) 3) (fp x) r"
      using context_load_regs(1) [of t self p u key] f(1) assms(2) unfolding same_hardware_def x_def by auto
    ultimately show ?thesis using fp_state_round_trip [OF f(2)] by simp
  qed
  moreover have "ctx_timer x = timer_smode_get (m_feat p) (timers s self, hart_csrs s self)" "ctx_shmem x = mpxy_shmem s self"
    using h by (simp_all add: holds_def)
  ultimately show "state_back (m_feat p) self s (context_load p u key self t)"
    unfolding state_back_def context_load_fields(2) [OF assms(4,5)] context_load_fields(3) x_def [symmetric] by simp
qed

lemma context_restore_vec_back:
  assumes "holds (m_feat p) self s (contexts t key self)" "same_hardware self s t"
    and "has_vectors self s" "vec_ok u self s" "vec (contexts t key self) \<noteq> None"
  shows "vec_back self s (context_restore p u key self fresh t)"
proof (rule state_back_keeps(2) [OF context_restore_keeps])
  define n where "n = unat (hart_csrs s self CSR_VLENB)"
  obtain st where st: "vec (contexts t key self) = Some (vec_state_save n (vec_regs s self) st)"
    using assms(1,3,5) by (auto simp: holds_def n_def)
  have "has_vectors self t" "unat (hart_csrs t self CSR_VLENB) = n"
    using assms(2,3) by (simp_all add: same_hardware_def has_vectors_def n_def)
  note r = context_load_regs(2) [OF this(1) st, of p u, unfolded this(2)]
  show "vec_back self s (context_load p u key self t)"
    unfolding vec_back_def r using assms(4) vec_state_round_trip [of "vec_regs s self" n "u_vset u" st]
    by (simp add: vec_ok_def n_def Let_def)
qed

section \<open>There and back\<close>

lemma hart_keeps_hardware: "hart_keeps self t t' \<Longrightarrow> same_hardware self s t \<Longrightarrow> same_hardware self s t'"
  by (simp add: hart_keeps_def same_hardware_def misa_kept)

lemma unit_state_save_hardware: "same_hardware self s t \<Longrightarrow> same_hardware self s (unit_state_save p key self t)"
  by (simp add: same_hardware_def unit_state_save_def Let_def case_prod_beta vector_unit_def unit_csrs_kept regs_upd_fields
      context_upd_fields, simp add: context_upd_def regs_upd_fields)

lemma context_upd_hardware: "same_hardware self s t \<Longrightarrow> same_hardware self s (context_upd k h f t)"
  by (simp add: same_hardware_def context_upd_def)

lemma context_park_hardware: "same_hardware self s t \<Longrightarrow> same_hardware self s (context_park p u self st regs q t)"
  unfolding context_park_def context_save_def Let_def case_prod_beta
  by (intro hart_keeps_hardware [OF hart_keeps_book(2)] context_upd_hardware hart_keeps_hardware [OF hart_keeps_switch_out]
      unit_state_save_hardware)
     (simp add: mpxy_hart_shmem_swap_def same_hardware_def context_upd_def)

lemma context_park_other: "this_domain_key (context_park p u self st regs q s) h = this_domain_key s h"
  by (simp add: this_domain_key_places places_context_park fst_park)

lemma enter_parks:
  assumes "domain_enter p u self regs target arg s = (SBI_SUCCESS, fl, s1)"
  defines "x \<equiv> contexts s1 (this_domain_key s self) self"
  shows "holds (m_feat p) self s x" "ctx_regs x = regs" "ctx_state x = CONTEXT_CALLING" "\<not> quiet x"
proof -
  have rc: "enter_check p self target False s = SBI_SUCCESS"
    using assms(1) by (auto simp: domain_enter_def enter_def Let_def split: if_splits)
  have s1: "s1 = snd (snd (domain_enter p u self regs target arg s))" using assms(1) by simp
  have "target \<noteq> this_domain_key s self" using rc by (auto simp: enter_check_def Let_def split: if_splits)
  then have "x = contexts (context_park p u self CONTEXT_CALLING regs False s) (this_domain_key s self) self"
    using rc unfolding x_def s1 domain_enter_def enter_def Let_def
    by (simp add: contexts_context_switch_other contexts_upd)
  then show "holds (m_feat p) self s x" "ctx_regs x = regs" "ctx_state x = CONTEXT_CALLING" "\<not> quiet x"
    by (simp_all add: context_park_def Let_def contexts_upd context_save_holds)
qed

lemma exit_returns:
  assumes "caller (contexts t (this_domain_key t self) self) = Some cur" "ctx_state (contexts t cur self) = CONTEXT_CALLING"
    and "\<not> quiet (contexts t cur self)" "this_domain_key t self \<noteq> cur" "\<not> stopping (this_domain t self)"
  obtains t3 where
    "domain_exit p u self regs v t = (SBI_SUCCESS,
       Goes (gpr_set A1 v (gpr_set A0 0 (ctx_regs (contexts t cur self)))), context_restore p u cur self False t3)"
    "contexts t3 cur self = (contexts t cur self)\<lparr>ctx_regs := gpr_set A1 v (gpr_set A0 0 (ctx_regs (contexts t cur self)))\<rparr>"
    "\<And>s. same_hardware self s t \<Longrightarrow> same_hardware self s t3"
proof -
  define t2 where "t2 = context_park p u self CONTEXT_IDLE regs False (context_upd (this_domain_key t self) self (\<lambda>x. x\<lparr>caller := None\<rparr>) t)"
  define t3 where "t3 = context_upd cur self (\<lambda>x. x\<lparr>quiet := False\<rparr>)
    (context_upd cur self (\<lambda>x. x\<lparr>ctx_regs := gpr_set A1 v (gpr_set A0 (sbi_word SBI_SUCCESS) (ctx_regs x))\<rparr>) t2)"
  have k: "this_domain_key (context_upd k h f t) self = this_domain_key t self" for k h f
    by (simp add: this_domain_key_def context_upd_def)
  have c: "contexts t2 cur self = contexts t cur self"
    unfolding t2_def using assms(4) by (subst contexts_context_park_other) (simp_all add: k contexts_upd)
  have "leave_target p self False None t = (Some cur, False)"
    using assms(1,2) by (simp add: leave_target_def caller_waits_def)
  then have e: "domain_exit p u self regs v t = (SBI_SUCCESS, context_switch p u cur self regs SBI_SUCCESS v t2)"
    using assms(5) by (simp add: domain_exit_def leave_def Let_def t2_def)
  have w: "sbi_word SBI_SUCCESS = 0" by (simp add: sbi_word_def)
  have "context_switch p u cur self regs SBI_SUCCESS v t2 =
      (Goes (ctx_regs (contexts (context_restore p u cur self False t3) cur self)), context_restore p u cur self False t3)"
    using assms(2,3) by (simp add: context_switch_def c Let_def t3_def)
  moreover have c3: "contexts t3 cur self = (contexts t cur self)\<lparr>ctx_regs := gpr_set A1 v (gpr_set A0 0 (ctx_regs (contexts t cur self)))\<rparr>"
    using assms(3) by (simp add: t3_def contexts_upd c w)
  moreover have "same_hardware self s t3" if "same_hardware self s t" for s
    unfolding t3_def t2_def by (intro context_upd_hardware context_park_hardware that)
  ultimately show thesis using that [of t3] e by (simp add: contexts_context_restore)
qed


section \<open>An example\<close>

text \<open>The visited domain has set up its trap vector.\<close>

definition visit_busy :: ctx_world where
  "visit_busy = (snd (snd visit_in))\<lparr>hart_csrs := (\<lambda>h n. if n = CSR_STVEC then 0x80400000 else 0)\<rparr>"

lemma visit_home: "this_domain_key visit_boot 0 = 0" "this_domain_key visit_busy 0 = 1"
  using visit_in_home by (simp_all add: this_domain_key_def visit_boot_def visit_busy_def pair_hart_def)

lemma visit_in_places: "places (snd (snd visit_in)) =
    run_places 0 1 (put_standing 1 0 (\<lambda>(v, _). (v, Some 0)) (park_places 0 CONTEXT_CALLING (places visit_boot)))"
  using visit_home(1)
  by (simp add: visit_in_def domain_enter_def enter_def visit_checks [simplified] Let_def
      places_context_switch places_put_state places_context_park)

lemma visit_in_caller: "caller (contexts (snd (snd visit_in)) 1 0) = Some 0" "\<not> stopping (doms (snd (snd visit_in)) ! 1)"
proof -
  have "snd (fst (places (snd (snd visit_in))) 1 0) = Some 0"
    unfolding visit_in_places
    by (simp add: run_places_def put_dom_def put_standing_def put_hart_def slot_upd_def park_places_def case_prod_beta)
  then show "caller (contexts (snd (snd visit_in)) 1 0) = Some 0" by (simp add: places_def standing_def)
  have "\<not> stopping (fst (snd (places (snd (snd visit_in)))) ! 1)"
    unfolding visit_in_places
    by (simp add: run_places_def put_dom_def put_standing_def put_hart_def slot_upd_def park_places_def case_prod_beta
        at_home_def places_def visit_boot_def visit_domains_def demo_domain_def zero_domain_def pair_hart_def)
  then show "\<not> stopping (doms (snd (snd visit_in)) ! 1)" by (simp add: places_def)
qed

lemma context_restore_vec_bytes: "vec_bytes (context_restore p u key self fresh s) = vec_bytes s"
proof -
  have "vec_bytes (context_restore p u key self fresh s) = vec_bytes (context_load p u key self s)"
    using context_restore_keeps [of self p u key s fresh] by (simp add: hart_keeps_def)
  also have "\<dots> = vec_bytes s"
    unfolding context_load_def Let_def unit_state_restore_def case_prod_beta vector_unit_def
    by (simp add: mpxy_hart_shmem_swap_def context_upd_def regs_upd_def timer_run_def case_prod_beta
        split: vec_kind.split option.split)
  finally show ?thesis .
qed

lemma visit_in_hardware: "same_hardware 0 visit_boot visit_busy"
proof -
  have b: "vec_bytes (context_upd k h f s) = vec_bytes s" for k h f and s :: ctx_world by (simp add: context_upd_def)
  have "ctx_state (contexts (context_park duo visit_units 0 CONTEXT_CALLING visit_regs False visit_boot) 1 0) = CONTEXT_NONE"
    by (subst contexts_context_park_other) (simp add: visit_home, simp add: visit_boot_def zero_context_def)
  moreover have "boot_hart (doms (context_park duo visit_units 0 CONTEXT_CALLING visit_regs False visit_boot) ! 1) = 0"
  proof -
    have "boot_hart (fst (snd (places (context_park duo visit_units 0 CONTEXT_CALLING visit_regs False visit_boot))) ! 1) = 0"
      unfolding places_context_park
      by (simp add: park_places_def put_dom_def put_standing_def case_prod_beta at_home_def places_def visit_boot_def
          visit_domains_def demo_domain_def zero_domain_def pair_hart_def)
    then show ?thesis by (simp add: places_def)
  qed
  moreover have "vec_bytes (context_park duo visit_units 0 CONTEXT_CALLING visit_regs False visit_boot) = vec_bytes visit_boot"
    using context_park_hardware [of 0 visit_boot visit_boot] by (simp add: same_hardware_def)
  ultimately have "vec_bytes (snd (snd visit_in)) = vec_bytes visit_boot"
    by (simp add: visit_in_def domain_enter_def enter_def visit_checks [simplified] Let_def context_switch_def
      contexts_upd b context_restore_vec_bytes context_fresh_def) (simp_all add: context_upd_def)
  then show ?thesis by (simp add: same_hardware_def visit_boot_def visit_busy_def)
qed


end
