(* ===== verification/Ecall.thy ===== *)
theory Ecall
  imports Saved
begin

text \<open>
  The service layer (\<^verbatim>\<open>services/core/service.c\<close>) and the domain extension of the SBI
  (\<^verbatim>\<open>services/sbi/domain.c\<close>), which is how S-mode reaches the domain switch. Shown: what a domain that
  stops itself makes the one that called it believe.
\<close>

section \<open>Services\<close>

record service_ret =
  ret_error :: ulong
  ret_value :: ulong
  keep_regs :: bool

text \<open>
  A service's \<^verbatim>\<open>ecall\<close> gets the register file and leaves one behind, if the hart comes back at all;
  \<open>None\<close>: it does not end.
\<close>

type_synonym 'w service_call = "ulong \<Rightarrow> ulong \<Rightarrow> trap_regs \<Rightarrow> 'w \<Rightarrow> (service_ret \<times> flow \<times> 'w) option"

record 'w service =
  eid_min :: ulong
  eid_max :: ulong
  legacy_ret :: bool
  probe :: "(ulong \<Rightarrow> ulong) option"
  ecall :: "'w service_call option"

definition service_lookup :: "'w service list \<Rightarrow> ulong \<Rightarrow> 'w service option" where
  "service_lookup table eid = find (\<lambda>s. eid_min s \<le> eid \<and> eid \<le> eid_max s) table"

definition service_probe :: "'w service list \<Rightarrow> ulong \<Rightarrow> ulong" where
  "service_probe table eid =
     (case service_lookup table eid of
        None \<Rightarrow> 0
      | Some s \<Rightarrow> (case probe s of None \<Rightarrow> 1 | Some f \<Rightarrow> f eid))"

definition sbi_ret :: "sbi \<Rightarrow> ulong \<Rightarrow> service_ret" where
  "sbi_ret rc v = \<lparr>ret_error = sbi_word rc, ret_value = v, keep_regs = False\<rparr>"

definition sbi_ok :: "ulong \<Rightarrow> service_ret" where
  "sbi_ok v = sbi_ret SBI_SUCCESS v"

definition sbi_err :: "sbi \<Rightarrow> service_ret" where
  "sbi_err rc = sbi_ret rc 0"

text \<open>The end of \<^verbatim>\<open>service_ecall\<close>: \<open>leg\<close> is a service found that returns in a0 only.\<close>

definition ecall_return :: "bool \<Rightarrow> service_ret \<Rightarrow> trap_regs \<Rightarrow> trap_regs" where
  "ecall_return leg ret regs =
     (if keep_regs ret then regs
      else let r = gpr_set A0 (ret_error ret) regs in if leg then r else gpr_set A1 (ret_value ret) r)"

definition service_ecall :: "'w service list \<Rightarrow> trap_regs \<Rightarrow> 'w \<Rightarrow> (flow \<times> 'w) option" where
  "service_ecall table regs s =
     (case service_lookup table (gpr regs A7) of
        None \<Rightarrow> Some (Goes (ecall_return False (sbi_err SBI_ERR_NOT_SUPPORTED) regs), s)
      | Some sv \<Rightarrow>
          (case ecall sv of
             None \<Rightarrow> Some (Goes (ecall_return (legacy_ret sv) (sbi_err SBI_ERR_NOT_SUPPORTED) regs), s)
           | Some f \<Rightarrow>
               map_option (\<lambda>(ret, fl, s').
                 (case fl of Goes r \<Rightarrow> Goes (ecall_return (legacy_ret sv) ret r) | Halts e \<Rightarrow> Halts e, s'))
                 (f (gpr regs A7) (gpr regs A6) regs s)))"

section \<open>The domain extension\<close>

abbreviation SBI_FW_DOMAIN_COUNT :: ulong where "SBI_FW_DOMAIN_COUNT \<equiv> 0"
abbreviation SBI_FW_DOMAIN_SELF :: ulong where "SBI_FW_DOMAIN_SELF \<equiv> 1"
abbreviation SBI_FW_DOMAIN_ENTER :: ulong where "SBI_FW_DOMAIN_ENTER \<equiv> 2"
abbreviation SBI_FW_DOMAIN_EXIT :: ulong where "SBI_FW_DOMAIN_EXIT \<equiv> 3"
abbreviation SBI_FW_DOMAIN_START :: ulong where "SBI_FW_DOMAIN_START \<equiv> 4"
abbreviation SBI_FW_DOMAIN_STOP :: ulong where "SBI_FW_DOMAIN_STOP \<equiv> 5"
abbreviation SBI_FW_DOMAIN_STATE :: ulong where "SBI_FW_DOMAIN_STATE \<equiv> 6"

text \<open>\<open>impl\<close> is \<^verbatim>\<open>CONFIG_SBI_IMPL_ID\<close>.\<close>

definition SBI_EXT_FW_DOMAIN :: "ulong \<Rightarrow> ulong" where
  "SBI_EXT_FW_DOMAIN impl = 0x0A000000 + impl"

definition switched :: "sbi \<Rightarrow> service_ret" where
  "switched rc = (if rc \<noteq> SBI_SUCCESS then sbi_err rc else \<lparr>ret_error = 0, ret_value = 0, keep_regs = True\<rparr>)"

definition sbi_domain_ecall ::
  "platform \<Rightarrow> units \<Rightarrow> (ulong \<Rightarrow> bool) \<Rightarrow> nat \<Rightarrow> 'a ctx_world_scheme service_call" where
  "sbi_domain_ecall p u fails self eid fid regs s =
     (let a0 = gpr regs A0; key = unat a0;
          done = (\<lambda>ret. Some (ret, Goes regs, s));
          moved = (\<lambda>(rc, fl, s'). Some (switched rc, fl, s')) in
      if fid = SBI_FW_DOMAIN_COUNT then done (sbi_ok (of_nat (length (doms s))))
      else if fid = SBI_FW_DOMAIN_SELF then done (sbi_ok (of_nat (dom_index (this_domain s self))))
      else if fid = SBI_FW_DOMAIN_EXIT then moved (domain_exit p u self regs a0 s)
      else if SBI_FW_DOMAIN_STATE < fid then done (sbi_err SBI_ERR_NOT_SUPPORTED)
      else if length (doms s) \<le> key then done (sbi_err SBI_ERR_INVALID_PARAM)
      else if fid = SBI_FW_DOMAIN_ENTER then moved (domain_enter p u self regs key (gpr regs A1) s)
      else if fid = SBI_FW_DOMAIN_STATE then done (sbi_ok (of_bool (domain_running p key s)))
      else if key \<noteq> this_domain_key s self \<and> \<not> reset_allowed (this_domain s self) then done (sbi_err SBI_ERR_DENIED)
      else if fid = SBI_FW_DOMAIN_START then
        (let (rc, s') = domain_start p fails key s in Some (sbi_err rc, Goes regs, s'))
      else map_option (\<lambda>(rc, fl, s'). (sbi_err rc, fl, s')) (domain_stop p u self regs key s))"

definition sbi_fw_domain ::
  "platform \<Rightarrow> units \<Rightarrow> (ulong \<Rightarrow> bool) \<Rightarrow> ulong \<Rightarrow> nat \<Rightarrow> 'a ctx_world_scheme service" where
  "sbi_fw_domain p u fails impl self =
     \<lparr>eid_min = SBI_EXT_FW_DOMAIN impl, eid_max = SBI_EXT_FW_DOMAIN impl, legacy_ret = False, probe = None,
      ecall = Some (sbi_domain_ecall p u fails self)\<rparr>"

section \<open>A domain that stops itself\<close>

lemma view_stop_wait:
  assumes "stop_wait p self key s = Some s'"
  shows "ctx_view s' = ctx_view s"
proof (rule stop_wait.raw_induct [where P = "\<lambda>p self key s s'. ctx_view s' = ctx_view s", OF _ assms])
  fix f p self key and s s' :: "'a ctx_world_scheme"
  assume f: "\<And>p self key s s'. f p self key s = Some s' \<Longrightarrow> ctx_view s' = ctx_view s"
    and e: "(let busy = stop_busy p self key s; (halted, s1) = ipi_process p self s in
      if halted then None else if busy then f p self key s1 else Some s1) = Some s'"
  have "ctx_view (snd (ipi_process p self s)) = ctx_view s" by (rule view_ipi_process)
  then show "ctx_view s' = ctx_view s" using e f [of p self key "snd (ipi_process p self s)" s']
    by (simp add: Let_def case_prod_beta split: if_splits)
qed

text \<open>Where hart \<open>self\<close> is, and two contexts: the one that runs, and another one.\<close>

definition stays :: "nat \<Rightarrow> nat \<Rightarrow> nat \<Rightarrow> 'a ctx_world_scheme \<Rightarrow> 'a ctx_world_scheme \<Rightarrow> bool" where
  "stays key k self s t \<longleftrightarrow> contexts t key self = contexts s key self \<and> contexts t k self = contexts s k self \<and>
     this_domain_key t self = this_domain_key s self"

lemma stays_refl: "stays key k self s s"
  by (simp add: stays_def)

lemma stays_trans: "stays key k self s t \<Longrightarrow> stays key k self t t' \<Longrightarrow> stays key k self s t'"
  by (simp add: stays_def)

lemma stays_view: "ctx_view t = ctx_view s \<Longrightarrow> stays key k self s t"
  using ctx_viewD [of t s] by (simp add: stays_def this_domain_key_def)

lemma stays_stop_one:
  assumes "\<not> waiting (ctx_state (contexts s key self))" "k \<noteq> key"
  shows "stays key k self s (stop_one key i s)"
  using assms by (auto simp: stays_def stop_one_def contexts_upd waiting_def)
    (simp_all add: this_domain_key_def dom_upd_def context_upd_def)

lemma stays_stop_ones:
  assumes "\<not> waiting (ctx_state (contexts s key self))" "k \<noteq> key"
  shows "stays key k self s (fold (stop_one key) is s)"
  using assms(1)
proof (induction "is" arbitrary: s)
  case (Cons i "is")
  have o: "stays key k self s (stop_one key i s)" by (rule stays_stop_one [OF Cons.prems assms(2)])
  then have "\<not> waiting (ctx_state (contexts (stop_one key i s) key self))" using Cons.prems by (simp add: stays_def)
  from stays_trans [OF o Cons.IH [OF this]] show ?case by simp
qed (simp add: stays_refl)

lemma stays_stop_begin:
  assumes "\<not> waiting (ctx_state (contexts s key self))" "k \<noteq> key"
  shows "stays key k self s (stop_begin p self key s)"
proof -
  define s1 where "s1 = dom_upd key (\<lambda>d. d\<lparr>stopping := True\<rparr>) (s\<lparr>stop_lock := True\<rparr>)"
  define s2 where "s2 = fold (stop_one key) [0..<p_harts p] s1"
  have s1: "stays key k self s s1" by (simp add: s1_def stays_def dom_upd_def this_domain_key_def)
  then have "\<not> waiting (ctx_state (contexts s1 key self))" using assms(1) by (simp add: stays_def)
  then have "stays key k self s1 s2" unfolding s2_def by (rule stays_stop_ones [OF _ assms(2)])
  moreover have "ctx_view (stop_begin p self key s) = ctx_view s2"
    unfolding stop_begin_def Let_def s1_def [symmetric] s2_def [symmetric] by (rule view_fold) (simp add: view)
  ultimately show ?thesis using stays_trans [OF s1 stays_trans [OF _ stays_view]] by blast
qed

lemma stop_self_returns:
  assumes "caller (contexts s (this_domain_key s self) self) = Some k" "ctx_state (contexts s k self) = CONTEXT_CALLING"
    and "\<not> quiet (contexts s k self)" "k \<noteq> this_domain_key s self"
  defines "r \<equiv> gpr_set A1 0 (gpr_set A0 (sbi_word SBI_ERR_FAILED) (ctx_regs (contexts s k self)))"
  shows "\<exists>s'. domain_stop_self p u self regs s = (Goes r, s') \<and> this_domain_key s' self = k \<and>
    ctx_regs (contexts s' k self) = r"
proof -
  let ?key = "this_domain_key s self"
  define s1 where "s1 = hart_services_switch_out p u self
    (context_upd ?key self (\<lambda>x. x\<lparr>ctx_state := CONTEXT_NONE, caller := None\<rparr>) s)"
  define s2 where "s2 = context_upd k self (\<lambda>x. x\<lparr>quiet := False\<rparr>) (context_upd k self
    (\<lambda>x. x\<lparr>ctx_regs := gpr_set A1 0 (gpr_set A0 (sbi_word SBI_ERR_FAILED) (ctx_regs x))\<rparr>) s1)"
  have c: "contexts s1 k self = contexts s k self" using assms(4) by (simp add: s1_def contexts_simps contexts_upd)
  have "domain_stop_self p u self regs s = context_switch p u k self regs SBI_ERR_FAILED 0 s1"
    using assms(1,2) by (simp add: domain_stop_self_def caller_waits_def Let_def s1_def)
  also have "\<dots> = (Goes (ctx_regs (contexts (context_restore p u k self False s2) k self)), context_restore p u k self False s2)"
    using assms(2,3) by (simp add: context_switch_def Let_def c s2_def)
  also have "ctx_regs (contexts (context_restore p u k self False s2) k self) = r"
    by (simp add: contexts_context_restore s2_def contexts_upd c r_def)
  finally show ?thesis
    by (auto simp: contexts_context_restore s2_def contexts_upd c r_def this_domain_key_places places_context_restore run_places_def)
qed

text \<open>
  C39. What a domain that stops itself makes its caller believe. A hart visits a domain, its caller's
  context waits, and the visited domain calls \<^verbatim>\<open>domain_stop\<close> on itself; the stop goes through. Then
  the hart is back in the caller's domain, \<^verbatim>\<open>domain_stop_self\<close> has left SBI_ERR_FAILED in the register
  file of the caller's context, and yet the hart goes on with success and a value of 0 in a0 and a1: the
  service layer writes the result of the stop over the failure of the enter call.
\<close>

theorem self_stop_hides_failure:
  assumes "gpr regs A7 = SBI_EXT_FW_DOMAIN impl" "gpr regs A6 = SBI_FW_DOMAIN_STOP"
    and "unat (gpr regs A0) = this_domain_key s self" "this_domain_key s self < length (doms s)"
    and "\<not> stop_lock s" "stop_wait p self (this_domain_key s self) (stop_begin p self (this_domain_key s self) s) = Some s2"
    and "ctx_state (contexts s (this_domain_key s self) self) = CONTEXT_RUNNING"
    and "caller (contexts s (this_domain_key s self) self) = Some k" "k \<noteq> this_domain_key s self"
    and "ctx_state (contexts s k self) = CONTEXT_CALLING" "\<not> quiet (contexts s k self)"
  shows "\<exists>s'. service_ecall [sbi_fw_domain p u fails impl self] regs s =
      Some (Goes (gpr_set A1 0 (gpr_set A0 0 (ctx_regs (contexts s k self)))), s') \<and>
    this_domain_key s' self = k \<and> gpr (ctx_regs (contexts s' k self)) A0 = sbi_word SBI_ERR_FAILED"
proof -
  let ?key = "this_domain_key s self"
  define s3 where "s3 = dom_upd ?key (\<lambda>d. d\<lparr>stopping := False\<rparr>) (sse_domain_reset ?key s2)\<lparr>stop_lock := False\<rparr>"
  have "stays ?key k self s (stop_begin p self ?key s)" using assms(7,9) by (intro stays_stop_begin) (simp_all add: waiting_def)
  moreover have "stays ?key k self (stop_begin p self ?key s) s2" by (rule stays_view [OF view_stop_wait [OF assms(6)]])
  moreover have "stays ?key k self s2 (sse_domain_reset ?key s2)" by (rule stays_view) (simp add: view)
  moreover have "stays ?key k self (sse_domain_reset ?key s2) s3" by (simp add: s3_def stays_def dom_upd_def this_domain_key_def)
  ultimately have "stays ?key k self s s3" by (blast intro: stays_trans)
  then have e: "contexts s3 ?key self = contexts s ?key self" "contexts s3 k self = contexts s k self" "this_domain_key s3 self = ?key"
    by (simp_all add: stays_def)
  obtain s' where s': "domain_stop_self p u self regs s3 =
      (Goes (gpr_set A1 0 (gpr_set A0 (sbi_word SBI_ERR_FAILED) (ctx_regs (contexts s k self)))), s')"
    "this_domain_key s' self = k" "gpr (ctx_regs (contexts s' k self)) A0 = sbi_word SBI_ERR_FAILED"
    using stop_self_returns [of s3 self k p u regs] assms(8-11) by (auto simp: e gpr_set_def)
  have "domain_stop p u self regs ?key s =
      Some (SBI_SUCCESS, Goes (gpr_set A1 0 (gpr_set A0 (sbi_word SBI_ERR_FAILED) (ctx_regs (contexts s k self)))), s')"
    using assms(5,6) s'(1) by (simp add: domain_stop_def stop_end_def Let_def e flip: s3_def)
  then have "service_ecall [sbi_fw_domain p u fails impl self] regs s =
      Some (Goes (gpr_set A1 0 (gpr_set A0 0 (ctx_regs (contexts s k self)))), s')"
    using assms(1-4) by (simp add: service_ecall_def service_lookup_def sbi_fw_domain_def sbi_domain_ecall_def Let_def
      ecall_return_def sbi_err_def sbi_ret_def sbi_word_def gpr_set_def fun_upd_twist)
  then show ?thesis using s'(2,3) by blast
qed

section \<open>An example\<close>

text \<open>Hart 0 visits domain 1, the root domain's context waits; domain 1 calls the end of itself.\<close>

definition visit_stop :: ctx_world where
  "visit_stop = visit_boot\<lparr>harts := (\<lambda>h. if h = 0 then (pair_hart 0)\<lparr>hart_domain := 1\<rparr> else pair_hart (of_nat h)),
     doms := [(visit_domains ! 0)\<lparr>assigned := [2], parked := [1]\<rparr>, (visit_domains ! 1)\<lparr>assigned := [1]\<rparr>],
     contexts := (\<lambda>k h. if h \<noteq> 0 then zero_context
       else if k = 0 then zero_context\<lparr>ctx_state := CONTEXT_CALLING, ctx_regs := visit_regs\<rparr>
       else zero_context\<lparr>ctx_state := CONTEXT_RUNNING, caller := Some 0\<rparr>)\<rparr>"

definition stop_regs :: trap_regs where
  "stop_regs = gpr_set A7 (SBI_EXT_FW_DOMAIN 9) (gpr_set A6 SBI_FW_DOMAIN_STOP (gpr_set A0 1 visit_regs))"

lemma visit_stop_calm: "fst (ipi_process duo 0 (stop_begin duo 0 1 visit_stop)) = False"
  by code_simp

lemma visit_stop_alone: "stop_busy duo 0 1 (stop_begin duo 0 1 visit_stop) = False"
  by code_simp

lemma visit_stop_ends: "\<exists>s2. stop_wait duo 0 1 (stop_begin duo 0 1 visit_stop) = Some s2"
  by (subst stop_wait.simps) (simp add: visit_stop_calm [simplified] visit_stop_alone [simplified] Let_def case_prod_beta)

lemma visit_stop_home: "this_domain_key visit_stop 0 = 1"
  by (simp add: this_domain_key_def visit_stop_def)

theorem self_stop_hides_failure_witness:
  "\<exists>s'. service_ecall [sbi_fw_domain duo visit_units (\<lambda>_. False) 9 0] stop_regs visit_stop =
      Some (Goes (gpr_set A1 0 (gpr_set A0 0 visit_regs)), s') \<and>
    this_domain_key s' 0 = 0 \<and> gpr (ctx_regs (contexts s' 0 0)) A0 = - 1"
proof -
  obtain s2 where "stop_wait duo 0 1 (stop_begin duo 0 1 visit_stop) = Some s2" using visit_stop_ends by blast
  then have w: "stop_wait duo 0 (this_domain_key visit_stop 0) (stop_begin duo 0 (this_domain_key visit_stop 0) visit_stop) = Some s2"
    by (simp add: visit_stop_home)
  have r: "gpr stop_regs A7 = SBI_EXT_FW_DOMAIN 9" "gpr stop_regs A6 = SBI_FW_DOMAIN_STOP" "unat (gpr stop_regs A0) = this_domain_key visit_stop 0"
    by (simp_all add: stop_regs_def gpr_set_def visit_stop_home)
  have c: "contexts visit_stop 0 0 = zero_context\<lparr>ctx_state := CONTEXT_CALLING, ctx_regs := visit_regs\<rparr>"
    "contexts visit_stop 1 0 = zero_context\<lparr>ctx_state := CONTEXT_RUNNING, caller := Some 0\<rparr>" "\<not> stop_lock visit_stop"
    "length (doms visit_stop) = 2"
    by (simp_all add: visit_stop_def visit_boot_def)
  have "ctx_state (contexts visit_stop 1 0) = CONTEXT_RUNNING" "caller (contexts visit_stop 1 0) = Some 0"
    "ctx_state (contexts visit_stop 0 0) = CONTEXT_CALLING" "\<not> quiet (contexts visit_stop 0 0)"
    "ctx_regs (contexts visit_stop 0 0) = visit_regs"
    unfolding c by (simp_all add: zero_context_def)
  then show ?thesis
    using self_stop_hides_failure [OF r _ c(3) w, where k = 0 and u = visit_units and fails = "\<lambda>_. False"]
    by (simp add: visit_stop_home c(4) sbi_word_def)
qed

end
