(* ===== verification/Spec2Isabelle.thy ===== *)
theory Spec2Isabelle
  imports Shootdown Events Ecall
begin

text \<open>
  Verification of the RISC-V Trusted Firmware monitor.
\<close>

end
